(* ===== verification/Rust_Prelude.thy ===== *)
theory Rust_Prelude
  imports Main "HOL-Library.Word" "HOL-Library.Sublist" "HOL-Library.Multiset"
begin

unbundle bit_operations_syntax

text \<open>
  The shared base of the development: Rust's fixed-width integers as words, panics as
  values, byte encodings (\<^verbatim>\<open>to_le_bytes\<close>, \<^verbatim>\<open>from_be_bytes\<close>, \<dots>), copies into
  slices, and the lemmas on lists and words that every component uses.  The arithmetic
  is that of the release profile (\<^verbatim>\<open>Cargo.toml\<close> ships \<^verbatim>\<open>--release\<close> binaries): integer
  overflow wraps around, and \<^verbatim>\<open>debug_assert!\<close> is off.  \<^verbatim>\<open>usize\<close> is 64 bits wide, as on
  every target of the project.
\<close>

section \<open>Machine integers, panics\<close>

type_synonym u8 = "8 word"
type_synonym u16 = "16 word"
type_synonym u32 = "32 word"
type_synonym u64 = "64 word"
type_synonym usize = "64 word"
type_synonym bytes = "u8 list"

datatype panic =
    IndexOutOfBounds
  | SliceLengthMismatch
  | DivisionByZero
  | RemainderByZero

type_synonym 'a may_panic = "panic + 'a"

named_theorems rust_simps "equations that evaluate the Rust primitives"
named_theorems word_nat "rules that turn a word operation into one on natural numbers"

lemma mod_less_eq_self [word_nat]: "(n::nat) < m \<Longrightarrow> n mod m = n"
  by simp

lemma unat_lt_pow: "unat (w :: 'a::len word) < 2 ^ LENGTH('a)"
  by (rule unsigned_less)

lemma unat_u32_lt [simp]: "unat (w :: u32) < 4294967296"
  using unat_lt_pow [of w] by simp

lemma unat_u64_lt [simp]: "unat (w :: u64) < 18446744073709551616"
  using unat_lt_pow [of w] by simp

lemma unat_u16_lt [simp]: "unat (w :: u16) < 65536"
  using unat_lt_pow [of w] by simp

lemma unat_u8_lt [simp]: "unat (w :: u8) < 256"
  using unat_lt_pow [of w] by simp

lemma unat_add_if [word_nat]:
  "unat (a + b :: 'a::len word) = (unat a + unat b) mod 2 ^ LENGTH('a)"
  by (simp add: unat_word_ariths)

lemma unat_add_small:
  "unat a + unat b < 2 ^ LENGTH('a) \<Longrightarrow> unat (a + b :: 'a::len word) = unat a + unat b"
  by (simp add: unat_word_ariths)

lemma unat_of_nat_small [word_nat]:
  "n < 2 ^ LENGTH('a) \<Longrightarrow> unat (of_nat n :: 'a::len word) = n"
  by (simp add: unat_of_nat take_bit_nat_eq_self)

lemma unat_two_pow:
  assumes "k < LENGTH('a)"
  shows "unat (2 ^ k :: 'a::len word) = 2 ^ k"
proof -
  have "(2::nat) ^ k < 2 ^ LENGTH('a)"
    using assms by (intro power_strict_increasing) simp_all
  then have "unat (of_nat (2 ^ k) :: 'a word) = 2 ^ k"
    by (rule unat_of_nat_small)
  then show ?thesis by simp
qed

lemma unat_diff_zero_iff: "unat (a - b :: 'a::len word) = 0 \<longleftrightarrow> a = b"
  by (simp add: unat_eq_0)

lemma unat_ucast_up:
  "LENGTH('a) \<le> LENGTH('b) \<Longrightarrow> unat (ucast (w :: 'a::len word) :: 'b::len word) = unat w"
  by (simp add: unsigned_ucast_eq take_bit_nat_eq_self unat_lt_pow [THEN less_le_trans])

lemma bit_beyond_word: "LENGTH('a) \<le> n \<Longrightarrow> \<not> bit (w :: 'a::len word) n"
  by (auto dest: bit_imp_le_length)

text \<open>The low bits of a word selected by the mask \<open>2\<^sup>k - 1\<close> are its remainder.\<close>

lemma unat_and_mask:
  fixes w :: "'a::len word"
  assumes "m = 2 ^ k - 1"
  shows "unat (w AND m) = unat w mod 2 ^ k"
proof -
  have "w AND m = take_bit k w"
    by (simp add: assms take_bit_eq_mask mask_eq_exp_minus_1)
  then have "unat (w AND m) = take_bit k (unat w)"
    by (simp only: unsigned_take_bit_eq)
  then show ?thesis
    by (simp only: take_bit_eq_mod)
qed

text \<open>Counting modulo the word size and then modulo a smaller power of two.\<close>

lemma mod_pow_mod_pow: "k \<le> l \<Longrightarrow> (n mod 2 ^ l) mod 2 ^ k = n mod (2 ^ k :: nat)"
  by (simp add: mod_mod_cancel le_imp_power_dvd)

section \<open>Byte encodings\<close>

definition to_le_bytes :: "u64 \<Rightarrow> bytes" where
  "to_le_bytes w = map (\<lambda>i. ucast (drop_bit (8 * i) w)) [0..<8]"

definition from_le_bytes :: "bytes \<Rightarrow> u64" where
  "from_le_bytes bs = foldr (\<lambda>b acc. ucast b OR push_bit 8 acc) bs 0"

definition from_be_bytes :: "u8 \<Rightarrow> u8 \<Rightarrow> u16" where
  "from_be_bytes hi lo = push_bit 8 (ucast hi) OR ucast lo"

definition hi_byte :: "u16 \<Rightarrow> u8" where
  "hi_byte w = ucast (drop_bit 8 w)"

definition lo_byte :: "u16 \<Rightarrow> u8" where
  "lo_byte w = ucast w"

lemma length_to_le_bytes [simp]: "length (to_le_bytes w) = 8"
  by (simp add: to_le_bytes_def)

text \<open>One byte put back below the bytes above it.\<close>

lemma byte_or_rest: "ucast (ucast x :: u8) OR push_bit 8 (drop_bit 8 x) = (x :: u64)"
proof (rule bit_word_eqI)
  fix n
  assume "n < LENGTH(64)"
  then show "bit (ucast (ucast x :: u8) OR push_bit 8 (drop_bit 8 x)) n \<longleftrightarrow> bit x n"
    by (cases "n < 8") (auto simp: bit_simps)
qed

lemma from_le_bytes_tail:
  assumes "k \<le> 8"
  shows "from_le_bytes (map (\<lambda>i. ucast (drop_bit (8 * i) w)) [k..<8]) = drop_bit (8 * k) w"
  using assms
proof (induction k rule: inc_induct)
  case base
  show ?case by (simp add: from_le_bytes_def)
next
  case (step k)
  then show ?case
    using byte_or_rest [of "drop_bit (8 * k) w"]
    by (simp add: upt_conv_Cons from_le_bytes_def drop_bit_drop_bit add.commute)
qed

lemma from_to_le_bytes [simp]: "from_le_bytes (to_le_bytes w) = w"
  using from_le_bytes_tail [of 0 w] by (simp add: to_le_bytes_def)

lemma to_le_bytes_inj: "to_le_bytes v = to_le_bytes w \<longleftrightarrow> v = w"
  by (metis from_to_le_bytes)

lemma from_be_bytes_hi_lo [simp]: "from_be_bytes (hi_byte w) (lo_byte w) = w"
proof (rule bit_word_eqI)
  fix n
  assume "n < LENGTH(16)"
  then show "bit (from_be_bytes (hi_byte w) (lo_byte w)) n \<longleftrightarrow> bit w n"
    by (auto simp: from_be_bytes_def hi_byte_def lo_byte_def bit_simps)
qed

section \<open>Slices\<close>

text \<open>\<open>write_at off ys xs\<close> is \<open>xs\<close> with the \<open>length ys\<close> bytes from \<open>off\<close> on replaced: what
  \<^verbatim>\<open>xs[off..off + ys.len()].copy_from_slice(ys)\<close> leaves.  \<open>subslice a b xs\<close> is
  \<^verbatim>\<open>&xs[a..b]\<close>.\<close>

definition write_at :: "nat \<Rightarrow> 'a list \<Rightarrow> 'a list \<Rightarrow> 'a list" where
  "write_at off ys xs = take off xs @ ys @ drop (off + length ys) xs"

definition subslice :: "nat \<Rightarrow> nat \<Rightarrow> 'a list \<Rightarrow> 'a list" where
  "subslice a b xs = take (b - a) (drop a xs)"

lemma length_write_at [simp]:
  "off + length ys \<le> length xs \<Longrightarrow> length (write_at off ys xs) = length xs"
  by (simp add: write_at_def)

lemma nth_write_at:
  assumes "off + length ys \<le> length xs" "i < length xs"
  shows "write_at off ys xs ! i = (if off \<le> i \<and> i < off + length ys then ys ! (i - off) else xs ! i)"
  using assms by (auto simp: write_at_def nth_append min_def)

lemma length_subslice [simp]: "b \<le> length xs \<Longrightarrow> length (subslice a b xs) = b - a"
  by (simp add: subslice_def)

lemma subslice_write_at_same [simp]:
  "off + length ys \<le> length xs \<Longrightarrow> subslice off (off + length ys) (write_at off ys xs) = ys"
  by (simp add: subslice_def write_at_def)

end
