(* ===== verification/Xdp_Rings.thy ===== *)
theory Xdp_Rings
  imports Rust_Prelude
begin

unbundle bit_operations_syntax

text \<open>
  The AF_XDP rings of \<^verbatim>\<open>src/xdp/umem.rs\<close>: \<^verbatim>\<open>AddrRing\<close> (fill and completion rings, UMEM
  offsets) and \<^verbatim>\<open>DescRing\<close> (RX and TX rings, descriptors).  Both structs have the same
  fields, so one record with the slot type as its parameter stands for both: the pointers
  into the mapping, the cells those pointers lead to (producer and consumer index, flags,
  descriptor slots), \<^verbatim>\<open>size\<close> and \<^verbatim>\<open>mask\<close>.  The indices are free-running 32-bit counters.
  An operation reads and writes the cells as the code does, in its order.  The abstraction
  \<open>ring_list\<close> is the queue of the published and not yet consumed slots; every operation is
  proved to be a FIFO operation on it, for each value of the counters, also when they
  wrap around.  The contracts are the locales \<open>producer_side\<close>, \<open>consumer_side\<close> and
  \<open>fifo_ring\<close>, interpreted on the operations of both rings.
\<close>

section \<open>Data\<close>

definition XDP_RING_NEED_WAKEUP :: u32 where
  "XDP_RING_NEED_WAKEUP = 1"

record XdpDesc =
  addr :: u64
  len :: u32
  options :: u32

record ring_ptrs =
  map_ptr :: u64
  mapsize :: usize
  producer_ptr :: u64
  consumer_ptr :: u64
  flags_ptr :: u64
  descs_ptr :: u64

record 'a ring =
  ptrs :: ring_ptrs
  producer :: u32
  consumer :: u32
  flags :: u32
  descs :: "'a list"
  ring_size :: u32
  ring_mask :: u32

type_synonym AddrRing = "u64 ring"
type_synonym DescRing = "XdpDesc ring"

definition null_ptrs :: ring_ptrs where
  "null_ptrs = \<lparr>map_ptr = 0, mapsize = 0, producer_ptr = 0, consumer_ptr = 0, flags_ptr = 0,
     descs_ptr = 0\<rparr>"

definition addr_zeroed :: AddrRing where
  "addr_zeroed = \<lparr>ptrs = null_ptrs, producer = 0, consumer = 0, flags = 0, descs = [],
     ring_size = 0, ring_mask = 0\<rparr>"

definition desc_zeroed :: DescRing where
  "desc_zeroed = \<lparr>ptrs = null_ptrs, producer = 0, consumer = 0, flags = 0, descs = [],
     ring_size = 0, ring_mask = 0\<rparr>"

section \<open>Operations\<close>

text \<open>The index computation and the two loop bodies are the same in all four operations:
  \<^verbatim>\<open>base.wrapping_add(i as u32) & self.mask\<close>, a volatile write, a volatile read.\<close>

definition slot :: "u32 \<Rightarrow> u32 \<Rightarrow> nat \<Rightarrow> nat" where
  "slot m base i = unat ((base + of_nat i) AND m)"

fun write_slots :: "u32 \<Rightarrow> u32 \<Rightarrow> nat \<Rightarrow> 'a list \<Rightarrow> 'a list \<Rightarrow> 'a list" where
  "write_slots m pd i [] ds = ds"
| "write_slots m pd i (x # xs) ds = write_slots m pd (Suc i) xs (ds[slot m pd i := x])"

definition read_slots :: "u32 \<Rightarrow> u32 \<Rightarrow> nat \<Rightarrow> 'a list \<Rightarrow> 'a list" where
  "read_slots m cn n ds = map (\<lambda>i. ds ! slot m cn i) [0..<n]"

definition free_slots :: "'a ring \<Rightarrow> nat" where
  "free_slots r = unat (ring_size r - (producer r - consumer r))"

definition enqueue_batch :: "AddrRing \<Rightarrow> u64 list \<Rightarrow> AddrRing \<times> nat" where
  "enqueue_batch r addrs =
     (let pd = producer r;
          n = min (length addrs) (free_slots r)
      in (r\<lparr>descs := write_slots (ring_mask r) pd 0 (take n addrs) (descs r),
            producer := pd + of_nat n\<rparr>, n))"

definition dequeue_all :: "AddrRing \<Rightarrow> AddrRing \<times> u64 list" where
  "dequeue_all r =
     (let cn = consumer r;
          available = unat (producer r - cn);
          out = read_slots (ring_mask r) cn available (descs r)
      in (if available > 0 then r\<lparr>consumer := cn + of_nat available\<rparr> else r, out))"

definition addr_needs_wakeup :: "AddrRing \<Rightarrow> bool" where
  "addr_needs_wakeup r \<longleftrightarrow> flags r AND XDP_RING_NEED_WAKEUP \<noteq> 0"

definition produce_tx :: "DescRing \<Rightarrow> XdpDesc list \<Rightarrow> DescRing \<times> nat" where
  "produce_tx r ds =
     (let pd = producer r;
          n = min (length ds) (free_slots r);
          r1 = r\<lparr>descs := write_slots (ring_mask r) pd 0 (take n ds) (descs r)\<rparr>
      in (if n > 0 then r1\<lparr>producer := pd + of_nat n\<rparr> else r1, n))"

definition consume_rx :: "DescRing \<Rightarrow> DescRing \<times> XdpDesc list" where
  "consume_rx r =
     (let cn = consumer r;
          available = unat (producer r - cn)
      in if available = 0 then (r, [])
         else (r\<lparr>consumer := cn + of_nat available\<rparr>,
               read_slots (ring_mask r) cn available (descs r)))"

definition desc_needs_wakeup :: "DescRing \<Rightarrow> bool" where
  "desc_needs_wakeup r \<longleftrightarrow> flags r AND XDP_RING_NEED_WAKEUP \<noteq> 0"

section \<open>Well-formed rings and the queue they hold\<close>

definition ring_wf :: "'a ring \<Rightarrow> bool" where
  "ring_wf r \<longleftrightarrow>
     (\<exists>k<32. unat (ring_size r) = 2 ^ k) \<and>
     ring_mask r = ring_size r - 1 \<and>
     length (descs r) = unat (ring_size r) \<and>
     unat (producer r - consumer r) \<le> unat (ring_size r)"

definition ring_cap :: "'a ring \<Rightarrow> nat" where
  "ring_cap r = unat (ring_size r)"

definition ring_list :: "'a ring \<Rightarrow> 'a list" where
  "ring_list r = read_slots (ring_mask r) (consumer r) (unat (producer r - consumer r)) (descs r)"

section \<open>Slots of a power-of-two ring\<close>

lemma slot_eq_mod:
  assumes "k < 32" "m = 2 ^ k - 1"
  shows "slot m base i = (unat base + i) mod 2 ^ k"
proof -
  have "slot m base i = unat (base + of_nat i) mod 2 ^ k"
    by (simp add: slot_def unat_and_mask [OF assms(2)])
  also have "\<dots> = (unat base + i mod 2 ^ 32) mod 2 ^ 32 mod 2 ^ k"
    by (simp add: unat_word_ariths unat_of_nat take_bit_eq_mod)
  also have "\<dots> = (unat base + i) mod 2 ^ 32 mod 2 ^ k"
    by (simp only: mod_add_right_eq)
  also have "\<dots> = (unat base + i) mod 2 ^ k"
    using assms(1) by (intro mod_pow_mod_pow) simp
  finally show ?thesis .
qed

lemma add_mod_inj:
  fixes a :: nat
  assumes "(a + i) mod n = (a + j) mod n" "i < n" "j < n"
  shows "i = j"
proof -
  from assms(1) have "i mod n = j mod n"
    by (auto simp: nat_mod_eq_iff)
  with assms(2,3) show ?thesis by simp
qed

lemma length_write_slots [simp]: "length (write_slots m pd i xs ds) = length ds"
  by (induction m pd i xs ds rule: write_slots.induct) simp_all

lemma length_read_slots [simp]: "length (read_slots m cn n ds) = n"
  by (simp add: read_slots_def)

lemma write_slots_other:
  assumes "\<And>j. i \<le> j \<Longrightarrow> j < i + length xs \<Longrightarrow> slot m pd j \<noteq> p"
  shows "write_slots m pd i xs ds ! p = ds ! p"
  using assms
proof (induction m pd i xs ds rule: write_slots.induct)
  case (2 m pd i x xs ds)
  then have "slot m pd i \<noteq> p" by simp
  moreover have "write_slots m pd (Suc i) xs (ds[slot m pd i := x]) ! p
      = ds[slot m pd i := x] ! p"
    using 2 by simp
  ultimately show ?case by simp
qed simp

text \<open>The pieces of a well-formed ring: its exponent and its slots.\<close>

lemma ring_wfE:
  assumes "ring_wf r"
  obtains k where "k < 32" "unat (ring_size r) = 2 ^ k" "ring_mask r = 2 ^ k - 1"
    "length (descs r) = 2 ^ k" "unat (producer r - consumer r) \<le> 2 ^ k"
proof -
  from assms obtain k where k: "k < 32" "unat (ring_size r) = 2 ^ k"
    by (auto simp: ring_wf_def)
  then have "ring_size r = 2 ^ k"
    using k by (simp add: word_unat_eq_iff unat_two_pow)
  with k assms show thesis
    by (intro that [of k]) (auto simp: ring_wf_def)
qed

lemma write_slots_nth:
  assumes "k < 32" "m = 2 ^ k - 1" "length ds = 2 ^ k" "i + length xs \<le> 2 ^ k" "j < length xs"
  shows "write_slots m pd i xs ds ! slot m pd (i + j) = xs ! j"
  using assms(3-5)
proof (induction xs arbitrary: i j ds)
  case (Cons x xs)
  have distinct: "slot m pd l \<noteq> slot m pd i" if "Suc i \<le> l" "l < Suc i + length xs" for l
    using that Cons.prems(2) add_mod_inj [of "unat pd" l "2 ^ k" i]
    by (auto simp: slot_eq_mod [OF assms(1,2)])
  have bound: "slot m pd i < length ds"
    using Cons.prems(1) by (simp add: slot_eq_mod [OF assms(1,2)])
  show ?case
  proof (cases j)
    case 0
    have "write_slots m pd (Suc i) xs (ds[slot m pd i := x]) ! slot m pd i
        = ds[slot m pd i := x] ! slot m pd i"
      using distinct by (intro write_slots_other) blast
    with 0 bound show ?thesis by simp
  next
    case (Suc j')
    with Cons.IH [of "ds[slot m pd i := x]" "Suc i" j'] Cons.prems show ?thesis by simp
  qed
qed simp

lemma slot_shift: "slot m (base + of_nat q) j = slot m base (q + j)"
  by (simp add: slot_def add.assoc)

lemma producer_eq: "producer r = consumer r + of_nat (unat (producer r - consumer r))"
  by simp

text \<open>Writing at the producer index appends to the queue.\<close>

lemma read_slots_write_slots:
  assumes "k < 32" "m = 2 ^ k - 1" "length ds = 2 ^ k" "q + length xs \<le> 2 ^ k"
  shows "read_slots m cn (q + length xs) (write_slots m (cn + of_nat q) 0 xs ds)
       = read_slots m cn q ds @ xs"
proof (rule nth_equalityI)
  fix i
  assume "i < length (read_slots m cn (q + length xs) (write_slots m (cn + of_nat q) 0 xs ds))"
  then have i: "i < q + length xs" by simp
  show "read_slots m cn (q + length xs) (write_slots m (cn + of_nat q) 0 xs ds) ! i
      = (read_slots m cn q ds @ xs) ! i"
  proof (cases "i < q")
    case True
    have "slot m (cn + of_nat q) j \<noteq> slot m cn i" if "j < length xs" for j
      using True that assms(4) add_mod_inj [of "unat cn" "q + j" "2 ^ k" i]
      by (auto simp: slot_shift slot_eq_mod [OF assms(1,2)])
    then have "write_slots m (cn + of_nat q) 0 xs ds ! slot m cn i = ds ! slot m cn i"
      by (intro write_slots_other) simp
    with True i show ?thesis by (simp add: read_slots_def nth_append)
  next
    case False
    then obtain j where j: "i = q + j" "j < length xs"
      using i by (metis add_less_cancel_left le_Suc_ex not_less)
    with write_slots_nth [OF assms(1-3), of 0 xs j "cn + of_nat q"] assms(4)
    have "write_slots m (cn + of_nat q) 0 xs ds ! slot m cn i = xs ! j"
      by (simp add: slot_shift)
    with j i show ?thesis by (simp add: read_slots_def nth_append)
  qed
qed simp

section \<open>The contract of a ring\<close>

text \<open>The producer's side: a batch is appended in order, as much of it as there is room for.\<close>

locale producer_side =
  fixes enq :: "'r \<Rightarrow> 'a list \<Rightarrow> 'r \<times> nat"
    and contents :: "'r \<Rightarrow> 'a list"
    and capacity :: "'r \<Rightarrow> nat"
    and wf :: "'r \<Rightarrow> bool"
  assumes contents_bound: "wf r \<Longrightarrow> length (contents r) \<le> capacity r"
    and enq_count: "wf r \<Longrightarrow> snd (enq r xs) = min (length xs) (capacity r - length (contents r))"
    and enq_contents: "wf r \<Longrightarrow> contents (fst (enq r xs)) = contents r @ take (snd (enq r xs)) xs"
    and enq_capacity: "wf r \<Longrightarrow> capacity (fst (enq r xs)) = capacity r"
    and enq_wf: "wf r \<Longrightarrow> wf (fst (enq r xs))"
begin

lemma enq_all:
  assumes "wf r" "length (contents r) + length xs \<le> capacity r"
  shows "snd (enq r xs) = length xs" "contents (fst (enq r xs)) = contents r @ xs"
  using assms by (simp_all add: enq_count enq_contents)

lemma enq_none_iff:
  assumes "wf r" "xs \<noteq> []"
  shows "snd (enq r xs) = 0 \<longleftrightarrow> length (contents r) = capacity r"
  using assms contents_bound [OF assms(1)] by (auto simp: enq_count min_def split: if_splits)

lemma enq_rejected:
  assumes "wf r" "snd (enq r xs) = 0"
  shows "contents (fst (enq r xs)) = contents r"
  using assms by (simp add: enq_contents)

text \<open>Nothing is lost or duplicated: the queue and the refused rest are what was there.\<close>

lemma enq_conserves:
  assumes "wf r"
  shows "mset (contents (fst (enq r xs))) + mset (drop (snd (enq r xs)) xs)
       = mset (contents r) + mset xs"
proof -
  have "mset (take n xs) + mset (drop n xs) = mset xs" for n
    by (metis append_take_drop_id mset_append)
  with assms show ?thesis by (simp add: enq_contents ac_simps)
qed

end

text \<open>The consumer's side: everything published is taken, in order.\<close>

locale consumer_side =
  fixes deq :: "'r \<Rightarrow> 'r \<times> 'a list"
    and contents :: "'r \<Rightarrow> 'a list"
    and capacity :: "'r \<Rightarrow> nat"
    and wf :: "'r \<Rightarrow> bool"
  assumes deq_result: "wf r \<Longrightarrow> snd (deq r) = contents r"
    and deq_contents: "wf r \<Longrightarrow> contents (fst (deq r)) = []"
    and deq_capacity: "wf r \<Longrightarrow> capacity (fst (deq r)) = capacity r"
    and deq_wf: "wf r \<Longrightarrow> wf (fst (deq r))"
begin

lemma deq_twice: "wf r \<Longrightarrow> snd (deq (fst (deq r))) = []"
  by (simp add: deq_result deq_wf deq_contents)

end

locale fifo_ring = producer_side enq contents capacity wf + consumer_side deq contents capacity wf
  for enq :: "'r \<Rightarrow> 'a list \<Rightarrow> 'r \<times> nat"
    and deq :: "'r \<Rightarrow> 'r \<times> 'a list"
    and contents :: "'r \<Rightarrow> 'a list"
    and capacity :: "'r \<Rightarrow> nat"
    and wf :: "'r \<Rightarrow> bool"
begin

lemma deq_after_enq:
  assumes "wf r"
  shows "snd (deq (fst (enq r xs))) = contents r @ take (capacity r - length (contents r)) xs"
  using assms by (simp add: deq_result enq_wf enq_contents enq_count take_all_iff min_def)

lemma enq_after_deq:
  assumes "wf r" "length xs \<le> capacity r"
  shows "snd (enq (fst (deq r)) xs) = length xs" "contents (fst (enq (fst (deq r)) xs)) = xs"
  using assms enq_all [OF deq_wf] by (simp_all add: deq_contents deq_capacity)

end

section \<open>The operations implement the contract\<close>

lemma length_ring_list: "length (ring_list r) = unat (producer r - consumer r)"
  by (simp add: ring_list_def)

lemma ring_list_bound: "ring_wf r \<Longrightarrow> length (ring_list r) \<le> ring_cap r"
  by (simp add: length_ring_list ring_cap_def ring_wf_def)

lemma free_slots_eq: "ring_wf r \<Longrightarrow> free_slots r = ring_cap r - length (ring_list r)"
  by (simp add: free_slots_def ring_cap_def ring_wf_def length_ring_list unat_sub word_le_nat_alt)

text \<open>Publishing \<open>n\<close> slots written at the producer index.\<close>

lemma publish_unat:
  assumes "ring_wf r" "n \<le> free_slots r"
  shows "unat (producer r + of_nat n - consumer r) = unat (producer r - consumer r) + n"
proof -
  from assms(1) obtain k where k: "k < 32" "unat (ring_size r) = 2 ^ k"
    "unat (producer r - consumer r) \<le> 2 ^ k" by (rule ring_wfE)
  have "unat (producer r - consumer r) + n \<le> 2 ^ k"
    using assms k by (simp add: free_slots_eq ring_cap_def length_ring_list)
  also have "(2::nat) ^ k < 2 ^ 32"
    using k(1) by (intro power_strict_increasing) simp_all
  finally have "unat (producer r - consumer r) + n < 2 ^ 32" .
  then have "unat ((producer r - consumer r) + of_nat n) = unat (producer r - consumer r) + n"
    by (simp add: unat_word_ariths unat_of_nat take_bit_nat_eq_self)
  then show ?thesis by (simp add: algebra_simps)
qed

lemma publish_ring:
  fixes r :: "'a ring"
  assumes wf: "ring_wf r" and xs: "length xs \<le> free_slots r"
  defines "r' \<equiv> r\<lparr>descs := write_slots (ring_mask r) (producer r) 0 xs (descs r),
    producer := producer r + of_nat (length xs)\<rparr>"
  shows "ring_wf r'" "ring_list r' = ring_list r @ xs" "ring_cap r' = ring_cap r"
proof -
  from wf obtain k where k: "k < 32" "unat (ring_size r) = 2 ^ k" "ring_mask r = 2 ^ k - 1"
    "length (descs r) = 2 ^ k" "unat (producer r - consumer r) \<le> 2 ^ k" by (rule ring_wfE)
  have room: "unat (producer r - consumer r) + length xs \<le> 2 ^ k"
    using wf xs k by (simp add: free_slots_eq ring_cap_def length_ring_list)
  note pub = publish_unat [OF wf xs]
  show "ring_wf r'"
    using wf pub room k by (simp add: ring_wf_def r'_def)
  show "ring_list r' = ring_list r @ xs"
    using read_slots_write_slots [OF k(1,3,4) room, of "consumer r"] pub
    by (simp add: ring_list_def r'_def)
  show "ring_cap r' = ring_cap r" by (simp add: ring_cap_def r'_def)
qed

text \<open>The same for a batch cut to the room there is.\<close>

lemma publish_batch:
  fixes r :: "'a ring" and xs :: "'a list"
  assumes wf: "ring_wf r"
  defines "n \<equiv> min (length xs) (free_slots r)"
  defines "r' \<equiv> r\<lparr>descs := write_slots (ring_mask r) (producer r) 0 (take n xs) (descs r),
    producer := producer r + of_nat n\<rparr>"
  shows "ring_wf r'" "ring_list r' = ring_list r @ take n xs" "ring_cap r' = ring_cap r"
  using publish_ring [OF wf, of "take n xs"] by (simp_all add: n_def r'_def)

lemma consume_ring:
  fixes r :: "'a ring"
  assumes "ring_wf r"
  defines "r' \<equiv> r\<lparr>consumer := consumer r + of_nat (unat (producer r - consumer r))\<rparr>"
  shows "ring_wf r'" "ring_list r' = []" "ring_cap r' = ring_cap r"
  using assms by (auto simp: ring_wf_def ring_list_def ring_cap_def read_slots_def)

lemma ring_list_nil_iff: "ring_list r = [] \<longleftrightarrow> producer r = consumer r"
  by (metis length_0_conv length_ring_list unat_diff_zero_iff)

lemma produce_tx_eq:
  "produce_tx r xs = (let n = min (length xs) (free_slots r) in
     (r\<lparr>descs := write_slots (ring_mask r) (producer r) 0 (take n xs) (descs r),
        producer := producer r + of_nat n\<rparr>, n))"
  by (auto simp: produce_tx_def Let_def)

interpretation addr_ring: fifo_ring enqueue_batch dequeue_all ring_list ring_cap
  "ring_wf :: AddrRing \<Rightarrow> bool"
proof (unfold_locales, goal_cases)
  case (1 r)
  then show ?case by (rule ring_list_bound)
next
  case (2 r xs)
  then show ?case by (simp add: enqueue_batch_def Let_def free_slots_eq)
next
  case (3 r xs)
  then show ?case by (simp add: enqueue_batch_def Let_def publish_batch)
next
  case (4 r xs)
  then show ?case by (simp add: enqueue_batch_def Let_def publish_batch)
next
  case (5 r xs)
  then show ?case by (simp add: enqueue_batch_def Let_def publish_batch)
next
  case (6 r)
  then show ?case by (simp add: dequeue_all_def Let_def ring_list_def)
next
  case (7 r)
  then show ?case using consume_ring [of r] by (simp add: dequeue_all_def Let_def ring_list_nil_iff unat_diff_zero_iff)
next
  case (8 r)
  then show ?case by (simp add: dequeue_all_def Let_def ring_cap_def)
next
  case (9 r)
  then show ?case using consume_ring [of r] by (simp add: dequeue_all_def Let_def)
qed

interpretation desc_ring: fifo_ring produce_tx consume_rx ring_list ring_cap
  "ring_wf :: DescRing \<Rightarrow> bool"
proof (unfold_locales, goal_cases)
  case (1 r)
  then show ?case by (rule ring_list_bound)
next
  case (2 r xs)
  then show ?case by (simp add: produce_tx_eq Let_def free_slots_eq)
next
  case (3 r xs)
  then show ?case by (simp add: produce_tx_eq Let_def publish_batch)
next
  case (4 r xs)
  then show ?case by (simp add: produce_tx_eq Let_def publish_batch)
next
  case (5 r xs)
  then show ?case by (simp add: produce_tx_eq Let_def publish_batch)
next
  case (6 r)
  then show ?case by (simp add: consume_rx_def Let_def ring_list_def read_slots_def)
next
  case (7 r)
  then show ?case using consume_ring [of r] by (simp add: consume_rx_def Let_def ring_list_nil_iff unat_diff_zero_iff)
next
  case (8 r)
  then show ?case by (simp add: consume_rx_def Let_def ring_cap_def)
next
  case (9 r)
  then show ?case using consume_ring [of r] by (simp add: consume_rx_def Let_def)
qed

text \<open>The peer of a ring takes the first slot by moving the consumer index on.\<close>

lemma consume_one:
  assumes "ring_wf r" "ring_list r \<noteq> []"
  shows "ring_wf (r\<lparr>consumer := consumer r + 1\<rparr>) \<and> ring_cap (r\<lparr>consumer := consumer r + 1\<rparr>) = ring_cap r \<and>
    ring_list (r\<lparr>consumer := consumer r + 1\<rparr>) = tl (ring_list r)"
proof -
  let ?n = "unat (producer r - consumer r)"
  have n: "0 < ?n" using assms(2) by (simp add: length_ring_list flip: length_greater_0_conv)
  have "unat (producer r - consumer r - 1) = ?n - unat (1::u32)"
    using n by (intro unat_sub) (simp add: word_le_nat_alt)
  then have d: "unat (producer r - (consumer r + 1)) = ?n - 1" by (simp add: diff_diff_eq)
  have "read_slots m (cn + 1) (k - 1) ds = tl (read_slots m cn k ds)" for m cn k and ds :: "'a list"
  proof (cases k)
    case (Suc j)
    have "[0..<k] = 0 # map Suc [0..<j]" by (simp add: Suc upt_conv_Cons map_Suc_upt del: upt_Suc)
    then show ?thesis
      using slot_shift [of m cn 1] by (simp add: read_slots_def Suc del: upt_Suc)
  qed (simp add: read_slots_def)
  moreover have "unat (producer r - (consumer r + 1)) \<le> unat (ring_size r)"
    using assms(1) unfolding d ring_wf_def by linarith
  ultimately show ?thesis
    using assms(1) by (auto simp: ring_list_def ring_wf_def ring_cap_def d)
qed

section \<open>Properties\<close>

text \<open>A ring of four slots whose producer index is about to wrap around.\<close>

definition wrap_ring :: "'a \<Rightarrow> 'a ring" where
  "wrap_ring x = \<lparr>ptrs = null_ptrs, producer = 0xFFFFFFFF, consumer = 0xFFFFFFFE, flags = 0,
     descs = replicate 4 x, ring_size = 4, ring_mask = 3\<rparr>"

lemma wrap_ring_wf: "ring_wf (wrap_ring x)"
proof -
  have "(\<exists>k<32. 4 = (2::nat) ^ k)" by (intro exI [of _ 2]) simp
  then show ?thesis by (simp add: ring_wf_def wrap_ring_def)
qed

lemma wrap_ring_list: "ring_list (wrap_ring x) = [x]" "ring_cap (wrap_ring x) = 4"
  by (simp_all add: ring_list_def ring_cap_def wrap_ring_def read_slots_def slot_def)

text \<open>C6. Enqueueing into the fill ring appends to the queue, in order, as many of the addresses as there
  are free slots, and returns their number; the ring stays well-formed, for every value of the
  free-running 32-bit indices.\<close>

theorem enqueue_batch_refines:
  assumes "ring_wf r" "enqueue_batch r xs = (r', n)"
  shows "n = min (length xs) (ring_cap r - length (ring_list r)) \<and>
         ring_list r' = ring_list r @ take n xs \<and> ring_wf r' \<and> ring_cap r' = ring_cap r"
  using assms addr_ring.enq_count [of r xs] addr_ring.enq_contents [of r xs]
    addr_ring.enq_wf [of r xs] addr_ring.enq_capacity [of r xs]
  by simp

theorem enqueue_batch_refines_witness:
  "ring_wf (wrap_ring (9::u64)) \<and>
   ring_list (fst (enqueue_batch (wrap_ring 9) [1, 2, 3, 4])) = [9, 1, 2, 3] \<and>
   snd (enqueue_batch (wrap_ring 9) [1, 2, 3, 4]) = 3"
proof -
  obtain r' n where e: "enqueue_batch (wrap_ring 9) [1, 2, 3, 4] = (r', n)" by fastforce
  with enqueue_batch_refines [OF wrap_ring_wf e] wrap_ring_wf [of "9::u64"] show ?thesis
    by (simp add: wrap_ring_list)
qed

text \<open>C17. What was put into a ring of addresses comes out again, once and in order: \<^verbatim>\<open>dequeue_all\<close> after
  \<^verbatim>\<open>enqueue_batch\<close> returns the old queue and the accepted addresses, and a second call nothing.\<close>

theorem dequeue_after_enqueue:
  assumes "ring_wf r"
  shows "snd (dequeue_all (fst (enqueue_batch r xs))) =
           ring_list r @ take (ring_cap r - length (ring_list r)) xs \<and>
         snd (dequeue_all (fst (dequeue_all (fst (enqueue_batch r xs))))) = []"
  using addr_ring.deq_after_enq [OF assms, of xs] addr_ring.deq_twice [OF addr_ring.enq_wf [OF assms]]
  by simp

theorem dequeue_after_enqueue_witness:
  "snd (dequeue_all (fst (enqueue_batch (wrap_ring 9) [1, 2, 3, 4]))) = [9, 1, 2, 3]"
  using dequeue_after_enqueue [OF wrap_ring_wf, of 9 "[1, 2, 3, 4]"] by (simp add: wrap_ring_list)

text \<open>C16. The same for descriptors: \<^verbatim>\<open>consume_rx\<close> after \<^verbatim>\<open>produce_tx\<close> gives what was in the ring and what fitted, in
  order, and once: it leaves the ring empty and the next \<^verbatim>\<open>consume_rx\<close> returns nothing; and \<^verbatim>\<open>produce_tx\<close> of one
  descriptor refuses it exactly when the ring is full.\<close>

theorem consume_after_produce:
  assumes "ring_wf r"
  shows "snd (consume_rx (fst (produce_tx r ds))) =
           ring_list r @ take (ring_cap r - length (ring_list r)) ds \<and>
         ring_list (fst (consume_rx (fst (produce_tx r ds)))) = [] \<and>
         snd (consume_rx (fst (consume_rx (fst (produce_tx r ds))))) = [] \<and>
         (snd (produce_tx r [d]) = 0 \<longleftrightarrow> length (ring_list r) = ring_cap r) \<and>
         ring_wf (fst (produce_tx r ds)) \<and> ring_wf (fst (consume_rx r))"
  using desc_ring.deq_after_enq [OF assms, of ds] desc_ring.enq_none_iff [OF assms, of "[d]"]
    desc_ring.enq_wf [OF assms, of ds] desc_ring.deq_wf [OF assms]
    desc_ring.deq_contents [OF desc_ring.enq_wf [OF assms]] desc_ring.deq_twice [OF desc_ring.enq_wf [OF assms]]
  by simp

theorem consume_after_produce_witness:
  "snd (consume_rx (fst (produce_tx (wrap_ring \<lparr>addr = 9, len = 1, options = 0\<rparr>)
      [\<lparr>addr = 4096, len = 58, options = 0\<rparr>]))) =
     [\<lparr>addr = 9, len = 1, options = 0\<rparr>, \<lparr>addr = 4096, len = 58, options = 0\<rparr>]"
  using consume_after_produce [OF wrap_ring_wf, of "\<lparr>addr = 9, len = 1, options = 0\<rparr>"
      "[\<lparr>addr = 4096, len = 58, options = 0\<rparr>]"]
  by (simp add: wrap_ring_list)

text \<open>Every slot that an operation on a well-formed ring reads or writes lies inside the mapped
  descriptor array, whatever the indices: the unchecked pointer arithmetic stays in bounds.\<close>

lemma slots_in_bounds:
  assumes "ring_wf r"
  shows "slot (ring_mask r) base i < length (descs r)"
proof -
  obtain k where "k < 32" "ring_mask r = 2 ^ k - 1" "length (descs r) = 2 ^ k"
    using assms by (elim ring_wfE)
  then show ?thesis by (simp add: slot_eq_mod)
qed

end
