(* ===== verification/Os_Model.thy ===== *)
theory Os_Model
  imports Xdp_Rings
begin

text \<open>
  The operating system as the code sees it.  System calls are parameters of the model: a
  record \<open>os\<close> of answers, each a function of the calls made so far, so any kernel behaviour
  is covered.  A function that calls the system threads the trace of its calls; the
  resources it holds (file descriptors, mappings) are computed from the trace.  Fallible
  functions return \<open>error + 'a\<close> beside the trace; \<open>bindE\<close> is Rust's \<^verbatim>\<open>?\<close> and \<open>inspect_err\<close>
  is \<^verbatim>\<open>Result::inspect_err\<close>.
\<close>

section \<open>Structures passed to the kernel\<close>

record XdpUmemReg =
  reg_addr :: u64
  reg_len :: u64
  chunk_size :: u32
  headroom :: u32
  reg_flags :: u32
  tx_metadata_len :: u32

record XdpRingOffsets =
  off_producer :: u64
  off_consumer :: u64
  off_desc :: u64
  off_flags :: u64

record XdpMmapOffsets =
  off_rx :: XdpRingOffsets
  off_tx :: XdpRingOffsets
  off_fr :: XdpRingOffsets
  off_cr :: XdpRingOffsets

record SockaddrXdp =
  sxdp_family :: u16
  sxdp_flags :: u16
  sxdp_ifindex :: u32
  sxdp_queue_id :: u32
  sxdp_shared_umem_fd :: u32

record sockaddr_in =
  sin_family :: u16
  sin_port :: u16
  sin_addr :: u32

datatype optval = OptU32 u32 | OptInt int | OptReg XdpUmemReg

datatype sockaddr = SaXdp SockaddrXdp | SaIn sockaddr_in

section \<open>Calls, traces, answers\<close>

datatype event =
    EvSocket int int int
  | EvSetsockopt int int int optval int
  | EvGetOffsets int bool
  | EvMmap usize int u64 "u64 option"
  | EvMunmap u64 usize
  | EvBind int sockaddr int
  | EvListen int int int
  | EvSendto int SockaddrXdp
  | EvClose int

type_synonym trace = "event list"

record os =
  os_pagesize :: "usize"
  os_socket :: "trace \<Rightarrow> int \<Rightarrow> int \<Rightarrow> int"
  os_setsockopt :: "trace \<Rightarrow> int \<Rightarrow> int \<Rightarrow> int \<Rightarrow> optval \<Rightarrow> int"
  os_get_offsets :: "trace \<Rightarrow> int \<Rightarrow> XdpMmapOffsets option"
  os_mmap :: "trace \<Rightarrow> usize \<Rightarrow> int \<Rightarrow> u64 \<Rightarrow> u64 option"
  os_bind :: "trace \<Rightarrow> int \<Rightarrow> sockaddr \<Rightarrow> int"
  os_listen :: "trace \<Rightarrow> int \<Rightarrow> int \<Rightarrow> int"
  os_last_error :: "trace \<Rightarrow> string"
  os_addr_cells :: "trace \<Rightarrow> u64 \<Rightarrow> XdpRingOffsets \<Rightarrow> u32 \<times> u32 \<times> u32 \<times> u64 list"
  os_desc_cells :: "trace \<Rightarrow> u64 \<Rightarrow> XdpRingOffsets \<Rightarrow> u32 \<times> u32 \<times> u32 \<times> XdpDesc list"

type_synonym 'a io = "trace \<Rightarrow> trace \<times> 'a"
type_synonym ('e, 'a) eio = "trace \<Rightarrow> trace \<times> ('e + 'a)"

definition retE :: "'a \<Rightarrow> ('e, 'a) eio" where
  "retE x = (\<lambda>tr. (tr, Inr x))"

definition failE :: "'e \<Rightarrow> ('e, 'a) eio" where
  "failE e = (\<lambda>tr. (tr, Inl e))"

definition bindE :: "('e, 'a) eio \<Rightarrow> ('a \<Rightarrow> ('e, 'b) eio) \<Rightarrow> ('e, 'b) eio" where
  "bindE m f = (\<lambda>tr. case m tr of (tr1, Inl e) \<Rightarrow> (tr1, Inl e) | (tr1, Inr x) \<Rightarrow> f x tr1)"

definition emit :: "event \<Rightarrow> trace \<Rightarrow> trace" where
  "emit e tr = tr @ [e]"

text \<open>\<open>inspect_err m act\<close> runs \<open>act\<close> when \<open>m\<close> fails and passes the error on.\<close>

definition inspect_err :: "('e, 'a) eio \<Rightarrow> (trace \<Rightarrow> trace) \<Rightarrow> ('e, 'a) eio" where
  "inspect_err m act = (\<lambda>tr. case m tr of (tr1, Inl e) \<Rightarrow> (act tr1, Inl e) | (tr1, Inr x) \<Rightarrow> (tr1, Inr x))"

definition or_elseE :: "('e, 'a) eio \<Rightarrow> ('e, 'a) eio \<Rightarrow> ('e, 'a) eio" where
  "or_elseE m m' = (\<lambda>tr. case m tr of (tr1, Inl e) \<Rightarrow> m' tr1 | (tr1, Inr x) \<Rightarrow> (tr1, Inr x))"

definition sys_socket :: "os \<Rightarrow> int \<Rightarrow> int \<Rightarrow> int io" where
  "sys_socket os fam ty = (\<lambda>tr. let fd = os_socket os tr fam ty in (emit (EvSocket fam ty fd) tr, fd))"

definition sys_setsockopt :: "os \<Rightarrow> int \<Rightarrow> int \<Rightarrow> int \<Rightarrow> optval \<Rightarrow> int io" where
  "sys_setsockopt os fd level opt v =
     (\<lambda>tr. let rc = os_setsockopt os tr fd level opt v in (emit (EvSetsockopt fd level opt v rc) tr, rc))"

definition sys_mmap :: "os \<Rightarrow> usize \<Rightarrow> int \<Rightarrow> u64 \<Rightarrow> u64 option io" where
  "sys_mmap os n fd pgoff =
     (\<lambda>tr. let a = os_mmap os tr n fd pgoff in (emit (EvMmap n fd pgoff a) tr, a))"

definition sys_bind :: "os \<Rightarrow> int \<Rightarrow> sockaddr \<Rightarrow> int io" where
  "sys_bind os fd sa = (\<lambda>tr. let rc = os_bind os tr fd sa in (emit (EvBind fd sa rc) tr, rc))"

definition sys_listen :: "os \<Rightarrow> int \<Rightarrow> int \<Rightarrow> int io" where
  "sys_listen os fd n = (\<lambda>tr. let rc = os_listen os tr fd n in (emit (EvListen fd n rc) tr, rc))"

definition sys_close :: "int \<Rightarrow> trace \<Rightarrow> trace" where
  "sys_close fd = emit (EvClose fd)"

definition sys_munmap :: "u64 \<Rightarrow> usize \<Rightarrow> trace \<Rightarrow> trace" where
  "sys_munmap a n = emit (EvMunmap a n)"

section \<open>Resources held\<close>

fun fd_effect :: "event \<Rightarrow> int multiset \<Rightarrow> int multiset" where
  "fd_effect (EvSocket d t fd) M = (if 0 \<le> fd then add_mset fd M else M)"
| "fd_effect (EvClose fd) M = M - {#fd#}"
| "fd_effect e M = M"

fun map_effect :: "event \<Rightarrow> (u64 \<times> usize) multiset \<Rightarrow> (u64 \<times> usize) multiset" where
  "map_effect (EvMmap n fd p (Some a)) M = add_mset (a, n) M"
| "map_effect (EvMunmap a n) M = M - {#(a, n)#}"
| "map_effect e M = M"

definition open_fds :: "trace \<Rightarrow> int multiset" where
  "open_fds tr = fold fd_effect tr {#}"

definition live_maps :: "trace \<Rightarrow> (u64 \<times> usize) multiset" where
  "live_maps tr = fold map_effect tr {#}"

text \<open>History of a trace, for saying what a failed set-up leaves behind: the mappings ever made (\<open>anon\<close>: of anonymous memory,
  else of a descriptor's ring), and the descriptors of sockets that were granted a first request for the ring offsets and
  refused a second one.  The flag of \<open>refused_effect\<close> tells whether the newest socket has been granted one.\<close>

fun made_effect :: "bool \<Rightarrow> event \<Rightarrow> (u64 \<times> usize) multiset \<Rightarrow> (u64 \<times> usize) multiset" where
  "made_effect anon (EvMmap n fd p (Some a)) M = (if (fd = -1) = anon then add_mset (a, n) M else M)"
| "made_effect anon e M = M"

definition maps_made :: "bool \<Rightarrow> trace \<Rightarrow> (u64 \<times> usize) multiset" where
  "maps_made anon tr = fold (made_effect anon) tr {#}"

fun refused_effect :: "event \<Rightarrow> bool \<times> int multiset \<Rightarrow> bool \<times> int multiset" where
  "refused_effect (EvSocket d t fd) s = (False, snd s)"
| "refused_effect (EvGetOffsets fd True) s = (True, snd s)"
| "refused_effect (EvGetOffsets fd False) s = (False, if fst s then add_mset fd (snd s) else snd s)"
| "refused_effect e s = s"

definition offsets_state :: "trace \<Rightarrow> bool \<times> int multiset" where
  "offsets_state tr = fold refused_effect tr (False, {#})"

definition refused_second :: "trace \<Rightarrow> int multiset" where
  "refused_second tr = snd (offsets_state tr)"

named_theorems io_simps "equations that run the system-call combinators"

lemmas [io_simps] = retE_def failE_def bindE_def inspect_err_def or_elseE_def
  sys_socket_def sys_setsockopt_def sys_mmap_def sys_bind_def sys_listen_def
  sys_close_def sys_munmap_def Let_def

lemma open_fds_emit [simp]: "open_fds (emit e tr) = fd_effect e (open_fds tr)"
  by (simp add: open_fds_def emit_def)

lemma live_maps_emit [simp]: "live_maps (emit e tr) = map_effect e (live_maps tr)"
  by (simp add: live_maps_def emit_def)

lemma maps_made_emit [simp]: "maps_made anon (emit e tr) = made_effect anon e (maps_made anon tr)"
  by (simp add: maps_made_def emit_def)

lemma offsets_state_emit [simp]: "offsets_state (emit e tr) = refused_effect e (offsets_state tr)"
  by (simp add: offsets_state_def emit_def)

text \<open>The history of a trace that the set-up lemmas carry along.\<close>

definition history :: "trace \<Rightarrow> (u64 \<times> usize) multiset \<times> (u64 \<times> usize) multiset \<times> bool \<times> int multiset" where
  "history tr = (maps_made True tr, maps_made False tr, offsets_state tr)"

lemma bindE_Inr:
  "bindE m f tr = (tr', Inr y) \<longleftrightarrow> (\<exists>tr1 x. m tr = (tr1, Inr x) \<and> f x tr1 = (tr', Inr y))"
  by (auto simp: bindE_def split: prod.splits sum.splits)

lemma bindE_Inl:
  "bindE m f tr = (tr', Inl e) \<longleftrightarrow>
     m tr = (tr', Inl e) \<or> (\<exists>tr1 x. m tr = (tr1, Inr x) \<and> f x tr1 = (tr', Inl e))"
  by (auto simp: bindE_def split: prod.splits sum.splits)

lemma inspect_err_Inr: "inspect_err m act tr = (tr', Inr y) \<longleftrightarrow> m tr = (tr', Inr y)"
  by (auto simp: inspect_err_def split: prod.splits sum.splits)

lemma inspect_err_Inl:
  "inspect_err m act tr = (tr', Inl e) \<longleftrightarrow> (\<exists>tr1. m tr = (tr1, Inl e) \<and> tr' = act tr1)"
  by (auto simp: inspect_err_def split: prod.splits sum.splits)

lemmas eio_splits = bindE_Inr bindE_Inl inspect_err_Inr inspect_err_Inl

end
