(* ===== verification/Umem.thy ===== *)
theory Umem
  imports Os_Model
begin

unbundle bit_operations_syntax

text \<open>
  The UMEM of \<^verbatim>\<open>src/xdp/umem.rs\<close>: the area shared with the kernel, its registration, the
  fill and completion rings, the partition of the frames into the RX set (handed to the
  fill ring) and the TX pool, and the \<^verbatim>\<open>Drop\<close>.  Error paths are values of \<open>xdp_error\<close>, one
  constructor per \<^verbatim>\<open>Err(format!(...))\<close> of the source, with the text of the last OS error.
  The lemmas show that the frames handed out are in bounds, aligned, pairwise disjoint and
  cover the area, and which mappings each error path leaves behind.
\<close>

section \<open>Constants\<close>

definition FRAME_SIZE :: u32 where "FRAME_SIZE = 4096"
definition FRAME_COUNT :: u32 where "FRAME_COUNT = 4096"
definition RING_SIZE :: u32 where "RING_SIZE = 2048"

definition SOL_XDP :: int where "SOL_XDP = 283"
definition XDP_RX_RING :: int where "XDP_RX_RING = 2"
definition XDP_TX_RING :: int where "XDP_TX_RING = 3"
definition XDP_UMEM_REG :: int where "XDP_UMEM_REG = 4"
definition XDP_UMEM_FILL_RING :: int where "XDP_UMEM_FILL_RING = 5"
definition XDP_UMEM_COMPLETION_RING :: int where "XDP_UMEM_COMPLETION_RING = 6"

definition XDP_PGOFF_RX_RING :: u64 where "XDP_PGOFF_RX_RING = 0"
definition XDP_PGOFF_TX_RING :: u64 where "XDP_PGOFF_TX_RING = 0x80000000"
definition XDP_UMEM_PGOFF_FILL_RING :: u64 where "XDP_UMEM_PGOFF_FILL_RING = 0x100000000"
definition XDP_UMEM_PGOFF_COMPLETION_RING :: u64 where
  "XDP_UMEM_PGOFF_COMPLETION_RING = 0x180000000"

definition XDP_COPY :: u16 where "XDP_COPY = push_bit 1 1"
definition XDP_ZEROCOPY :: u16 where "XDP_ZEROCOPY = push_bit 2 1"
definition XDP_USE_NEED_WAKEUP :: u16 where "XDP_USE_NEED_WAKEUP = push_bit 3 1"

named_theorems xdp_consts "the constants of umem.rs"

lemmas [xdp_consts] = FRAME_SIZE_def FRAME_COUNT_def RING_SIZE_def

datatype xdp_error =
    SocketFailed string
  | UmemMmap string
  | UmemReg string
  | RingOpt int string
  | MmapOffsets string
  | AddrRingMmap u64 string
  | DescRingMmap u64 string
  | BindFailed u32 u32 bool string

record Umem =
  area :: u64
  area_len :: usize
  fill :: AddrRing
  comp :: AddrRing

section \<open>Ring setup helpers\<close>

definition get_mmap_offsets :: "os \<Rightarrow> int \<Rightarrow> (xdp_error, XdpMmapOffsets) eio" where
  "get_mmap_offsets os fd = (\<lambda>tr.
     case os_get_offsets os tr fd of
       None \<Rightarrow> (let tr1 = emit (EvGetOffsets fd False) tr in (tr1, Inl (MmapOffsets (os_last_error os tr1))))
     | Some offs \<Rightarrow> (emit (EvGetOffsets fd True) tr, Inr offs))"

definition get_rx_tx_offsets :: "os \<Rightarrow> int \<Rightarrow> (xdp_error, XdpRingOffsets \<times> XdpRingOffsets) eio" where
  "get_rx_tx_offsets os fd = bindE (get_mmap_offsets os fd) (\<lambda>o'. retE (off_rx o', off_tx o'))"

definition ring_ptrs_at :: "u64 \<Rightarrow> usize \<Rightarrow> XdpRingOffsets \<Rightarrow> ring_ptrs" where
  "ring_ptrs_at m msz off =
     \<lparr>map_ptr = m, mapsize = msz, producer_ptr = m + off_producer off,
      consumer_ptr = m + off_consumer off, flags_ptr = m + off_flags off,
      descs_ptr = m + off_desc off\<rparr>"

definition mmap_addr_ring ::
  "os \<Rightarrow> int \<Rightarrow> u64 \<Rightarrow> XdpRingOffsets \<Rightarrow> u32 \<Rightarrow> (xdp_error, AddrRing) eio" where
  "mmap_addr_ring os fd pgoff off sz = (\<lambda>tr.
     let msz = off_desc off + ucast sz * 8 in
     case sys_mmap os msz fd pgoff tr of
       (tr1, None) \<Rightarrow> (tr1, Inl (AddrRingMmap pgoff (os_last_error os tr1)))
     | (tr1, Some m) \<Rightarrow>
         (case os_addr_cells os tr1 m off of (p, c, f, ds) \<Rightarrow>
           (tr1, Inr \<lparr>ptrs = ring_ptrs_at m msz off, producer = p, consumer = c, flags = f,
                       descs = ds, ring_size = sz, ring_mask = sz - 1\<rparr>)))"

definition mmap_desc_ring ::
  "os \<Rightarrow> int \<Rightarrow> u64 \<Rightarrow> XdpRingOffsets \<Rightarrow> u32 \<Rightarrow> (xdp_error, DescRing) eio" where
  "mmap_desc_ring os fd pgoff off sz = (\<lambda>tr.
     let msz = off_desc off + ucast sz * 16 in
     case sys_mmap os msz fd pgoff tr of
       (tr1, None) \<Rightarrow> (tr1, Inl (DescRingMmap pgoff (os_last_error os tr1)))
     | (tr1, Some m) \<Rightarrow>
         (case os_desc_cells os tr1 m off of (p, c, f, ds) \<Rightarrow>
           (tr1, Inr \<lparr>ptrs = ring_ptrs_at m msz off, producer = p, consumer = c, flags = f,
                       descs = ds, ring_size = sz, ring_mask = sz - 1\<rparr>)))"

section \<open>Construction and destruction\<close>

definition umem_area_len :: "usize \<Rightarrow> usize" where
  "umem_area_len page = (ucast (FRAME_COUNT * FRAME_SIZE) + page - 1) AND NOT (page - 1)"

text \<open>\<^verbatim>\<open>(i * FRAME_SIZE) as u64\<close>, the product at 32 bits.\<close>

definition frame_addr :: "nat \<Rightarrow> u64" where
  "frame_addr i = ucast ((of_nat i :: u32) * FRAME_SIZE)"

definition rx_addrs :: "u64 list" where
  "rx_addrs = map frame_addr [0..<unat RING_SIZE]"

definition tx_pool_addrs :: "u64 list" where
  "tx_pool_addrs = map frame_addr [unat RING_SIZE..<unat FRAME_COUNT]"

text \<open>The loop over \<^verbatim>\<open>[(opt, size)]\<close> pairs: each ring size is set, a failure runs \<open>undo\<close>.\<close>

fun set_ring_sizes :: "os \<Rightarrow> int \<Rightarrow> (trace \<Rightarrow> trace) \<Rightarrow> (int \<times> u32) list \<Rightarrow> (xdp_error, unit) eio" where
  "set_ring_sizes os fd undo [] = retE ()"
| "set_ring_sizes os fd undo ((opt, sz) # rest) = (\<lambda>tr.
     case sys_setsockopt os fd SOL_XDP opt (OptU32 sz) tr of (tr1, rc) \<Rightarrow>
       if rc \<noteq> 0 then (let tr2 = undo tr1 in (tr2, Inl (RingOpt opt (os_last_error os tr2))))
       else set_ring_sizes os fd undo rest tr1)"

definition map_area :: "os \<Rightarrow> usize \<Rightarrow> (xdp_error, u64) eio" where
  "map_area os n = (\<lambda>tr. case sys_mmap os n (-1) 0 tr of
       (tr1, None) \<Rightarrow> (tr1, Inl (UmemMmap (os_last_error os tr1)))
     | (tr1, Some a) \<Rightarrow> (tr1, Inr a))"

definition register_area :: "os \<Rightarrow> int \<Rightarrow> u64 \<Rightarrow> usize \<Rightarrow> (xdp_error, unit) eio" where
  "register_area os fd a n = (\<lambda>tr.
     let reg = \<lparr>reg_addr = a, reg_len = n, chunk_size = FRAME_SIZE, headroom = 0, reg_flags = 0,
                tx_metadata_len = 0\<rparr> in
     case sys_setsockopt os fd SOL_XDP XDP_UMEM_REG (OptReg reg) tr of (tr1, rc) \<Rightarrow>
       if rc \<noteq> 0 then (let tr2 = sys_munmap a n tr1 in (tr2, Inl (UmemReg (os_last_error os tr2))))
       else (tr1, Inr ()))"

definition umem_new :: "os \<Rightarrow> int \<Rightarrow> (xdp_error, Umem \<times> u64 list) eio" where
  "umem_new os fd =
     (let n = umem_area_len (os_pagesize os) in
      bindE (map_area os n) (\<lambda>a.
      bindE (register_area os fd a n) (\<lambda>_.
      bindE (set_ring_sizes os fd (sys_munmap a n)
               [(XDP_UMEM_FILL_RING, RING_SIZE), (XDP_UMEM_COMPLETION_RING, RING_SIZE)]) (\<lambda>_.
      bindE (get_mmap_offsets os fd) (\<lambda>offs.
      bindE (inspect_err (mmap_addr_ring os fd XDP_UMEM_PGOFF_FILL_RING (off_fr offs) RING_SIZE)
               (sys_munmap a n)) (\<lambda>fl.
      bindE (inspect_err (mmap_addr_ring os fd XDP_UMEM_PGOFF_COMPLETION_RING (off_cr offs) RING_SIZE)
               (sys_munmap a n)) (\<lambda>cm.
      retE (\<lparr>area = a, area_len = n, fill = fst (enqueue_batch fl rx_addrs), comp = cm\<rparr>,
            tx_pool_addrs))))))))"

definition umem_drop :: "Umem \<Rightarrow> trace \<Rightarrow> trace" where
  "umem_drop u = sys_munmap (area u) (area_len u)"

text \<open>\<^verbatim>\<open>ptr_at\<close> is an address; \<^verbatim>\<open>frame\<close> the bytes there, in a memory given by the caller.\<close>

definition ptr_at :: "Umem \<Rightarrow> u64 \<Rightarrow> u64" where
  "ptr_at u offset = area u + offset"

definition umem_frame :: "(u64 \<Rightarrow> u8) \<Rightarrow> Umem \<Rightarrow> u64 \<Rightarrow> nat \<Rightarrow> bytes" where
  "umem_frame mem u offset n = map (\<lambda>i. mem (ptr_at u offset + of_nat i)) [0..<n]"

section \<open>The frames\<close>

lemma unat_frame_addr:
  assumes "i < 4096"
  shows "unat (frame_addr i) = i * 4096"
proof -
  have "unat ((of_nat i :: u32) * 4096) = i * 4096"
    using assms by (simp add: unat_word_ariths unat_of_nat take_bit_nat_eq_self)
  with assms show ?thesis
    by (simp add: frame_addr_def FRAME_SIZE_def unsigned_ucast_eq take_bit_nat_eq_self)
qed

lemma frame_addr_inj: "inj_on frame_addr {0..<4096}"
  by (rule inj_onI) (metis atLeastLessThan_iff mult_right_cancel unat_frame_addr zero_neq_numeral)

lemma ring_size_le_count: "unat RING_SIZE \<le> unat FRAME_COUNT" "unat FRAME_COUNT = 4096"
    "unat RING_SIZE = 2048" "unat FRAME_SIZE = 4096"
  by (simp_all add: xdp_consts)

lemma length_rx_addrs [simp]: "length rx_addrs = 2048"
  by (simp add: rx_addrs_def ring_size_le_count)

lemma length_tx_pool_addrs [simp]: "length tx_pool_addrs = 2048"
  by (simp add: tx_pool_addrs_def ring_size_le_count)

lemma frames_eq: "rx_addrs @ tx_pool_addrs = map frame_addr [0..<unat FRAME_COUNT]"
proof -
  have "[0..<unat FRAME_COUNT] = [0..<unat RING_SIZE] @ [unat RING_SIZE..<unat FRAME_COUNT]"
    using upt_add_eq_append [of 0 "unat RING_SIZE" "unat FRAME_COUNT - unat RING_SIZE"]
      ring_size_le_count(1) by simp
  then show ?thesis by (simp only: rx_addrs_def tx_pool_addrs_def map_append)
qed

lemma distinct_frames: "distinct (rx_addrs @ tx_pool_addrs)"
  unfolding frames_eq distinct_map set_upt
  using frame_addr_inj by (simp only: ring_size_le_count(2)) simp

lemma in_frames_iff:
  "a \<in> set (rx_addrs @ tx_pool_addrs) \<longleftrightarrow> (\<exists>i<4096. a = frame_addr i \<and> unat a = i * 4096)"
  unfolding frames_eq set_map set_upt
  by (auto simp: ring_size_le_count(2) unat_frame_addr)

text \<open>Two different frames do not overlap.\<close>

lemma frames_disjoint:
  assumes "a \<in> set (rx_addrs @ tx_pool_addrs)" "b \<in> set (rx_addrs @ tx_pool_addrs)" "a \<noteq> b"
  shows "unat a + unat FRAME_SIZE \<le> unat b \<or> unat b + unat FRAME_SIZE \<le> unat a"
proof -
  from assms(1,2) obtain i j where ij: "unat a = i * 4096" "unat b = j * 4096"
    unfolding in_frames_iff by blast
  moreover from ij assms(3) have "i \<noteq> j" by (metis word_unat_eq_iff)
  ultimately show ?thesis by (auto simp: FRAME_SIZE_def neq_iff)
qed

text \<open>Rounding up to pages, for a page size that is a power of two.\<close>

lemma unat_clear_low:
  fixes w :: "'a::len word"
  shows "unat (w AND NOT (mask k)) = unat w - unat w mod 2 ^ k"
proof -
  have "w AND NOT (mask k) = push_bit k (drop_bit k w)"
    by (rule bit_word_eqI) (auto simp: bit_simps)
  also have "\<dots> = w - take_bit k w"
    using bits_ident [of k w] by (simp add: algebra_simps)
  finally have "unat (w AND NOT (mask k)) = unat w - unat (take_bit k w)"
    by (simp add: unat_sub word_le_nat_alt unsigned_take_bit_eq take_bit_nat_less_eq_self)
  moreover have "unat (take_bit k w) = unat w mod 2 ^ k"
    by (metis take_bit_eq_mod unsigned_take_bit_eq)
  ultimately show ?thesis by (simp only:)
qed

lemma umem_area_len_unat:
  assumes "k < 63" "page = 2 ^ k"
  shows "unat (umem_area_len page) = (16777215 + 2 ^ k) div 2 ^ k * 2 ^ k"
proof -
  have m: "page - 1 = mask k" by (simp add: assms mask_eq_exp_minus_1)
  have n: "ucast (FRAME_COUNT * FRAME_SIZE) + page - 1 = 16777215 + page"
    by (simp add: FRAME_COUNT_def FRAME_SIZE_def)
  have "(2::nat) ^ k \<le> 2 ^ 62" using assms(1) by (intro power_increasing) simp_all
  moreover have "unat page = 2 ^ k" using assms by (simp add: unat_two_pow)
  ultimately have u: "unat (16777215 + page) = 16777215 + 2 ^ k"
    by (subst unat_add_small) simp_all
  have "unat (umem_area_len page) = unat (16777215 + page) - unat (16777215 + page) mod 2 ^ k"
    unfolding umem_area_len_def n m by (rule unat_clear_low)
  then show ?thesis by (simp only: u minus_mod_eq_div_mult)
qed

text \<open>
  C18. The UMEM area holds every frame: whatever power of two the page size is, the area
  length is a multiple of the page size that is at least \<^verbatim>\<open>FRAME_COUNT * FRAME_SIZE\<close> and less
  than one page more; the offsets handed to the fill ring and to the TX pool are distinct,
  aligned to the frame size, and each whole frame lies inside the area.
\<close>

theorem umem_frames_in_area:
  assumes "k < 63" "page = 2 ^ k"
  shows "unat page dvd unat (umem_area_len page) \<and>
    16777216 \<le> unat (umem_area_len page) \<and>
    unat (umem_area_len page) < 16777216 + unat page \<and>
    distinct (rx_addrs @ tx_pool_addrs) \<and>
    (\<forall>a \<in> set (rx_addrs @ tx_pool_addrs).
      unat a mod unat FRAME_SIZE = 0 \<and> unat a + unat FRAME_SIZE \<le> unat (umem_area_len page))"
proof -
  let ?L = "unat (umem_area_len page)" and ?p = "(2::nat) ^ k"
  have p: "unat page = ?p" using assms by (simp add: unat_two_pow)
  have L: "?L = (16777215 + ?p) div ?p * ?p" by (rule umem_area_len_unat [OF assms])
  then have dvd: "unat page dvd ?L" by (simp add: p)
  have "?L + (16777215 + ?p) mod ?p = 16777215 + ?p" unfolding L by (rule div_mult_mod_eq)
  moreover have "(16777215 + ?p) mod ?p < ?p" by simp
  ultimately have bounds: "16777216 \<le> ?L" "?L < 16777216 + unat page"
    unfolding p by linarith+
  have "unat a mod unat FRAME_SIZE = 0 \<and> unat a + unat FRAME_SIZE \<le> ?L"
    if "a \<in> set (rx_addrs @ tx_pool_addrs)" for a
    using that bounds(1) unfolding in_frames_iff by (auto simp: FRAME_SIZE_def)
  with dvd bounds distinct_frames show ?thesis by blast
qed

theorem umem_frames_in_area_witness:
  "16777216 \<le> unat (umem_area_len 4096) \<and> unat (umem_area_len 4096) < 16777216 + unat (4096 :: usize) \<and>
   distinct (rx_addrs @ tx_pool_addrs)"
  using umem_frames_in_area [of 12 4096] by simp

section \<open>Resources on every path of the constructor\<close>

text \<open>Each helper, by outcome: what happens to the descriptors, the mappings and the history.\<close>

lemma map_area_Inr:
  "map_area os n tr = (tr', Inr a) \<Longrightarrow>
     open_fds tr' = open_fds tr \<and> live_maps tr' = add_mset (a, n) (live_maps tr) \<and>
     history tr' = (add_mset (a, n) (maps_made True tr), maps_made False tr, offsets_state tr)"
  by (auto simp: map_area_def io_simps history_def split: option.splits)

lemma map_area_Inl:
  "map_area os n tr = (tr', Inl e) \<Longrightarrow>
     open_fds tr' = open_fds tr \<and> live_maps tr' = live_maps tr \<and> history tr' = history tr \<and> (\<exists>s. e = UmemMmap s)"
  by (auto simp: map_area_def io_simps history_def split: option.splits)

lemma register_area_Inr:
  "register_area os fd a n tr = (tr', Inr u) \<Longrightarrow>
     open_fds tr' = open_fds tr \<and> live_maps tr' = live_maps tr \<and> history tr' = history tr"
  by (auto simp: register_area_def io_simps history_def split: if_splits)

lemma register_area_Inl:
  "register_area os fd a n tr = (tr', Inl e) \<Longrightarrow>
     open_fds tr' = open_fds tr \<and> live_maps tr' = live_maps tr - {#(a, n)#} \<and> history tr' = history tr \<and> (\<exists>s. e = UmemReg s)"
  by (auto simp: register_area_def io_simps history_def split: if_splits)

lemma set_ring_sizes_Inr:
  "set_ring_sizes os fd undo opts tr = (tr', Inr u) \<Longrightarrow>
     open_fds tr' = open_fds tr \<and> live_maps tr' = live_maps tr \<and> history tr' = history tr"
  by (induction opts arbitrary: tr) (auto simp: io_simps history_def split: if_splits)

lemma set_ring_sizes_Inl:
  "set_ring_sizes os fd undo opts tr = (tr', Inl e) \<Longrightarrow>
     \<exists>tr1. open_fds tr1 = open_fds tr \<and> live_maps tr1 = live_maps tr \<and> history tr1 = history tr \<and> tr' = undo tr1 \<and>
       (\<exists>opt s. e = RingOpt opt s)"
proof (induction opts arbitrary: tr)
  case (Cons a opts)
  obtain opt sz where a: "a = (opt, sz)" by (cases a)
  show ?case
  proof (cases "os_setsockopt os tr fd SOL_XDP opt (OptU32 sz) = 0")
    case True
    with Cons.prems a have "set_ring_sizes os fd undo opts
        (emit (EvSetsockopt fd SOL_XDP opt (OptU32 sz) 0) tr) = (tr', Inl e)"
      by (simp add: io_simps)
    from Cons.IH [OF this] show ?thesis by (simp add: history_def)
  next
    case False
    with Cons.prems a show ?thesis
      by (intro exI [of _ "emit (EvSetsockopt fd SOL_XDP opt (OptU32 sz)
            (os_setsockopt os tr fd SOL_XDP opt (OptU32 sz))) tr"]) (auto simp: io_simps history_def)
  qed
qed (simp add: retE_def)

lemma get_mmap_offsets_Inr:
  "get_mmap_offsets os fd tr = (tr', Inr offs) \<Longrightarrow>
     open_fds tr' = open_fds tr \<and> live_maps tr' = live_maps tr \<and>
     history tr' = (maps_made True tr, maps_made False tr, True, snd (offsets_state tr))"
  by (auto simp: get_mmap_offsets_def io_simps history_def split: option.splits)

lemma get_mmap_offsets_Inl:
  "get_mmap_offsets os fd tr = (tr', Inl e) \<Longrightarrow>
     open_fds tr' = open_fds tr \<and> live_maps tr' = live_maps tr \<and> (\<exists>s. e = MmapOffsets s) \<and>
     history tr' = (maps_made True tr, maps_made False tr, False,
       if fst (offsets_state tr) then add_mset fd (snd (offsets_state tr)) else snd (offsets_state tr))"
  by (auto simp: get_mmap_offsets_def io_simps history_def split: option.splits)

lemma mmap_addr_ring_Inr:
  "mmap_addr_ring os fd pgoff off sz tr = (tr', Inr ring) \<Longrightarrow>
     open_fds tr' = open_fds tr \<and>
     live_maps tr' = add_mset (map_ptr (ptrs ring), mapsize (ptrs ring)) (live_maps tr) \<and>
     (fd \<noteq> -1 \<longrightarrow> history tr' = (maps_made True tr,
        add_mset (map_ptr (ptrs ring), mapsize (ptrs ring)) (maps_made False tr), offsets_state tr))"
  by (auto simp: mmap_addr_ring_def ring_ptrs_at_def io_simps history_def split: option.splits prod.splits)

lemma mmap_addr_ring_Inl:
  "mmap_addr_ring os fd pgoff off sz tr = (tr', Inl e) \<Longrightarrow>
     open_fds tr' = open_fds tr \<and> live_maps tr' = live_maps tr \<and> history tr' = history tr \<and> (\<exists>s. e = AddrRingMmap pgoff s)"
  by (auto simp: mmap_addr_ring_def io_simps history_def split: option.splits prod.splits)

lemma mmap_desc_ring_Inr:
  "mmap_desc_ring os fd pgoff off sz tr = (tr', Inr ring) \<Longrightarrow>
     open_fds tr' = open_fds tr \<and>
     live_maps tr' = add_mset (map_ptr (ptrs ring), mapsize (ptrs ring)) (live_maps tr) \<and>
     (fd \<noteq> -1 \<longrightarrow> history tr' = (maps_made True tr,
        add_mset (map_ptr (ptrs ring), mapsize (ptrs ring)) (maps_made False tr), offsets_state tr))"
  by (auto simp: mmap_desc_ring_def ring_ptrs_at_def io_simps history_def split: option.splits prod.splits)

lemma mmap_desc_ring_Inl:
  "mmap_desc_ring os fd pgoff off sz tr = (tr', Inl e) \<Longrightarrow>
     open_fds tr' = open_fds tr \<and> live_maps tr' = live_maps tr \<and> history tr' = history tr \<and> (\<exists>s. e = DescRingMmap pgoff s)"
  by (auto simp: mmap_desc_ring_def io_simps history_def split: option.splits prod.splits)

lemmas umem_step_dests = map_area_Inr map_area_Inl register_area_Inr register_area_Inl
  set_ring_sizes_Inr set_ring_sizes_Inl get_mmap_offsets_Inr get_mmap_offsets_Inl
  mmap_addr_ring_Inr mmap_addr_ring_Inl mmap_desc_ring_Inr mmap_desc_ring_Inl

declare set_ring_sizes.simps [simp del]

text \<open>Undoing a mapping or closing a descriptor does not rewrite history.\<close>

lemma history_undo [simp]: "history (sys_munmap a n tr) = history tr" "history (sys_close fd tr) = history tr"
  by (simp_all add: history_def sys_munmap_def sys_close_def)

text \<open>What a failed construction leaves mapped, given the mappings \<open>A\<close> of the area and \<open>R\<close> of rings that it made.\<close>

definition umem_left :: "xdp_error \<Rightarrow> (u64 \<times> usize) multiset \<Rightarrow> (u64 \<times> usize) multiset \<Rightarrow> (u64 \<times> usize) multiset" where
  "umem_left e A R = (case e of MmapOffsets s \<Rightarrow> A + R | _ \<Rightarrow> R)"

definition umem_rings_made :: "xdp_error \<Rightarrow> nat" where
  "umem_rings_made e =
     (case e of AddrRingMmap pgoff s \<Rightarrow> if pgoff = XDP_UMEM_PGOFF_FILL_RING then 0 else 1 | _ \<Rightarrow> 0)"

lemma umem_new_Inl:
  assumes "umem_new os fd tr = (tr', Inl e)" "fd \<noteq> -1" "\<not> fst (offsets_state tr)"
  shows "open_fds tr' = open_fds tr \<and> snd (offsets_state tr') = snd (offsets_state tr) \<and>
    (\<exists>A R. maps_made True tr' = maps_made True tr + A \<and> maps_made False tr' = maps_made False tr + R \<and>
       live_maps tr' = live_maps tr + umem_left e A R \<and> size R = umem_rings_made e \<and>
       size A = (case e of UmemMmap s \<Rightarrow> 0 | _ \<Rightarrow> 1))"
  using assms unfolding umem_new_def Let_def eio_splits
  by (auto simp: umem_left_def umem_rings_made_def sys_munmap_def retE_def XDP_UMEM_PGOFF_FILL_RING_def history_def
        XDP_UMEM_PGOFF_COMPLETION_RING_def dest!: umem_step_dests)

lemma umem_new_Inr:
  assumes "umem_new os fd tr = (tr', Inr (u, pool))"
  shows "open_fds tr' = open_fds tr \<and> pool = tx_pool_addrs \<and>
    area_len u = umem_area_len (os_pagesize os) \<and>
    live_maps tr' = live_maps tr + {#(area u, area_len u),
      (map_ptr (ptrs (fill u)), mapsize (ptrs (fill u))),
      (map_ptr (ptrs (comp u)), mapsize (ptrs (comp u)))#} \<and>
    (fd \<noteq> -1 \<longrightarrow> history tr' = (add_mset (area u, area_len u) (maps_made True tr),
       maps_made False tr + {#(map_ptr (ptrs (fill u)), mapsize (ptrs (fill u))),
         (map_ptr (ptrs (comp u)), mapsize (ptrs (comp u)))#}, True, snd (offsets_state tr)))"
  using assms unfolding umem_new_def Let_def eio_splits
  by (auto simp: retE_def enqueue_batch_def Let_def history_def dest!: umem_step_dests)

text \<open>
  C20. What a failed \<^verbatim>\<open>Umem::new\<close> leaves behind.  Of the mappings it made (\<open>A\<close> of the area, at most one, and
  \<open>R\<close> of rings) the ring mappings stay (\<^verbatim>\<open>AddrRing\<close> has no \<^verbatim>\<open>Drop\<close>): the fill ring when the completion ring
  cannot be mapped, none otherwise.  The area is unmapped again on every path but one: when
  \<^verbatim>\<open>get_mmap_offsets\<close> fails it stays mapped, since that \<^verbatim>\<open>?\<close> has no \<^verbatim>\<open>munmap\<close>.  Descriptors are untouched.
\<close>

theorem umem_new_error_resources:
  assumes "umem_new os fd tr = (tr', Inl e)" "0 \<le> fd" "\<not> fst (offsets_state tr)"
  shows "open_fds tr' = open_fds tr \<and>
    (\<exists>A R. maps_made True tr' = maps_made True tr + A \<and> size A = (case e of UmemMmap s \<Rightarrow> 0 | _ \<Rightarrow> 1) \<and>
       maps_made False tr' = maps_made False tr + R \<and>
       size R = (case e of AddrRingMmap pgoff s \<Rightarrow> if pgoff = XDP_UMEM_PGOFF_FILL_RING then 0 else 1 | _ \<Rightarrow> 0) \<and>
       live_maps tr' = live_maps tr + R + (case e of MmapOffsets s \<Rightarrow> A | _ \<Rightarrow> {#}))"
proof -
  have "fd \<noteq> -1" using assms(2) by simp
  from umem_new_Inl [OF assms(1) this assms(3)] show ?thesis
    by (cases e) (auto simp: umem_left_def umem_rings_made_def)
qed

text \<open>A kernel whose answers are fixed: every call succeeds but those named.\<close>

definition zero_offsets :: XdpRingOffsets where
  "zero_offsets = \<lparr>off_producer = 0, off_consumer = 64, off_desc = 256, off_flags = 128\<rparr>"

definition demo_os :: "(trace \<Rightarrow> bool) \<Rightarrow> (usize \<Rightarrow> u64 \<Rightarrow> bool) \<Rightarrow> os" where
  "demo_os offsets_ok mmap_ok =
     \<lparr>os_pagesize = 4096,
      os_socket = (\<lambda>_ _ _. 3),
      os_setsockopt = (\<lambda>_ _ _ _ _. 0),
      os_get_offsets = (\<lambda>tr _. if offsets_ok tr
         then Some \<lparr>off_rx = zero_offsets, off_tx = zero_offsets, off_fr = zero_offsets,
                    off_cr = zero_offsets\<rparr> else None),
      os_mmap = (\<lambda>_ n _ pgoff. if mmap_ok n pgoff then Some (0x10000000 + pgoff) else None),
      os_bind = (\<lambda>_ _ _. 0),
      os_listen = (\<lambda>_ _ _. 0),
      os_last_error = (\<lambda>_. ''EINVAL''),
      os_addr_cells = (\<lambda>_ _ _. (0, 0, 0, replicate 2048 0)),
      os_desc_cells = (\<lambda>_ _ _. (0, 0, 0, replicate 2048 \<lparr>addr = 0, len = 0, options = 0\<rparr>))\<rparr>"

lemmas demo_simps = demo_os_def umem_new_def map_area_def register_area_def set_ring_sizes.simps
  get_mmap_offsets_def mmap_addr_ring_def io_simps

theorem umem_new_error_resources_witness:
  "\<exists>a tr'. umem_new (demo_os (\<lambda>_. False) (\<lambda>_ _. True)) 3 [] = (tr', Inl (MmapOffsets ''EINVAL'')) \<and>
     live_maps tr' = {#a#} \<and> maps_made True tr' = {#a#} \<and> open_fds tr' = {#}"
proof -
  obtain tr' where run: "umem_new (demo_os (\<lambda>_. False) (\<lambda>_ _. True)) 3 [] = (tr', Inl (MmapOffsets ''EINVAL''))"
    by (simp add: demo_simps)
  from umem_new_error_resources [OF run] obtain A where "open_fds tr' = {#}" "maps_made True tr' = A" "size A = 1"
    "live_maps tr' = A"
    by (auto simp: open_fds_def live_maps_def maps_made_def offsets_state_def)
  moreover from this(3) obtain a where "A = {#a#}" by (metis size_1_singleton_mset)
  ultimately show ?thesis using run by auto
qed

section \<open>The rings of a new UMEM\<close>

text \<open>The kernel hands out a ring of the requested size, empty (its documented behaviour).\<close>

definition fresh_addr_rings :: "os \<Rightarrow> bool" where
  "fresh_addr_rings os \<longleftrightarrow>
     (\<forall>tr m off. \<exists>f ds. os_addr_cells os tr m off = (0, 0, f, ds) \<and> length ds = unat RING_SIZE)"

definition fresh_desc_rings :: "os \<Rightarrow> bool" where
  "fresh_desc_rings os \<longleftrightarrow>
     (\<forall>tr m off. \<exists>f ds. os_desc_cells os tr m off = (0, 0, f, ds) \<and> length ds = unat RING_SIZE)"

lemma fresh_ring_wf:
  assumes "producer r = 0" "consumer r = 0" "length (descs r) = unat RING_SIZE"
    "ring_size r = RING_SIZE" "ring_mask r = RING_SIZE - 1"
  shows "ring_wf r \<and> ring_list r = [] \<and> ring_cap r = 2048"
proof -
  have "\<exists>k<32. unat RING_SIZE = (2::nat) ^ k"
    by (rule exI [of _ 11]) (simp add: RING_SIZE_def)
  with assms show ?thesis
    by (simp add: ring_wf_def ring_list_nil_iff ring_cap_def RING_SIZE_def)
qed

lemma mmap_addr_ring_fresh:
  assumes "fresh_addr_rings os" "mmap_addr_ring os fd pgoff off RING_SIZE tr = (tr', Inr r)"
  shows "ring_wf r \<and> ring_list r = [] \<and> ring_cap r = 2048"
proof (rule fresh_ring_wf)
  note facts = assms [unfolded mmap_addr_ring_def io_simps fresh_addr_rings_def]
  show "producer r = 0" "consumer r = 0" "length (descs r) = unat RING_SIZE"
    "ring_size r = RING_SIZE" "ring_mask r = RING_SIZE - 1"
    using facts by (auto split: option.splits prod.splits) (metis prod.inject)+
qed

lemma mmap_desc_ring_fresh:
  assumes "fresh_desc_rings os" "mmap_desc_ring os fd pgoff off RING_SIZE tr = (tr', Inr r)"
  shows "ring_wf r \<and> ring_list r = [] \<and> ring_cap r = 2048"
proof (rule fresh_ring_wf)
  note facts = assms [unfolded mmap_desc_ring_def io_simps fresh_desc_rings_def]
  show "producer r = 0" "consumer r = 0" "length (descs r) = unat RING_SIZE"
    "ring_size r = RING_SIZE" "ring_mask r = RING_SIZE - 1"
    using facts by (auto split: option.splits prod.splits) (metis prod.inject)+
qed

lemma umem_new_rings:
  assumes "fresh_addr_rings os" "umem_new os fd tr = (tr', Inr (u, pool))"
  shows "ring_wf (fill u) \<and> ring_list (fill u) = rx_addrs \<and> ring_cap (fill u) = 2048 \<and>
    ring_wf (comp u) \<and> ring_list (comp u) = [] \<and> ring_cap (comp u) = 2048 \<and> pool = tx_pool_addrs"
  using assms(2) mmap_addr_ring_fresh [OF assms(1)] unfolding umem_new_def Let_def eio_splits
  by (fastforce simp: retE_def addr_ring.enq_wf addr_ring.enq_all addr_ring.enq_capacity)

end
