(* ===== verification/Simd.thy ===== *)
theory Simd
  imports Rust_Prelude
begin

text \<open>
  The SIMD memory copy of \<^verbatim>\<open>src/simd.rs\<close>: detection of the CPU's tier, its cache, the SSE2
  and AVX2 copy loops and their dispatch.  Memory is a function from addresses to bytes; a
  vector move reads its whole source before it writes its destination, as the instruction
  pair does.  Every copy routine is shown equal, as a memory transformer, to the reference
  copy \<open>store_bytes m d (load_bytes m s n)\<close> for disjoint regions: the destination receives
  the source and no other byte changes.
\<close>

section \<open>SIMD tiers\<close>

datatype SimdLevel = Scalar | Sse2 | Sse42 | Avx2 | Avx512

fun level_rank :: "SimdLevel \<Rightarrow> nat" where
  "level_rank Scalar = 0"
| "level_rank Sse2 = 1"
| "level_rank Sse42 = 2"
| "level_rank Avx2 = 3"
| "level_rank Avx512 = 4"

instantiation SimdLevel :: linorder
begin

definition less_eq_SimdLevel :: "SimdLevel \<Rightarrow> SimdLevel \<Rightarrow> bool" where
  "less_eq_SimdLevel a b \<longleftrightarrow> level_rank a \<le> level_rank b"

definition less_SimdLevel :: "SimdLevel \<Rightarrow> SimdLevel \<Rightarrow> bool" where
  "less_SimdLevel a b \<longleftrightarrow> level_rank a < level_rank b"

instance
proof
  fix a b :: SimdLevel
  assume "a \<le> b" "b \<le> a"
  then show "a = b" by (cases a; cases b) (simp_all add: less_eq_SimdLevel_def)
qed (auto simp: less_eq_SimdLevel_def less_SimdLevel_def)

end

fun as_str :: "SimdLevel \<Rightarrow> string" where
  "as_str Scalar = ''Scalar''"
| "as_str Sse2 = ''SSE2''"
| "as_str Sse42 = ''SSE4.2''"
| "as_str Avx2 = ''AVX2''"
| "as_str Avx512 = ''AVX-512''"

text \<open>The target architecture and what \<^verbatim>\<open>is_x86_feature_detected!\<close> answers.\<close>

record cpu_features =
  x86_64 :: bool
  avx512f :: bool
  avx2 :: bool
  sse4_2 :: bool

definition detect :: "cpu_features \<Rightarrow> SimdLevel" where
  "detect c =
     (if x86_64 c then
        (if avx512f c then Avx512
         else if avx2 c then Avx2
         else if sse4_2 c then Sse42
         else Sse2)
      else Scalar)"

text \<open>\<^verbatim>\<open>OnceLock::get_or_init\<close>: the cell keeps the first detection.\<close>

definition simd_level :: "cpu_features \<Rightarrow> SimdLevel option \<Rightarrow> SimdLevel option \<times> SimdLevel" where
  "simd_level c cell = (case cell of Some l \<Rightarrow> (Some l, l) | None \<Rightarrow> (Some (detect c), detect c))"

section \<open>Memory\<close>

type_synonym mem = "nat \<Rightarrow> u8"

definition load_bytes :: "mem \<Rightarrow> nat \<Rightarrow> nat \<Rightarrow> bytes" where
  "load_bytes m a n = map (\<lambda>i. m (a + i)) [0..<n]"

definition store_bytes :: "mem \<Rightarrow> nat \<Rightarrow> bytes \<Rightarrow> mem" where
  "store_bytes m a bs = (\<lambda>x. if a \<le> x \<and> x < a + length bs then bs ! (x - a) else m x)"

text \<open>\<^verbatim>\<open>movdqu v, [s]; movdqu [d], v\<close> of \<open>w\<close> bytes.\<close>

definition vector_move :: "nat \<Rightarrow> mem \<Rightarrow> nat \<Rightarrow> nat \<Rightarrow> mem" where
  "vector_move w m d s = store_bytes m d (load_bytes m s w)"

definition scalar_tail :: "mem \<Rightarrow> nat \<Rightarrow> nat \<Rightarrow> nat \<Rightarrow> mem" where
  "scalar_tail m d s n = fold (\<lambda>i m. m(d + i := m (s + i))) [0..<n] m"

function memcpy_sse2 :: "mem \<Rightarrow> nat \<Rightarrow> nat \<Rightarrow> nat \<Rightarrow> mem" where
  "memcpy_sse2 m d s n =
     (if n \<ge> 16 then memcpy_sse2 (vector_move 16 m d s) (d + 16) (s + 16) (n - 16)
      else scalar_tail m d s n)"
  by pat_completeness auto
termination
  by (relation "measure (\<lambda>(m, d, s, n). n)") auto

function memcpy_avx2 :: "mem \<Rightarrow> nat \<Rightarrow> nat \<Rightarrow> nat \<Rightarrow> mem" where
  "memcpy_avx2 m d s n =
     (if n \<ge> 32 then memcpy_avx2 (vector_move 32 m d s) (d + 32) (s + 32) (n - 32)
      else if n \<ge> 16 then scalar_tail (vector_move 16 m d s) (d + 16) (s + 16) (n - 16)
      else scalar_tail m d s n)"
  by pat_completeness auto
termination
  by (relation "measure (\<lambda>(m, d, s, n). n)") auto

declare memcpy_sse2.simps [simp del] memcpy_avx2.simps [simp del]

text \<open>Slices are (address, length) pairs.\<close>

definition memcpy_dispatch ::
  "cpu_features \<Rightarrow> SimdLevel \<Rightarrow> mem \<Rightarrow> nat \<times> nat \<Rightarrow> nat \<times> nat \<Rightarrow> mem may_panic" where
  "memcpy_dispatch c level m dst src =
     (case (dst, src) of ((d, dlen), (s, n)) \<Rightarrow>
        if x86_64 c then
          (case level of
             Avx2 \<Rightarrow> Inr (memcpy_avx2 m d s n)
           | Avx512 \<Rightarrow> Inr (memcpy_avx2 m d s n)
           | _ \<Rightarrow> Inr (memcpy_sse2 m d s n))
        else if dlen < n then Inl IndexOutOfBounds
        else Inr (store_bytes m d (load_bytes m s n)))"

section \<open>The contract of a copy\<close>

definition disjoint_regions :: "nat \<Rightarrow> nat \<Rightarrow> nat \<Rightarrow> bool" where
  "disjoint_regions d s n \<longleftrightarrow> d + n \<le> s \<or> s + n \<le> d"

lemma length_load_bytes [simp]: "length (load_bytes m a n) = n"
  by (simp add: load_bytes_def)

lemma nth_load_bytes [simp]: "i < n \<Longrightarrow> load_bytes m a n ! i = m (a + i)"
  by (simp add: load_bytes_def)

lemma store_bytes_other: "x < a \<or> a + length bs \<le> x \<Longrightarrow> store_bytes m a bs x = m x"
  by (auto simp: store_bytes_def)

lemma store_bytes_at: "i < length bs \<Longrightarrow> store_bytes m a bs (a + i) = bs ! i"
  by (simp add: store_bytes_def)

lemma load_store_same: "load_bytes (store_bytes m a bs) a (length bs) = bs"
  by (rule nth_equalityI) (simp_all add: store_bytes_at)

lemma load_store_disjoint:
  "a + length bs \<le> b \<or> b + n \<le> a \<Longrightarrow> load_bytes (store_bytes m a bs) b n = load_bytes m b n"
  by (rule nth_equalityI) (auto simp: store_bytes_other)

lemma load_bytes_append: "load_bytes m a (k + n) = load_bytes m a k @ load_bytes m (a + k) n"
  by (rule nth_equalityI) (auto simp: nth_append add.assoc)

lemma store_bytes_append:
  "store_bytes m a (xs @ ys) = store_bytes (store_bytes m a xs) (a + length xs) ys"
  by (rule ext) (auto simp: store_bytes_def nth_append)

locale copy_routine =
  fixes copy :: "mem \<Rightarrow> nat \<Rightarrow> nat \<Rightarrow> nat \<Rightarrow> mem"
  assumes copy_disjoint: "disjoint_regions d s n \<Longrightarrow> copy m d s n = store_bytes m d (load_bytes m s n)"
begin

lemma copied: "disjoint_regions d s n \<Longrightarrow> load_bytes (copy m d s n) d n = load_bytes m s n"
  using load_store_same [of m d "load_bytes m s n"] by (simp add: copy_disjoint)

lemma untouched: "disjoint_regions d s n \<Longrightarrow> x < d \<or> d + n \<le> x \<Longrightarrow> copy m d s n x = m x"
  by (simp add: copy_disjoint store_bytes_other)

lemma source_kept: "disjoint_regions d s n \<Longrightarrow> load_bytes (copy m d s n) s n = load_bytes m s n"
  by (simp add: copy_disjoint load_store_disjoint disjoint_regions_def)

end

lemma scalar_tail_copies:
  assumes "disjoint_regions d s n"
  shows "scalar_tail m d s n = store_bytes m d (load_bytes m s n)"
proof -
  have "k \<le> n \<Longrightarrow> scalar_tail m d s k = store_bytes m d (load_bytes m s k)" for k
  proof (induction k)
    case 0
    show ?case by (auto simp: scalar_tail_def store_bytes_def fun_eq_iff)
  next
    case (Suc k)
    have step: "scalar_tail m d s (Suc k) = (scalar_tail m d s k)(d + k := scalar_tail m d s k (s + k))"
      by (simp add: scalar_tail_def)
    have src: "store_bytes m d (load_bytes m s k) (s + k) = m (s + k)"
      using assms Suc.prems by (intro store_bytes_other) (auto simp: disjoint_regions_def)
    show ?case
      using Suc src load_bytes_append [of m s k 1]
      by (simp add: step store_bytes_append) (auto simp: store_bytes_def fun_eq_iff)
  qed
  then show ?thesis by simp
qed

text \<open>One vector step and a correct copy of the rest is a correct copy.\<close>

lemma vector_step_copies:
  assumes "disjoint_regions d s n" "w \<le> n"
  shows "store_bytes (vector_move w m d s) (d + w) (load_bytes (vector_move w m d s) (s + w) (n - w))
       = store_bytes m d (load_bytes m s n)"
proof -
  have "load_bytes (vector_move w m d s) (s + w) (n - w) = load_bytes m (s + w) (n - w)"
    using assms unfolding vector_move_def
    by (intro load_store_disjoint) (auto simp: disjoint_regions_def)
  moreover have "load_bytes m s n = load_bytes m s w @ load_bytes m (s + w) (n - w)"
    using load_bytes_append [of m s w "n - w"] assms(2) by simp
  ultimately show ?thesis by (simp add: store_bytes_append vector_move_def)
qed

lemma disjoint_regions_rest:
  "disjoint_regions d s n \<Longrightarrow> w \<le> n \<Longrightarrow> disjoint_regions (d + w) (s + w) (n - w)"
  by (auto simp: disjoint_regions_def)

lemma memcpy_sse2_copies:
  "disjoint_regions d s n \<Longrightarrow> memcpy_sse2 m d s n = store_bytes m d (load_bytes m s n)"
proof (induction m d s n rule: memcpy_sse2.induct)
  case (1 m d s n)
  show ?case
  proof (cases "n \<ge> 16")
    case True
    with 1 show ?thesis
      by (subst memcpy_sse2.simps) (simp add: disjoint_regions_rest vector_step_copies)
  next
    case False
    with "1.prems" show ?thesis
      by (subst memcpy_sse2.simps) (simp add: scalar_tail_copies)
  qed
qed

lemma memcpy_avx2_copies:
  "disjoint_regions d s n \<Longrightarrow> memcpy_avx2 m d s n = store_bytes m d (load_bytes m s n)"
proof (induction m d s n rule: memcpy_avx2.induct)
  case (1 m d s n)
  consider "n \<ge> 32" | "n < 32" "n \<ge> 16" | "n < 16" by linarith
  then show ?case
  proof cases
    case 1
    with "1.IH" "1.prems" show ?thesis
      by (subst memcpy_avx2.simps) (simp add: disjoint_regions_rest vector_step_copies)
  next
    case 2
    with "1.prems" show ?thesis
      by (subst memcpy_avx2.simps)
        (simp add: scalar_tail_copies disjoint_regions_rest vector_step_copies)
  next
    case 3
    with "1.prems" show ?thesis
      by (subst memcpy_avx2.simps) (simp add: scalar_tail_copies)
  qed
qed

interpretation sse2: copy_routine memcpy_sse2
  by unfold_locales (rule memcpy_sse2_copies)

interpretation avx2: copy_routine memcpy_avx2
  by unfold_locales (rule memcpy_avx2_copies)

interpretation tail: copy_routine scalar_tail
  by unfold_locales (rule scalar_tail_copies)

text \<open>
  C14. \<^verbatim>\<open>memcpy_dispatch\<close> is a copy on every CPU and at every detected tier: for disjoint slices
  with room in the destination it never panics, the destination's first \<^verbatim>\<open>src.len()\<close> bytes
  become the source, and the whole memory is otherwise unchanged, so neither the vector
  loops nor their tails overrun.
\<close>

theorem memcpy_dispatch_copies:
  assumes "disjoint_regions d s n" "n \<le> dlen"
  shows "memcpy_dispatch c (snd (simd_level c cell)) m (d, dlen) (s, n)
       = Inr (store_bytes m d (load_bytes m s n))"
  using assms
  by (simp add: memcpy_dispatch_def memcpy_sse2_copies memcpy_avx2_copies split: SimdLevel.split)

theorem memcpy_dispatch_copies_witness:
  "memcpy_dispatch \<lparr>x86_64 = True, avx512f = False, avx2 = True, sse4_2 = True\<rparr> Avx2 of_nat (100, 57) (0, 53)
     = Inr (store_bytes of_nat 100 (load_bytes of_nat 0 53))"
  using memcpy_dispatch_copies [of 100 0 53 57
      "\<lparr>x86_64 = True, avx512f = False, avx2 = True, sse4_2 = True\<rparr>" None of_nat]
  by (simp add: disjoint_regions_def simd_level_def detect_def)

text \<open>
  The AVX2 loop runs only where the CPU reports AVX2.  The tier is detected once and
  cached, whatever the cell held before it is what later calls return; a cell filled by
  detection selects the AVX2 routine only on an x86-64 CPU with AVX2, given that AVX-512F
  implies AVX2, as Intel and AMD document it.
\<close>

lemma avx2_only_when_supported:
  assumes "avx512f c \<Longrightarrow> avx2 c"
    and "simd_level c None = (cell, l)"
  shows "simd_level c' cell = (cell, l) \<and> (l \<in> {Avx2, Avx512} \<longrightarrow> x86_64 c \<and> avx2 c) \<and>
    (x86_64 c \<longrightarrow> Sse2 \<le> l)"
  using assms
  by (auto simp: simd_level_def detect_def less_eq_SimdLevel_def split: if_splits)

section \<open>The copy on slices as lists\<close>

text \<open>A destination slice and a source slice live in memory next to each other (a mutable
  borrow excludes overlap); the result is what the destination holds afterwards.\<close>

definition slices_mem :: "bytes \<Rightarrow> bytes \<Rightarrow> mem" where
  "slices_mem dst src = store_bytes (store_bytes (\<lambda>_. 0) 0 dst) (length dst) src"

definition memcpy_slices :: "cpu_features \<Rightarrow> bytes \<Rightarrow> bytes \<Rightarrow> bytes may_panic" where
  "memcpy_slices c dst src =
     (case memcpy_dispatch c (detect c) (slices_mem dst src) (0, length dst) (length dst, length src) of
        Inl p \<Rightarrow> Inl p
      | Inr m \<Rightarrow> Inr (load_bytes m 0 (length dst)))"

lemma memcpy_slices_eq:
  assumes "length src \<le> length dst"
  shows "memcpy_slices c dst src = Inr (write_at 0 src dst)"
proof -
  let ?m = "slices_mem dst src"
  have "disjoint_regions 0 (length dst) (length src)"
    using assms by (simp add: disjoint_regions_def)
  then have run: "memcpy_dispatch c (detect c) ?m (0, length dst) (length dst, length src)
      = Inr (store_bytes ?m 0 (load_bytes ?m (length dst) (length src)))"
    using assms by (simp add: memcpy_dispatch_def memcpy_sse2_copies memcpy_avx2_copies
        split: SimdLevel.split)
  have src: "load_bytes ?m (length dst) (length src) = src"
    unfolding slices_mem_def by (rule load_store_same)
  have "load_bytes (store_bytes ?m 0 src) 0 (length dst) = write_at 0 src dst"
    using assms by (intro nth_equalityI)
      (auto simp: nth_write_at store_bytes_def slices_mem_def)
  with run src show ?thesis by (simp add: memcpy_slices_def)
qed

end
