(* ===== verification/Xsk_Socket.thy ===== *)
theory Xsk_Socket
  imports Umem Simd
begin

unbundle bit_operations_syntax

text \<open>
  The AF_XDP socket of \<^verbatim>\<open>src/xdp/socket.rs\<close>: its creation step by step (socket, UMEM, ring
  sizes, offsets, RX and TX rings, bind), with the \<^verbatim>\<open>Drop\<close> of the local \<^verbatim>\<open>Umem\<close> on every
  early return after it was built, the \<^verbatim>\<open>Drop\<close> of the socket itself, and \<^verbatim>\<open>extract_tx\<close>.
  The lemmas give the rings a successful call hands out and the descriptors and mappings
  a failed one leaves.
\<close>

definition AF_XDP :: int where "AF_XDP = 44"
definition SOCK_RAW :: int where "SOCK_RAW = 3"

record XskSocket =
  xsk_fd :: int
  xsk_umem :: Umem
  xsk_rx :: DescRing
  xsk_tx :: DescRing
  xsk_tx_pool :: "u64 list"

text \<open>The packet that a descriptor stands for, in a memory given by offset into the UMEM.\<close>

definition read_desc :: "mem \<Rightarrow> XdpDesc \<Rightarrow> bytes" where
  "read_desc m d = load_bytes m (unat (addr d)) (unat (len d))"

lemma length_read_desc [simp]: "length (read_desc m d) = unat (len d)"
  by (simp add: read_desc_def)

lemma load_bytes_take: "n \<le> k \<Longrightarrow> load_bytes m a n = take n (load_bytes m a k)"
  by (intro nth_equalityI) simp_all

definition extract_tx :: "XskSocket \<Rightarrow> XskSocket \<times> DescRing \<times> AddrRing \<times> u64 list" where
  "extract_tx s =
     (s\<lparr>xsk_tx := desc_zeroed, xsk_umem := (xsk_umem s)\<lparr>comp := addr_zeroed\<rparr>, xsk_tx_pool := []\<rparr>,
      xsk_tx s, comp (xsk_umem s), xsk_tx_pool s)"

text \<open>Dropping the socket closes the descriptor, then drops its fields.\<close>

definition xsk_drop :: "XskSocket \<Rightarrow> trace \<Rightarrow> trace" where
  "xsk_drop s tr = umem_drop (xsk_umem s) (sys_close (xsk_fd s) tr)"

definition bind_flags :: "bool \<Rightarrow> u16" where
  "bind_flags use_zerocopy = XDP_USE_NEED_WAKEUP OR (if use_zerocopy then XDP_ZEROCOPY else XDP_COPY)"

definition bind_xsk :: "os \<Rightarrow> int \<Rightarrow> u32 \<Rightarrow> u32 \<Rightarrow> bool \<Rightarrow> (xdp_error, unit) eio" where
  "bind_xsk os fd ifindex queue_id zc = (\<lambda>tr.
     let sa = \<lparr>sxdp_family = of_int AF_XDP, sxdp_flags = bind_flags zc, sxdp_ifindex = ifindex,
               sxdp_queue_id = queue_id, sxdp_shared_umem_fd = 0\<rparr> in
     case sys_bind os fd (SaXdp sa) tr of (tr1, rc) \<Rightarrow>
       if rc \<noteq> 0 then (let tr2 = sys_close fd tr1
                       in (tr2, Inl (BindFailed ifindex queue_id zc (os_last_error os tr2))))
       else (tr1, Inr ()))"

text \<open>Everything after \<^verbatim>\<open>Umem::new\<close>: an error return out of here drops \<open>u\<close>.\<close>

definition xsk_finish :: "os \<Rightarrow> int \<Rightarrow> Umem \<Rightarrow> u64 list \<Rightarrow> u32 \<Rightarrow> u32 \<Rightarrow> bool \<Rightarrow> (xdp_error, XskSocket) eio" where
  "xsk_finish os fd u pool ifindex queue_id zc =
     inspect_err
      (bindE (set_ring_sizes os fd (sys_close fd) [(XDP_RX_RING, RING_SIZE), (XDP_TX_RING, RING_SIZE)]) (\<lambda>_.
       bindE (get_rx_tx_offsets os fd) (\<lambda>(rx_off, tx_off).
       bindE (inspect_err (mmap_desc_ring os fd XDP_PGOFF_RX_RING rx_off RING_SIZE) (sys_close fd)) (\<lambda>rxr.
       bindE (inspect_err (mmap_desc_ring os fd XDP_PGOFF_TX_RING tx_off RING_SIZE) (sys_close fd)) (\<lambda>txr.
       bindE (bind_xsk os fd ifindex queue_id zc) (\<lambda>_.
       retE \<lparr>xsk_fd = fd, xsk_umem = u, xsk_rx = rxr, xsk_tx = txr, xsk_tx_pool = pool\<rparr>))))))
      (umem_drop u)"

definition create_xsk_socket :: "os \<Rightarrow> u32 \<Rightarrow> u32 \<Rightarrow> bool \<Rightarrow> (xdp_error, XskSocket) eio" where
  "create_xsk_socket os ifindex queue_id zc = (\<lambda>tr.
     case sys_socket os AF_XDP SOCK_RAW tr of (tr1, fd) \<Rightarrow>
       if fd < 0 then (tr1, Inl (SocketFailed (os_last_error os tr1)))
       else bindE (inspect_err (umem_new os fd) (sys_close fd)) (\<lambda>(u, pool).
              xsk_finish os fd u pool ifindex queue_id zc) tr1)"

section \<open>Resources\<close>

lemma get_rx_tx_offsets_Inr:
  "get_rx_tx_offsets os fd tr = (tr', Inr offs) \<Longrightarrow>
     open_fds tr' = open_fds tr \<and> live_maps tr' = live_maps tr \<and>
     history tr' = (maps_made True tr, maps_made False tr, True, snd (offsets_state tr))"
  by (auto simp: get_rx_tx_offsets_def eio_splits retE_def dest: get_mmap_offsets_Inr)

lemma get_rx_tx_offsets_Inl:
  "get_rx_tx_offsets os fd tr = (tr', Inl e) \<Longrightarrow>
     open_fds tr' = open_fds tr \<and> live_maps tr' = live_maps tr \<and> (\<exists>s. e = MmapOffsets s) \<and>
     history tr' = (maps_made True tr, maps_made False tr, False,
       if fst (offsets_state tr) then add_mset fd (snd (offsets_state tr)) else snd (offsets_state tr))"
  by (auto simp: get_rx_tx_offsets_def eio_splits retE_def dest: get_mmap_offsets_Inl)

lemma bind_xsk_Inr:
  "bind_xsk os fd ifx q zc tr = (tr', Inr u) \<Longrightarrow>
     open_fds tr' = open_fds tr \<and> live_maps tr' = live_maps tr \<and> history tr' = history tr"
  by (auto simp: bind_xsk_def io_simps history_def split: if_splits)

lemma bind_xsk_Inl:
  "bind_xsk os fd ifx q zc tr = (tr', Inl e) \<Longrightarrow>
     open_fds tr' = open_fds tr - {#fd#} \<and> live_maps tr' = live_maps tr \<and> history tr' = history tr \<and>
     (\<exists>s. e = BindFailed ifx q zc s)"
  by (auto simp: bind_xsk_def io_simps history_def split: if_splits)

lemmas xsk_step_dests = umem_step_dests get_rx_tx_offsets_Inr get_rx_tx_offsets_Inl
  bind_xsk_Inr bind_xsk_Inl

text \<open>A failure after \<^verbatim>\<open>Umem::new\<close>: the UMEM is dropped, the ring mappings \<open>R\<close> made since then stay, and the descriptor is
  closed unless the second request for the offsets was refused.\<close>

lemma xsk_finish_Inl:
  assumes "xsk_finish os fd u pool ifx q zc tr = (tr', Inl e)" "fd \<noteq> -1" "fst (offsets_state tr)"
  shows "\<exists>R. maps_made True tr' = maps_made True tr \<and> maps_made False tr' = maps_made False tr + R \<and> size R \<le> 2 \<and>
    live_maps tr' = live_maps tr + R - {#(area u, area_len u)#} \<and>
    (if \<exists>s. e = MmapOffsets s
     then open_fds tr' = open_fds tr \<and> snd (offsets_state tr') = add_mset fd (snd (offsets_state tr))
     else open_fds tr' = open_fds tr - {#fd#} \<and> snd (offsets_state tr') = snd (offsets_state tr))"
  using assms unfolding xsk_finish_def eio_splits
  by (auto simp: eio_splits umem_drop_def sys_munmap_def sys_close_def retE_def history_def add_mset_commute dest!: xsk_step_dests)

lemma xsk_finish_Inr:
  assumes "xsk_finish os fd u pool ifx q zc tr = (tr', Inr s)"
  shows "open_fds tr' = open_fds tr \<and> xsk_fd s = fd \<and> xsk_umem s = u \<and> xsk_tx_pool s = pool \<and>
    live_maps tr' = live_maps tr + {#(map_ptr (ptrs (xsk_rx s)), mapsize (ptrs (xsk_rx s))),
      (map_ptr (ptrs (xsk_tx s)), mapsize (ptrs (xsk_tx s)))#} \<and>
    (fd \<noteq> -1 \<longrightarrow> snd (offsets_state tr') = snd (offsets_state tr))"
  using assms unfolding xsk_finish_def eio_splits
  by (auto simp: eio_splits retE_def history_def dest!: xsk_step_dests)

lemma create_xsk_socket_Inl:
  assumes "create_xsk_socket os ifindex q zc tr = (tr', Inl e)"
  shows "\<exists>L A R. refused_second tr' = refused_second tr + L \<and> size L \<le> 1 \<and> open_fds tr' = open_fds tr + L \<and>
    maps_made True tr' = maps_made True tr + A \<and> size A \<le> 1 \<and>
    maps_made False tr' = maps_made False tr + R \<and> size R \<le> 4 \<and>
    live_maps tr' = live_maps tr + R + (if (\<exists>s. e = MmapOffsets s) \<and> L = {#} then A else {#})"
proof -
  obtain tr1 fd where sock: "sys_socket os AF_XDP SOCK_RAW tr = (tr1, fd)" by fastforce
  then have h: "live_maps tr1 = live_maps tr" "maps_made True tr1 = maps_made True tr" "maps_made False tr1 = maps_made False tr"
    "offsets_state tr1 = (False, snd (offsets_state tr))"
    by (auto simp: sys_socket_def Let_def)
  show ?thesis
  proof (cases "fd < 0")
    case True
    with assms sock h show ?thesis
      by (auto simp: create_xsk_socket_def sys_socket_def Let_def refused_second_def)
  next
    case False
    with sock have fds: "open_fds tr1 = add_mset fd (open_fds tr)" and fd: "fd \<noteq> -1"
      by (auto simp: sys_socket_def Let_def)
    from assms sock False consider
        (umem) tr2 where "umem_new os fd tr1 = (tr2, Inl e)" "tr' = sys_close fd tr2"
      | (finish) tr2 u pool where "umem_new os fd tr1 = (tr2, Inr (u, pool))"
          "xsk_finish os fd u pool ifindex q zc tr2 = (tr', Inl e)"
      by (auto simp: create_xsk_socket_def eio_splits)
    then show ?thesis
    proof cases
      case umem
      have "\<not> fst (offsets_state tr1)" using h(4) by simp
      from umem_new_Inl [OF umem(1) fd this] obtain A R where
        "open_fds tr2 = open_fds tr1" "snd (offsets_state tr2) = snd (offsets_state tr1)"
        "maps_made True tr2 = maps_made True tr1 + A" "maps_made False tr2 = maps_made False tr1 + R"
        "live_maps tr2 = live_maps tr1 + umem_left e A R" "size R = umem_rings_made e"
        "size A = (case e of UmemMmap s \<Rightarrow> 0 | _ \<Rightarrow> 1)" by blast
      with umem(2) h fds show ?thesis
        by (intro exI [of _ "{#}"] exI [of _ A] exI [of _ R], cases e)
          (auto simp: umem_left_def umem_rings_made_def sys_close_def refused_second_def split: if_splits)
    next
      case finish
      note u = umem_new_Inr [OF finish(1)]
      have st: "history tr2 = (add_mset (area u, area_len u) (maps_made True tr1),
          maps_made False tr1 + {#(map_ptr (ptrs (fill u)), mapsize (ptrs (fill u))),
            (map_ptr (ptrs (comp u)), mapsize (ptrs (comp u)))#}, True, snd (offsets_state tr1))"
        using u fd by blast
      then have "fst (offsets_state tr2)" by (simp add: history_def)
      from xsk_finish_Inl [OF finish(2) fd this] obtain R where R: "maps_made True tr' = maps_made True tr2"
        "maps_made False tr' = maps_made False tr2 + R" "size R \<le> 2"
        "live_maps tr' = live_maps tr2 + R - {#(area u, area_len u)#}"
        "if \<exists>s. e = MmapOffsets s
         then open_fds tr' = open_fds tr2 \<and> snd (offsets_state tr') = add_mset fd (snd (offsets_state tr2))
         else open_fds tr' = open_fds tr2 - {#fd#} \<and> snd (offsets_state tr') = snd (offsets_state tr2)" by blast
      show ?thesis
        using u st R h fds
        by (intro exI [of _ "if \<exists>s. e = MmapOffsets s then {#fd#} else {#}"] exI [of _ "{#(area u, area_len u)#}"]
            exI [of _ "{#(map_ptr (ptrs (fill u)), mapsize (ptrs (fill u))),
              (map_ptr (ptrs (comp u)), mapsize (ptrs (comp u)))#} + R"])
          (auto simp: history_def refused_second_def split: if_splits)
    qed
  qed
qed

text \<open>
  C21. What a failed \<^verbatim>\<open>create_xsk_socket\<close> leaves behind.  The descriptor is closed on every path but one: it stays open
  exactly when the kernel granted the first request for the ring offsets and refused the second one
  (\<open>L\<close>; the call \<^verbatim>\<open>get_rx_tx_offsets(fd)?\<close> has no \<^verbatim>\<open>close\<close>).  Every ring mapping made (\<open>R\<close>, at most four) stays, since
  rings have no \<^verbatim>\<open>Drop\<close>; the area (\<open>A\<close>) stays exactly when the first request was refused.
\<close>

theorem create_xsk_socket_error_fds:
  assumes "create_xsk_socket os ifindex q zc tr = (tr', Inl e)"
  shows "\<exists>L A R. refused_second tr' = refused_second tr + L \<and> size L \<le> 1 \<and> open_fds tr' = open_fds tr + L \<and>
    maps_made True tr' = maps_made True tr + A \<and> size A \<le> 1 \<and>
    maps_made False tr' = maps_made False tr + R \<and> size R \<le> 4 \<and>
    live_maps tr' = live_maps tr + R + (if (\<exists>s. e = MmapOffsets s) \<and> L = {#} then A else {#})"
  using assms by (rule create_xsk_socket_Inl)

text \<open>A kernel that answers the first offsets request and refuses the second leaks the
  descriptor.\<close>

theorem create_xsk_socket_error_fds_witness:
  "\<exists>tr' s. create_xsk_socket (demo_os (\<lambda>tr. EvGetOffsets 3 True \<notin> set tr) (\<lambda>_ _. True)) 2 0 True []
       = (tr', Inl (MmapOffsets s)) \<and> refused_second tr' = {#3#} \<and> open_fds tr' = {#3#}"
proof -
  let ?os = "demo_os (\<lambda>tr. EvGetOffsets 3 True \<notin> set tr) (\<lambda>_ _. True)"
  obtain tr' s where run: "create_xsk_socket ?os 2 0 True [] = (tr', Inl (MmapOffsets s))"
    and refused: "refused_second tr' = {#3#}"
    by (simp add: create_xsk_socket_def xsk_finish_def get_rx_tx_offsets_def umem_drop_def demo_simps
        emit_def refused_second_def offsets_state_def enqueue_batch_def)
  have "open_fds tr' = {#3#}"
    using create_xsk_socket_error_fds [OF run] refused by (auto simp: refused_second_def offsets_state_def open_fds_def)
  with run refused show ?thesis by blast
qed

section \<open>What a new socket holds\<close>

lemma create_xsk_socket_Inr:
  assumes "create_xsk_socket os ifindex q zc tr = (tr', Inr s)"
  obtains tr1 tr2 u pool where "umem_new os (xsk_fd s) tr1 = (tr2, Inr (u, pool))"
    "xsk_finish os (xsk_fd s) u pool ifindex q zc tr2 = (tr', Inr s)"
    "open_fds tr1 = add_mset (xsk_fd s) (open_fds tr)" "live_maps tr1 = live_maps tr"
    "xsk_umem s = u" "xsk_tx_pool s = pool" "0 \<le> xsk_fd s" "snd (offsets_state tr1) = snd (offsets_state tr)"
proof -
  obtain tr1 fd where sock: "sys_socket os AF_XDP SOCK_RAW tr = (tr1, fd)" by fastforce
  with assms have fd: "0 \<le> fd" by (auto simp: create_xsk_socket_def split: if_splits)
  from assms sock fd obtain tr2 u pool where
    step: "umem_new os fd tr1 = (tr2, Inr (u, pool))"
      "xsk_finish os fd u pool ifindex q zc tr2 = (tr', Inr s)"
    by (auto simp: create_xsk_socket_def eio_splits split: if_splits)
  moreover from xsk_finish_Inr [OF step(2)]
  have "xsk_fd s = fd" "xsk_umem s = u" "xsk_tx_pool s = pool" by simp_all
  ultimately show thesis
    using sock fd by (intro that [of tr1 tr2 u pool]) (auto simp: sys_socket_def Let_def)
qed

lemma xsk_finish_rings:
  assumes "fresh_desc_rings os" "xsk_finish os fd u pool ifx q zc tr = (tr', Inr s)"
  shows "ring_wf (xsk_rx s) \<and> ring_list (xsk_rx s) = [] \<and> ring_cap (xsk_rx s) = 2048 \<and>
    ring_wf (xsk_tx s) \<and> ring_list (xsk_tx s) = [] \<and> ring_cap (xsk_tx s) = 2048"
  using assms(2) mmap_desc_ring_fresh [OF assms(1)] unfolding xsk_finish_def eio_splits
  by (fastforce simp: eio_splits retE_def)

lemma create_xsk_socket_rings:
  assumes "fresh_addr_rings os" "fresh_desc_rings os"
    and "create_xsk_socket os ifindex q zc tr = (tr', Inr s)"
  shows "ring_list (fill (xsk_umem s)) = rx_addrs \<and> xsk_tx_pool s = tx_pool_addrs \<and>
    ring_list (comp (xsk_umem s)) = [] \<and> ring_list (xsk_rx s) = [] \<and> ring_list (xsk_tx s) = [] \<and>
    ring_wf (fill (xsk_umem s)) \<and> ring_wf (comp (xsk_umem s)) \<and> ring_wf (xsk_rx s) \<and>
    ring_wf (xsk_tx s) \<and>
    ring_cap (fill (xsk_umem s)) = 2048 \<and> ring_cap (comp (xsk_umem s)) = 2048 \<and>
    ring_cap (xsk_rx s) = 2048 \<and> ring_cap (xsk_tx s) = 2048"
proof -
  from assms(3) obtain tr1 tr2 u pool where
    "umem_new os (xsk_fd s) tr1 = (tr2, Inr (u, pool))"
    "xsk_finish os (xsk_fd s) u pool ifindex q zc tr2 = (tr', Inr s)"
    "xsk_umem s = u" "xsk_tx_pool s = pool" by (rule create_xsk_socket_Inr)
  with umem_new_rings [OF assms(1)] xsk_finish_rings [OF assms(2)] show ?thesis by blast
qed

text \<open>
  C19. A new socket starts with every frame accounted for: the fill ring holds exactly the RX
  frames in order, the TX pool exactly the TX frames, the completion, RX and TX rings are
  empty, and all four rings are well-formed with room for 2048 slots.
\<close>

theorem create_xsk_socket_initial:
  assumes "fresh_addr_rings os" "fresh_desc_rings os"
    and "create_xsk_socket os ifindex q zc tr = (tr', Inr s)"
  shows "ring_list (fill (xsk_umem s)) = rx_addrs \<and> xsk_tx_pool s = tx_pool_addrs \<and>
    ring_list (comp (xsk_umem s)) = [] \<and> ring_list (xsk_rx s) = [] \<and> ring_list (xsk_tx s) = [] \<and>
    ring_wf (fill (xsk_umem s)) \<and> ring_wf (comp (xsk_umem s)) \<and> ring_wf (xsk_rx s) \<and>
    ring_wf (xsk_tx s) \<and>
    ring_cap (fill (xsk_umem s)) = 2048 \<and> ring_cap (comp (xsk_umem s)) = 2048 \<and>
    ring_cap (xsk_rx s) = 2048 \<and> ring_cap (xsk_tx s) = 2048"
  using assms by (rule create_xsk_socket_rings)

abbreviation good_os :: os where
  "good_os \<equiv> demo_os (\<lambda>_. True) (\<lambda>_ _. True)"

lemma good_os_fresh: "fresh_addr_rings good_os" "fresh_desc_rings good_os"
  by (simp_all add: fresh_addr_rings_def fresh_desc_rings_def demo_os_def RING_SIZE_def)

lemma good_os_creates: "\<exists>tr' s. create_xsk_socket good_os 2 0 True [] = (tr', Inr s)"
  by (simp add: create_xsk_socket_def xsk_finish_def get_rx_tx_offsets_def bind_xsk_def
      mmap_desc_ring_def demo_simps)

theorem create_xsk_socket_initial_witness:
  "\<exists>tr' s. create_xsk_socket good_os 2 0 True [] = (tr', Inr s) \<and>
     ring_list (fill (xsk_umem s)) = rx_addrs \<and> xsk_tx_pool s = tx_pool_addrs"
  using good_os_creates create_xsk_socket_initial [OF good_os_fresh] by blast

text \<open>
  C22. Dropping a socket gives back its descriptor and the UMEM area; the four ring mappings
  made by the constructor are what stays mapped.
\<close>

theorem xsk_drop_resources:
  assumes "create_xsk_socket os ifindex q zc tr = (tr', Inr s)"
  shows "open_fds tr' = add_mset (xsk_fd s) (open_fds tr) \<and>
    open_fds (xsk_drop s tr') = open_fds tr \<and>
    live_maps (xsk_drop s tr') = live_maps tr +
      mset (map (\<lambda>p. (map_ptr p, mapsize p)) [ptrs (fill (xsk_umem s)), ptrs (comp (xsk_umem s)),
        ptrs (xsk_rx s), ptrs (xsk_tx s)])"
proof -
  from assms obtain tr1 tr2 u pool where steps:
    "umem_new os (xsk_fd s) tr1 = (tr2, Inr (u, pool))"
    "xsk_finish os (xsk_fd s) u pool ifindex q zc tr2 = (tr', Inr s)"
    "open_fds tr1 = add_mset (xsk_fd s) (open_fds tr)" "live_maps tr1 = live_maps tr"
    "xsk_umem s = u" by (rule create_xsk_socket_Inr)
  then show ?thesis
    using umem_new_Inr [OF steps(1)] xsk_finish_Inr [OF steps(2)]
    by (simp add: xsk_drop_def umem_drop_def sys_close_def sys_munmap_def)
qed

theorem xsk_drop_resources_witness:
  "\<exists>tr' s. create_xsk_socket good_os 2 0 True [] = (tr', Inr s) \<and>
     open_fds (xsk_drop s tr') = open_fds [] \<and> size (live_maps (xsk_drop s tr')) = 4"
proof -
  obtain tr' s where run: "create_xsk_socket good_os 2 0 True [] = (tr', Inr s)"
    using good_os_creates by blast
  from xsk_drop_resources [OF run] have "size (live_maps (xsk_drop s tr')) = 4"
    by (simp add: live_maps_def)
  with run xsk_drop_resources [OF run] show ?thesis by blast
qed

lemma extract_tx_keeps_rx:
  assumes "extract_tx s = (s', t, c, p)"
  shows "xsk_rx s' = xsk_rx s" "fill (xsk_umem s') = fill (xsk_umem s)"
    "area (xsk_umem s') = area (xsk_umem s)" "xsk_fd s' = xsk_fd s"
    "t = xsk_tx s" "c = comp (xsk_umem s)" "p = xsk_tx_pool s"
  using assms by (auto simp: extract_tx_def)

end
