(* ===== verification/Rust_Str.thy ===== *)
theory Rust_Str
  imports Rust_Prelude
begin

text \<open>
  The string operations of Rust's standard library that RunPerf's parsers use: \<^verbatim>\<open>trim\<close>,
  \<^verbatim>\<open>split\<close>, \<^verbatim>\<open>split_once\<close>, \<^verbatim>\<open>split_whitespace\<close>, \<^verbatim>\<open>lines\<close>, \<^verbatim>\<open>strip_prefix\<close>,
  \<^verbatim>\<open>from_str_radix\<close>/\<^verbatim>\<open>parse\<close> of unsigned integers and their \<^verbatim>\<open>Display\<close>.  A \<open>char\<close> stands
  for a code point below 256, so the white space characters are the six ASCII ones, U+0085
  and U+00A0.
\<close>

section \<open>White space, splitting, lines\<close>

definition is_whitespace :: "char \<Rightarrow> bool" where
  "is_whitespace c \<longleftrightarrow> (let n = (of_char c :: nat) in (9 \<le> n \<and> n \<le> 13) \<or> n = 32 \<or> n = 133 \<or> n = 160)"

definition trim_start :: "string \<Rightarrow> string" where
  "trim_start = dropWhile is_whitespace"

definition trim_end :: "string \<Rightarrow> string" where
  "trim_end s = rev (dropWhile is_whitespace (rev s))"

definition trim :: "string \<Rightarrow> string" where
  "trim s = trim_end (trim_start s)"

fun split_by :: "(char \<Rightarrow> bool) \<Rightarrow> string \<Rightarrow> string list" where
  "split_by p [] = [[]]"
| "split_by p (c # cs) =
     (if p c then [] # split_by p cs
      else (case split_by p cs of [] \<Rightarrow> [[c]] | w # ws \<Rightarrow> (c # w) # ws))"

definition split_on :: "char \<Rightarrow> string \<Rightarrow> string list" where
  "split_on d = split_by (\<lambda>c. c = d)"

definition split_once :: "char \<Rightarrow> string \<Rightarrow> (string \<times> string) option" where
  "split_once d s =
     (if d \<in> set s then Some (takeWhile (\<lambda>c. c \<noteq> d) s, tl (dropWhile (\<lambda>c. c \<noteq> d) s)) else None)"

definition split_whitespace :: "string \<Rightarrow> string list" where
  "split_whitespace s = filter (\<lambda>w. w \<noteq> []) (split_by is_whitespace s)"

definition newline :: char where
  "newline = CHR 0x0A"

definition strip_cr :: "string \<Rightarrow> string" where
  "strip_cr l = (if l \<noteq> [] \<and> last l = CHR 0x0D then butlast l else l)"

definition lines :: "string \<Rightarrow> string list" where
  "lines s = (let ps = split_on newline s
              in map strip_cr (butlast ps) @ (if last ps = [] then [] else [last ps]))"

definition strip_prefix :: "string \<Rightarrow> string \<Rightarrow> string option" where
  "strip_prefix p s = (if take (length p) s = p then Some (drop (length p) s) else None)"

section \<open>Integers\<close>

definition to_digit :: "nat \<Rightarrow> char \<Rightarrow> nat option" where
  "to_digit radix c =
     (let n = of_char c;
          d = (if 48 \<le> n \<and> n \<le> 57 then Some (n - 48)
               else if 97 \<le> n \<and> n \<le> 122 then Some (n - 87)
               else if 65 \<le> n \<and> n \<le> 90 then Some (n - 55) else None)
      in case d of None \<Rightarrow> None | Some v \<Rightarrow> if v < radix then Some v else None)"

fun digits_value :: "nat \<Rightarrow> nat \<Rightarrow> string \<Rightarrow> nat option" where
  "digits_value radix acc [] = Some acc"
| "digits_value radix acc (c # cs) =
     (case to_digit radix c of None \<Rightarrow> None | Some d \<Rightarrow> digits_value radix (acc * radix + d) cs)"

text \<open>\<open>from_str_radix radix bits s\<close>: an optional plus sign, at least one digit, no overflow of
  \<open>bits\<close> bits.  A minus sign is an invalid digit of an unsigned type.\<close>

definition from_str_radix :: "nat \<Rightarrow> nat \<Rightarrow> string \<Rightarrow> nat option" where
  "from_str_radix radix bits s =
     (let ds = (if s \<noteq> [] \<and> hd s = CHR ''+'' then tl s else s)
      in if ds = [] then None
         else (case digits_value radix 0 ds of
                 None \<Rightarrow> None
               | Some v \<Rightarrow> if v < 2 ^ bits then Some v else None))"

abbreviation parse_usize :: "string \<Rightarrow> nat option" where
  "parse_usize \<equiv> from_str_radix 10 64"

abbreviation parse_u64 :: "string \<Rightarrow> nat option" where
  "parse_u64 \<equiv> from_str_radix 10 64"

definition digit_char :: "nat \<Rightarrow> char" where
  "digit_char d = (if d < 10 then char_of (48 + d) else char_of (87 + d))"

fun show_radix :: "nat \<Rightarrow> nat \<Rightarrow> string" where
  "show_radix r n = (if r < 2 \<or> n < r then [digit_char n] else show_radix r (n div r) @ [digit_char (n mod r)])"

declare show_radix.simps [simp del]

abbreviation show_nat :: "nat \<Rightarrow> string" where
  "show_nat \<equiv> show_radix 10"

section \<open>Lemmas\<close>

lemma split_by_not_Nil [simp]: "split_by p s \<noteq> []"
  by (induction s) (auto split: list.splits)

lemma split_by_no_sep: "(\<And>c. c \<in> set s \<Longrightarrow> \<not> p c) \<Longrightarrow> split_by p s = [s]"
  by (induction s) simp_all

lemma split_by_append:
  "p d \<Longrightarrow> split_by p (s @ d # t) = split_by p s @ split_by p t"
  by (induction s) (auto split: list.splits)

lemma split_on_append: "split_on d (s @ d # t) = split_on d s @ split_on d t"
  by (simp add: split_on_def split_by_append)

lemma split_on_no_sep: "d \<notin> set s \<Longrightarrow> split_on d s = [s]"
  by (auto simp: split_on_def intro!: split_by_no_sep)

lemma split_once_append: "d \<notin> set a \<Longrightarrow> split_once d (a @ d # b) = Some (a, b)"
  by (induction a) (auto simp: split_once_def)

lemma split_once_None: "d \<notin> set s \<Longrightarrow> split_once d s = None"
  by (simp add: split_once_def)

lemma dropWhile_none: "(\<And>c. c \<in> set s \<Longrightarrow> \<not> p c) \<Longrightarrow> dropWhile p s = s"
  by (cases s) simp_all

lemma trim_id: "(\<And>c. c \<in> set s \<Longrightarrow> \<not> is_whitespace c) \<Longrightarrow> trim s = s"
  using dropWhile_none [of s is_whitespace] dropWhile_none [of "rev s" is_whitespace]
  by (simp add: trim_def trim_start_def trim_end_def)

text \<open>Trailing white space goes away.\<close>

lemma trim_append_space:
  assumes "\<And>c. c \<in> set s \<Longrightarrow> \<not> is_whitespace c" "s \<noteq> []" "\<And>c. c \<in> set w \<Longrightarrow> is_whitespace c"
  shows "trim (s @ w) = s"
proof -
  have "trim_start (s @ w) = s @ w"
    using assms(1,2) by (cases s) (simp_all add: trim_start_def)
  moreover have "dropWhile is_whitespace (rev w @ rev s) = rev s"
    using assms dropWhile_none [of "rev s" is_whitespace] by (simp add: dropWhile_append)
  ultimately show ?thesis by (simp add: trim_def trim_end_def)
qed

text \<open>Digits are neither white space nor punctuation.\<close>

definition is_digit_char :: "char \<Rightarrow> bool" where
  "is_digit_char c \<longleftrightarrow> (let n = (of_char c :: nat) in (48 \<le> n \<and> n \<le> 57) \<or> (97 \<le> n \<and> n \<le> 122))"

lemma of_digit_char: "d < 36 \<Longrightarrow> of_char (digit_char d) = (if d < 10 then 48 + d else 87 + d)"
  by (simp add: digit_char_def)

lemma to_digit_digit_char: "d < radix \<Longrightarrow> radix \<le> 36 \<Longrightarrow> to_digit radix (digit_char d) = Some d"
  by (simp add: to_digit_def of_digit_char)

lemma is_digit_char_digit_char: "d < 36 \<Longrightarrow> is_digit_char (digit_char d)"
  by (auto simp: is_digit_char_def of_digit_char Let_def)

lemma is_digit_char_not_space: "is_digit_char c \<Longrightarrow> \<not> is_whitespace c"
  by (auto simp: is_digit_char_def is_whitespace_def Let_def)

lemma is_digit_char_not_punct:
  "is_digit_char c \<Longrightarrow> c \<notin> {CHR '','', CHR ''-'', CHR ''+'', CHR '':'', CHR ''.''}"
  by (auto simp: is_digit_char_def Let_def)

lemma show_radix_digits:
  assumes "2 \<le> r" "r \<le> 36" "c \<in> set (show_radix r n)"
  shows "is_digit_char c"
  using assms
proof (induction r n rule: show_radix.induct)
  case (1 r n)
  show ?case
  proof (cases "n < r")
    case True
    with 1 show ?thesis by (simp add: show_radix.simps [of r n] is_digit_char_digit_char)
  next
    case False
    with 1 consider "c \<in> set (show_radix r (n div r))" | "c = digit_char (n mod r)"
      by (auto simp: show_radix.simps [of r n])
    then show ?thesis
    proof cases
      case 2
      moreover have "n mod r < 36"
        using "1.prems" by (intro less_le_trans [of "n mod r" r 36]) simp_all
      ultimately show ?thesis by (simp add: is_digit_char_digit_char)
    qed (use 1 False in simp)
  qed
qed

lemma show_radix_not_Nil [simp]: "show_radix r n \<noteq> []"
  by (subst show_radix.simps) simp

lemma digits_value_append:
  "digits_value r acc (s @ t) =
     (case digits_value r acc s of None \<Rightarrow> None | Some v \<Rightarrow> digits_value r v t)"
  by (induction s arbitrary: acc) (auto split: option.splits)

lemma digits_value_show_radix:
  assumes "2 \<le> r" "r \<le> 36"
  shows "digits_value r 0 (show_radix r n) = Some n"
  using assms
proof (induction r n rule: show_radix.induct)
  case (1 r n)
  show ?case
  proof (cases "n < r")
    case True
    with 1 show ?thesis by (simp add: show_radix.simps [of r n] to_digit_digit_char)
  next
    case False
    moreover have "n mod r < r" using 1 by simp
    ultimately show ?thesis
      using 1 by (simp add: show_radix.simps [of r n] digits_value_append to_digit_digit_char)
  qed
qed

lemma digits_no_plus: "s \<noteq> [] \<Longrightarrow> (\<And>c. c \<in> set s \<Longrightarrow> is_digit_char c) \<Longrightarrow> hd s \<noteq> CHR ''+''"
  using is_digit_char_not_punct [of "hd s"] by auto

text \<open>Reading back a printed number.\<close>

lemma from_str_radix_show:
  assumes "2 \<le> r" "r \<le> 36" "n < 2 ^ bits"
  shows "from_str_radix r bits (show_radix r n) = Some n"
  using assms digits_no_plus [OF show_radix_not_Nil, of r n] show_radix_digits [of r _ n]
  by (simp add: from_str_radix_def digits_value_show_radix)

lemma from_str_radix_bound: "from_str_radix r bits s = Some n \<Longrightarrow> n < 2 ^ bits"
  by (auto simp: from_str_radix_def Let_def split: if_splits option.splits)

text \<open>Fields and lines.\<close>

lemma split_whitespace_field:
  assumes "w \<noteq> []" "\<And>c. c \<in> set w \<Longrightarrow> \<not> is_whitespace c" "is_whitespace d"
  shows "split_whitespace (w @ d # t) = w # split_whitespace t"
  using assms by (simp add: split_whitespace_def split_by_append split_by_no_sep)

definition unlines :: "string list \<Rightarrow> string" where
  "unlines ls = concat (map (\<lambda>l. l @ [newline]) ls)"

lemma split_on_unlines:
  "(\<And>l. l \<in> set ls \<Longrightarrow> newline \<notin> set l) \<Longrightarrow> split_on newline (unlines ls) = ls @ [[]]"
proof (induction ls)
  case (Cons l ls)
  then show ?case
    using split_on_append [of newline l "unlines ls"] by (simp add: unlines_def split_on_no_sep)
qed (simp add: unlines_def split_on_def)

lemma lines_unlines:
  assumes "\<And>l. l \<in> set ls \<Longrightarrow> newline \<notin> set l \<and> CHR 0x0D \<notin> set l"
  shows "lines (unlines ls) = ls"
proof -
  have "strip_cr l = l" if "l \<in> set ls" for l
    using assms [OF that] by (metis last_in_set strip_cr_def)
  then show ?thesis
    using assms by (simp add: lines_def split_on_unlines map_idI)
qed

end
