(* ===== verification/Frame.thy ===== *)
theory Frame
  imports Simd Rust_Str
begin

unbundle bit_operations_syntax

text \<open>
  The frame builder of \<^verbatim>\<open>src/xdp/frame.rs\<close>: the 42-byte Ethernet/IPv4/UDP template, the
  per-frame stamping of lengths and checksum, and the IPv4 header checksum.  The reference is
  \<open>frame_spec\<close>, the frame written field by field, with the checksum as RFC 1071 defines it (\<open>rfc1071_sum\<close>);
  \<open>write_frame\<close> is shown to produce it, with a checksum that every receiver accepts, or to
  panic when the buffer is too short.
\<close>

section \<open>Constants, addresses\<close>

definition ETH_HDR :: nat where "ETH_HDR = 14"
definition IPV4_HDR :: nat where "IPV4_HDR = 20"
definition UDP_HDR :: nat where "UDP_HDR = 8"
definition OUTER_HDR :: nat where "OUTER_HDR = ETH_HDR + IPV4_HDR + UDP_HDR"

named_theorems frame_consts "the header sizes"

lemmas [frame_consts] = ETH_HDR_def IPV4_HDR_def UDP_HDR_def OUTER_HDR_def

datatype Ipv4Addr = Ipv4 u8 u8 u8 u8

fun octets :: "Ipv4Addr \<Rightarrow> bytes" where
  "octets (Ipv4 a b c d) = [a, b, c, d]"

lemma length_octets [simp]: "length (octets ip) = 4"
  by (cases ip) simp

record FrameHeader =
  tpl :: bytes

section \<open>Checksum\<close>

text \<open>\<^verbatim>\<open>while sum >> 16 != 0 { sum = (sum & 0xFFFF) + (sum >> 16); }\<close>\<close>

function fold_carry :: "u32 \<Rightarrow> u32" where
  "fold_carry s =
     (if drop_bit 16 s \<noteq> 0 then fold_carry ((s AND 0xFFFF) + drop_bit 16 s) else s)"
  by pat_completeness auto

lemma unat_carry_parts:
  fixes s :: u32
  shows "unat (s AND 0xFFFF) = unat s mod 65536" "unat (drop_bit 16 s) = unat s div 65536"
    "unat ((s AND 0xFFFF) + drop_bit 16 s) = unat s mod 65536 + unat s div 65536"
proof -
  show a: "unat (s AND 0xFFFF) = unat s mod 65536"
    using unat_and_mask [of "0xFFFF :: u32" 16 s] by simp
  show d: "unat (drop_bit 16 s) = unat s div 65536"
    using unat_drop_bit_eq [of 16 s] by (simp add: drop_bit_eq_div)
  have "unat s div 65536 < 65536" using unat_u32_lt [of s] by linarith
  moreover have "unat s mod 65536 < 65536" by simp
  ultimately show "unat ((s AND 0xFFFF) + drop_bit 16 s) = unat s mod 65536 + unat s div 65536"
    by (subst unat_add_small) (simp_all add: a d)
qed

termination fold_carry
proof (relation "measure unat", goal_cases)
  case (2 s)
  then have "0 < unat s div 65536"
    by (metis unat_carry_parts(2) gr0I unat_0_iff)
  then have "unat s mod 65536 + unat s div 65536 < unat s"
    using div_mult_mod_eq [of "unat s" 65536] by linarith
  then show ?case by (simp only: in_measure unat_carry_parts(3))
qed simp

declare fold_carry.simps [simp del]

definition checksum_sum :: "bytes \<Rightarrow> u32" where
  "checksum_sum hdr =
     fold (\<lambda>i s. s + ucast (from_be_bytes (hdr ! (2 * i)) (hdr ! (2 * i + 1)))) [0..<length hdr div 2] 0"

definition ipv4_checksum :: "bytes \<Rightarrow> u16" where
  "ipv4_checksum hdr = NOT (ucast (fold_carry (checksum_sum hdr)))"

section \<open>The frame\<close>

definition frame_header_new ::
  "bytes \<Rightarrow> bytes \<Rightarrow> Ipv4Addr \<Rightarrow> Ipv4Addr \<Rightarrow> u16 \<Rightarrow> u16 \<Rightarrow> FrameHeader" where
  "frame_header_new src_mac dst_mac src_ip dst_ip src_port dst_port =
     (let t = replicate OUTER_HDR 0;
          t = write_at 0 dst_mac t;
          t = write_at 6 src_mac t;
          t = write_at 12 [0x08, 0x00] t;
          t = t[ETH_HDR := 0x45];
          t = t[ETH_HDR + 6 := 0x40];
          t = t[ETH_HDR + 8 := 64];
          t = t[ETH_HDR + 9 := 17];
          t = write_at (ETH_HDR + 12) (octets src_ip) t;
          t = write_at (ETH_HDR + 16) (octets dst_ip) t;
          t = t[ETH_HDR + IPV4_HDR := hi_byte src_port];
          t = t[ETH_HDR + IPV4_HDR + 1 := lo_byte src_port];
          t = t[ETH_HDR + IPV4_HDR + 2 := hi_byte dst_port];
          t = t[ETH_HDR + IPV4_HDR + 3 := lo_byte dst_port]
      in \<lparr>tpl = t\<rparr>)"

text \<open>Stamps the frame for payload \<open>dns\<close> into \<open>out\<close>; the new buffer and the frame length.\<close>

definition write_frame :: "cpu_features \<Rightarrow> FrameHeader \<Rightarrow> bytes \<Rightarrow> bytes \<Rightarrow> (bytes \<times> nat) may_panic" where
  "write_frame c h out dns =
     (let total = OUTER_HDR + length dns;
          udp_len = (of_nat (UDP_HDR + length dns) :: u16);
          ip_tot = of_nat IPV4_HDR + udp_len in
      if length out < OUTER_HDR then Inl IndexOutOfBounds
      else
       (let b = write_at 0 (tpl h) out;
            b = b[ETH_HDR + 2 := hi_byte ip_tot];
            b = b[ETH_HDR + 3 := lo_byte ip_tot];
            cksum = ipv4_checksum (subslice ETH_HDR (ETH_HDR + IPV4_HDR) b);
            b = b[ETH_HDR + 10 := hi_byte cksum];
            b = b[ETH_HDR + 11 := lo_byte cksum];
            b = b[ETH_HDR + IPV4_HDR + 4 := hi_byte udp_len];
            b = b[ETH_HDR + IPV4_HDR + 5 := lo_byte udp_len]
        in if length b < total then Inl IndexOutOfBounds
           else (case memcpy_slices c (subslice OUTER_HDR total b) dns of
                   Inl p \<Rightarrow> Inl p
                 | Inr payload \<Rightarrow> Inr (write_at OUTER_HDR payload b, total))))"

section \<open>The reference\<close>

text \<open>The Internet checksum of RFC 1071 on natural numbers, written without looking at the code: the 16-bit words of the
  header in network order are added in one's complement, each carry out of the 16 bits coming back in at the end.  A header
  is valid when the sum over all its words, checksum field included, is all ones.\<close>

fun be_words :: "bytes \<Rightarrow> nat list" where
  "be_words [] = []"
| "be_words [a] = [256 * unat a]"
| "be_words (a # b # bs) = (256 * unat a + unat b) # be_words bs"

definition ones_add :: "nat \<Rightarrow> nat \<Rightarrow> nat" where
  "ones_add x y = (if x + y < 65536 then x + y else x + y - 65536 + 1)"

definition rfc1071_sum :: "bytes \<Rightarrow> nat" where
  "rfc1071_sum bs = foldl ones_add 0 (be_words bs)"

definition rfc1071_valid :: "bytes \<Rightarrow> bool" where
  "rfc1071_valid hdr \<longleftrightarrow> rfc1071_sum hdr = 65535"

text \<open>The IPv4 header with checksum field \<open>ck\<close>; with the checksum of RFC 1071, the complement of the sum taken while the
  field is zero; then the whole frame.\<close>

definition ipv4_header0 :: "Ipv4Addr \<Rightarrow> Ipv4Addr \<Rightarrow> u16 \<Rightarrow> u16 \<Rightarrow> bytes" where
  "ipv4_header0 src dst tot ck =
     [0x45, 0, hi_byte tot, lo_byte tot, 0, 0, 0x40, 0, 64, 17, hi_byte ck, lo_byte ck]
       @ octets src @ octets dst"

definition ipv4_header_spec :: "Ipv4Addr \<Rightarrow> Ipv4Addr \<Rightarrow> u16 \<Rightarrow> bytes" where
  "ipv4_header_spec src dst tot = ipv4_header0 src dst tot (of_nat (65535 - rfc1071_sum (ipv4_header0 src dst tot 0)))"

definition udp_header_spec :: "u16 \<Rightarrow> u16 \<Rightarrow> u16 \<Rightarrow> bytes" where
  "udp_header_spec sp dp n = [hi_byte sp, lo_byte sp, hi_byte dp, lo_byte dp, hi_byte n, lo_byte n, 0, 0]"

definition frame_spec :: "bytes \<Rightarrow> bytes \<Rightarrow> Ipv4Addr \<Rightarrow> Ipv4Addr \<Rightarrow> u16 \<Rightarrow> u16 \<Rightarrow> bytes \<Rightarrow> bytes" where
  "frame_spec src_mac dst_mac src dst sp dp payload =
     dst_mac @ src_mac @ [0x08, 0x00]
       @ ipv4_header_spec src dst (of_nat (28 + length payload))
       @ udp_header_spec sp dp (of_nat (8 + length payload))
       @ payload"

section \<open>The checksum verifies\<close>

lemma fold_carry_unat:
  "unat (fold_carry s) = (if unat s = 0 then 0 else (unat s - 1) mod 65535 + 1)"
proof (induction s rule: fold_carry.induct)
  case (1 s)
  define n where "n = unat s"
  show ?case
  proof (cases "drop_bit 16 s = 0")
    case True
    then have "n div 65536 = 0" unfolding n_def by (metis unat_0_iff unat_carry_parts(2))
    then have "n < 65536" by (simp add: div_eq_0_iff)
    then have "n \<noteq> 0 \<Longrightarrow> (n - 1) mod 65535 + 1 = n" by simp
    with True show ?thesis
      by (subst fold_carry.simps) (simp flip: n_def)
  next
    case False
    then have q: "0 < n div 65536" unfolding n_def
      by (metis gr0I unat_0_iff unat_carry_parts(2))
    define n' where "n' = n mod 65536 + n div 65536"
    have n: "n = 65535 * (n div 65536) + n'"
      using div_mult_mod_eq [of n 65536] by (simp add: n'_def)
    have n'0: "n' \<noteq> 0" using q by (simp add: n'_def)
    then have "n - 1 = 65535 * (n div 65536) + (n' - 1)" using n by simp
    then have "(n - 1) mod 65535 = (n' - 1) mod 65535" by (metis mod_mult_self4)
    moreover have "unat (fold_carry ((s AND 0xFFFF) + drop_bit 16 s)) = (n' - 1) mod 65535 + 1"
      using 1 [OF False] n'0 by (simp add: unat_carry_parts(3) n'_def n_def)
    ultimately show ?thesis
      using False q by (subst fold_carry.simps) (auto simp flip: n_def)
  qed
qed

lemma ucast_fold_carry_unat: "unat (ucast (fold_carry s) :: u16) = unat (fold_carry s)"
proof -
  have "unat (fold_carry s) < 65536"
    using mod_less_divisor [of 65535 "unat s - 1"] by (simp add: fold_carry_unat)
  then show ?thesis by (simp add: unsigned_ucast_eq take_bit_nat_eq_self)
qed

lemma unat_not_u16: "unat (NOT w :: u16) = 65535 - unat w"
proof -
  have "NOT w = 65535 - w" by (simp add: not_eq_complement)
  moreover have "w \<le> 65535" by (simp add: word_le_nat_alt less_Suc_eq_le [symmetric])
  ultimately show ?thesis by (simp add: unat_sub)
qed

lemma ipv4_checksum_unat:
  "unat (ipv4_checksum h) = 65535 - unat (fold_carry (checksum_sum h))"
  by (simp add: ipv4_checksum_def unat_not_u16 ucast_fold_carry_unat)

text \<open>The one's complement sum in closed form: the residue modulo 65535, with 65535 for the multiples other than zero.\<close>

definition ones_norm :: "nat \<Rightarrow> nat" where
  "ones_norm n = (if n = 0 then 0 else (n - 1) mod 65535 + 1)"

lemma ones_norm_le: "ones_norm n \<le> 65535"
  using mod_less_divisor [of 65535 "n - 1"] by (auto simp: ones_norm_def simp del: mod_less_divisor)

lemma ones_add_norm:
  assumes "w \<le> 65535"
  shows "ones_add (ones_norm n) w = ones_norm (n + w)"
proof (cases "n = 0 \<or> w = 0")
  case True
  with assms ones_norm_le [of n] show ?thesis by (auto simp: ones_add_def ones_norm_def)
next
  case False
  define m where "m = (n - 1) mod 65535"
  have m: "m < 65535" by (simp add: m_def)
  have "(n + w - 1) mod 65535 = (m + w) mod 65535"
    unfolding m_def mod_add_left_eq using False by simp
  moreover have "(m + w) mod 65535 = (if m + w < 65535 then m + w else m + w - 65535)"
    using m assms by (simp add: mod_if)
  ultimately show ?thesis
    using False m by (auto simp: ones_add_def ones_norm_def simp flip: m_def One_nat_def)
qed

lemma be_words_le: "w \<in> set (be_words bs) \<Longrightarrow> w \<le> 65535"
proof (induction bs rule: be_words.induct)
  case (2 a)
  then show ?case using unat_u8_lt [of a] by (simp del: unat_u8_lt)
next
  case (3 a b bs)
  have "256 * unat a + unat b \<le> 65535" using unat_lt_pow [of a] unat_lt_pow [of b] by (simp del: unat_u8_lt)
  with 3 show ?case by auto
qed simp

lemma rfc1071_sum_norm: "rfc1071_sum bs = ones_norm (sum_list (be_words bs))"
proof -
  have "foldl ones_add (ones_norm n) ws = ones_norm (n + sum_list ws)" if "\<And>w. w \<in> set ws \<Longrightarrow> w \<le> 65535" for n ws
    using that by (induction ws arbitrary: n) (simp_all add: ones_add_norm add.assoc)
  from this [of "be_words bs" 0] be_words_le show ?thesis by (simp add: rfc1071_sum_def ones_norm_def)
qed

lemma ones_norm_complement:
  assumes "n \<noteq> 0"
  shows "ones_norm (n + (65535 - ones_norm n)) = 65535"
proof -
  define m where "m = n - 1"
  have m: "n = m + 1" using assms by (simp add: m_def)
  have "m mod 65535 < 65535" "m = 65535 * (m div 65535) + m mod 65535" by simp_all
  then have "n + (65535 - (m mod 65535 + 1)) - 1 = 65535 * (m div 65535) + 65534" using m by linarith
  then have "n + (65535 - ones_norm n) - 1 = 65535 * (m div 65535) + 65534" using m by (simp add: ones_norm_def)
  then show ?thesis using assms by (simp add: ones_norm_def)
qed

lemma fold_carry_norm: "unat (fold_carry s) = ones_norm (unat s)"
  by (simp add: fold_carry_unat ones_norm_def)

text \<open>The sum of a 20-byte header, and the header with checksum field \<open>ck\<close>.\<close>

lemma unat_from_be_bytes: "unat (from_be_bytes h l) = 256 * unat h + unat l"
proof -
  have "from_be_bytes h l = push_bit 8 (ucast h) + ucast l"
    unfolding from_be_bytes_def
    by (rule disjunctive_add [symmetric]) (auto simp: bit_simps dest: bit_imp_le_length)
  moreover have bound: "256 * unat h + unat l < 65536"
    using unat_u8_lt [of h] unat_u8_lt [of l] by linarith
  moreover have "unat (push_bit 8 (ucast h :: u16)) = 256 * unat h"
    using bound by (simp add: push_bit_eq_mult unat_word_ariths unat_ucast_up)
  ultimately show ?thesis
    by (simp add: unat_word_ariths unat_ucast_up)
qed

lemma fold_add_u16_unat:
  fixes f :: "nat \<Rightarrow> u16" and acc :: u32
  assumes "unat acc + length is * 65535 < 4294967296"
  shows "unat (fold (\<lambda>i s. s + ucast (f i)) is acc) = unat acc + (\<Sum>i\<leftarrow>is. unat (f i))"
  using assms
proof (induction "is" arbitrary: acc)
  case (Cons i "is")
  have b: "unat (f i) \<le> 65535" using unat_u16_lt [of "f i"] by linarith
  with Cons.prems have acc: "unat (acc + ucast (f i)) = unat acc + unat (f i)"
    by (subst unat_add_small) (simp_all add: unat_ucast_up)
  with b Cons.prems have "unat (acc + ucast (f i)) + length is * 65535 < 4294967296" by simp
  from Cons.IH [OF this] acc show ?case by simp
qed simp

text \<open>The loop of the code adds exactly the words of the header, for every header of even length.\<close>

lemma be_words_map:
  "even (length bs) \<Longrightarrow>
     be_words bs = map (\<lambda>i. 256 * unat (bs ! (2 * i)) + unat (bs ! (2 * i + 1))) [0..<length bs div 2]"
proof (induction bs rule: be_words.induct)
  case (3 a b bs)
  have "[0..<length (a # b # bs) div 2] = 0 # map Suc [0..<length bs div 2]"
    by (simp add: upt_conv_Cons map_Suc_upt del: upt_Suc)
  with 3 show ?case by simp
qed simp_all

lemma checksum_sum_words:
  assumes "even (length h)" "length h \<le> 60"
  shows "unat (checksum_sum h) = sum_list (be_words h)"
proof -
  have "length h div 2 * 65535 < 4294967296" using assms(2) by simp
  then show ?thesis
    unfolding checksum_sum_def
    by (subst fold_add_u16_unat) (simp_all add: be_words_map [OF assms(1)] unat_from_be_bytes)
qed

lemma ipv4_checksum_rfc1071:
  assumes "even (length h)" "length h \<le> 60"
  shows "ipv4_checksum h = of_nat (65535 - rfc1071_sum h)"
proof -
  have "unat (ipv4_checksum h) = 65535 - rfc1071_sum h"
    using checksum_sum_words [OF assms] by (simp add: ipv4_checksum_unat fold_carry_norm rfc1071_sum_norm)
  then show ?thesis by (metis unat_of_nat_small unat_lt_pow word_unat_eq_iff)
qed

lemma hi_lo_zero [simp]: "hi_byte 0 = 0" "lo_byte 0 = 0"
  by (simp_all add: hi_byte_def lo_byte_def)

lemma ipv4_header0_words:
  "sum_list (be_words (ipv4_header0 src dst tot ck)) = sum_list (be_words (ipv4_header0 src dst tot 0)) + unat ck \<and>
   sum_list (be_words (ipv4_header0 src dst tot 0)) \<noteq> 0"
proof -
  have "256 * unat (hi_byte ck) + unat (lo_byte ck) = unat ck"
    using unat_from_be_bytes [of "hi_byte ck" "lo_byte ck"] by simp
  then show ?thesis by (cases src, cases dst) (simp add: ipv4_header0_def)
qed

lemma ipv4_header_spec_valid: "rfc1071_valid (ipv4_header_spec src dst tot)"
proof -
  let ?n = "sum_list (be_words (ipv4_header0 src dst tot 0))"
  have "unat (of_nat (65535 - ones_norm ?n) :: u16) = 65535 - ones_norm ?n"
    by (rule unat_of_nat_small) simp
  then show ?thesis
    unfolding rfc1071_valid_def ipv4_header_spec_def rfc1071_sum_norm
    using ipv4_header0_words [of src dst tot "of_nat (65535 - ones_norm ?n)"] ones_norm_complement [of ?n] by simp
qed

section \<open>The layout\<close>

lemma list_update_Cons_numeral [simp]:
  "(x # xs)[numeral v := y] = x # xs[pred_numeral v := y]"
  by (simp add: numeral_eq_Suc)

lemma frame_header_new_tpl:
  assumes "length src_mac = 6" "length dst_mac = 6"
  shows "tpl (frame_header_new src_mac dst_mac src dst sp dp) =
    dst_mac @ src_mac @ [0x08, 0x00] @ [0x45, 0, 0, 0, 0, 0, 0x40, 0, 64, 17, 0, 0]
      @ octets src @ octets dst @ [hi_byte sp, lo_byte sp, hi_byte dp, lo_byte dp, 0, 0, 0, 0]"
proof -
  from assms obtain a1 a2 a3 a4 a5 a6 b1 b2 b3 b4 b5 b6 where
    mac: "src_mac = [a1, a2, a3, a4, a5, a6]" "dst_mac = [b1, b2, b3, b4, b5, b6]"
    by (auto simp: length_Suc_conv numeral_eq_Suc)
  obtain c1 c2 c3 c4 where src: "src = Ipv4 c1 c2 c3 c4" by (cases src)
  obtain d1 d2 d3 d4 where dst: "dst = Ipv4 d1 d2 d3 d4" by (cases dst)
  show ?thesis
    by (simp add: frame_header_new_def write_at_def frame_consts mac src dst Let_def numeral_eq_Suc)
qed

text \<open>A header of the given fields, as it stands in the buffer while it is being stamped.\<close>

definition stamp :: "bytes \<Rightarrow> bytes \<Rightarrow> Ipv4Addr \<Rightarrow> Ipv4Addr \<Rightarrow> u16 \<Rightarrow> u16 \<Rightarrow> u16 \<Rightarrow> u16 \<Rightarrow> u16 \<Rightarrow> bytes" where
  "stamp src_mac dst_mac src dst sp dp tot ck n =
     dst_mac @ src_mac @ [0x08, 0x00] @ ipv4_header0 src dst tot ck @ udp_header_spec sp dp n"

lemma length_stamp:
  "length src_mac = 6 \<Longrightarrow> length dst_mac = 6 \<Longrightarrow> length (stamp src_mac dst_mac src dst sp dp tot ck n) = 42"
  by (simp add: stamp_def ipv4_header0_def udp_header_spec_def)

lemma stamp_update:
  assumes "length src_mac = 6" "length dst_mac = 6"
  shows "(stamp src_mac dst_mac src dst sp dp 0 0 0 @ r)[16 := hi_byte t, 17 := lo_byte t]
      = stamp src_mac dst_mac src dst sp dp t 0 0 @ r"
    and "(stamp src_mac dst_mac src dst sp dp t 0 0 @ r)[24 := hi_byte k, 25 := lo_byte k]
      = stamp src_mac dst_mac src dst sp dp t k 0 @ r"
    and "(stamp src_mac dst_mac src dst sp dp t k 0 @ r)[38 := hi_byte n, 39 := lo_byte n]
      = stamp src_mac dst_mac src dst sp dp t k n @ r"
    and "subslice 14 34 (stamp src_mac dst_mac src dst sp dp t k n @ r) = ipv4_header0 src dst t k"
  using assms
  by (simp_all add: stamp_def ipv4_header0_def udp_header_spec_def list_update_append subslice_def)

lemma tpl_eq_stamp:
  "length src_mac = 6 \<Longrightarrow> length dst_mac = 6 \<Longrightarrow>
     tpl (frame_header_new src_mac dst_mac src dst sp dp) = stamp src_mac dst_mac src dst sp dp 0 0 0"
  by (simp add: frame_header_new_tpl stamp_def ipv4_header0_def udp_header_spec_def)

lemma write_frame_frame_spec:
  assumes macs: "length src_mac = 6" "length dst_mac = 6" and room: "42 + length dns \<le> length out"
  shows "write_frame c (frame_header_new src_mac dst_mac src dst sp dp) out dns =
    Inr (frame_spec src_mac dst_mac src dst sp dp dns @ drop (42 + length dns) out, 42 + length dns)"
proof -
  let ?st = "stamp src_mac dst_mac src dst sp dp"
  define r where "r = drop 42 out"
  let ?n = "of_nat (8 + length dns) :: u16" and ?t = "20 + of_nat (8 + length dns) :: u16"
  let ?k = "ipv4_checksum (ipv4_header0 src dst ?t 0)"
  have "?k = of_nat (65535 - rfc1071_sum (ipv4_header0 src dst ?t 0))"
    by (rule ipv4_checksum_rfc1071) (simp_all add: ipv4_header0_def)
  then have header: "ipv4_header_spec src dst ?t = ipv4_header0 src dst ?t ?k" by (simp add: ipv4_header_spec_def)
  have start: "write_at 0 (?st 0 0 0) out = ?st 0 0 0 @ r"
    using macs by (simp add: write_at_def length_stamp r_def)
  have copy: "memcpy_slices c (subslice 42 (42 + length dns) (?st ?t ?k ?n @ r)) dns = Inr dns"
    using room macs by (simp add: memcpy_slices_eq write_at_def length_stamp r_def)
  have payload: "write_at 42 dns (?st ?t ?k ?n @ r) = ?st ?t ?k ?n @ dns @ drop (42 + length dns) out"
    using macs by (simp add: write_at_def length_stamp r_def add.commute)
  have "frame_spec src_mac dst_mac src dst sp dp dns = ?st ?t ?k ?n @ dns"
    using header by (simp add: frame_spec_def stamp_def)
  then show ?thesis
    using macs room copy payload
    by (simp add: write_frame_def tpl_eq_stamp frame_consts start stamp_update Let_def length_stamp r_def)
qed

lemma length_ipv4_header0 [simp]: "length (ipv4_header0 src dst tot ck) = 20"
  by (simp add: ipv4_header0_def)

lemma length_ipv4_header_spec [simp]: "length (ipv4_header_spec src dst tot) = 20"
  by (simp add: ipv4_header_spec_def)

lemma length_frame_spec [simp]:
  "length src_mac = 6 \<Longrightarrow> length dst_mac = 6 \<Longrightarrow>
     length (frame_spec src_mac dst_mac src dst sp dp payload) = 42 + length payload"
  by (simp add: frame_spec_def udp_header_spec_def)

lemma frame_spec_parts:
  assumes "length src_mac = 6" "length dst_mac = 6"
  shows "subslice 14 34 (frame_spec src_mac dst_mac src dst sp dp p @ r) =
      ipv4_header_spec src dst (of_nat (28 + length p))"
    and "drop 42 (frame_spec src_mac dst_mac src dst sp dp p) = p"
  using assms by (simp_all add: frame_spec_def subslice_def udp_header_spec_def)

text \<open>
  C5. \<^verbatim>\<open>write_frame\<close> writes exactly the intended frame: for every payload that fits the buffer it
  returns the frame length, the buffer starts with the frame laid out field by field as the
  reference says (Ethernet type, IPv4 header with total length and DF, UDP header with
  length, payload), the bytes after the frame keep their values, and the IPv4 header
  is valid in the sense of RFC 1071, whose sum the reference computes on its own.
\<close>

theorem write_frame_correct:
  assumes "length src_mac = 6" "length dst_mac = 6" and "42 + length dns \<le> length out"
  shows "\<exists>buf. write_frame c (frame_header_new src_mac dst_mac src dst sp dp) out dns =
      Inr (buf, 42 + length dns) \<and> length buf = length out \<and>
      take (42 + length dns) buf = frame_spec src_mac dst_mac src dst sp dp dns \<and>
      drop (42 + length dns) buf = drop (42 + length dns) out \<and>
      rfc1071_valid (subslice 14 34 buf)"
  using assms
  by (simp add: write_frame_frame_spec frame_spec_parts ipv4_header_spec_valid)

theorem write_frame_correct_witness:
  "\<exists>buf. write_frame \<lparr>x86_64 = True, avx512f = False, avx2 = True, sse4_2 = True\<rparr>
      (frame_header_new [0, 0x11, 0x22, 0x33, 0x44, 0x55] [0xAA, 0xBB, 0xCC, 0xDD, 0xEE, 0xFF]
        (Ipv4 198 51 100 1) (Ipv4 198 51 100 2) 12345 53) (replicate 60 0) [1, 2, 3] = Inr (buf, 45) \<and>
    subslice 12 14 buf = [0x08, 0x00] \<and> rfc1071_valid (subslice 14 34 buf) \<and>
    subslice 42 45 buf = [1, 2, 3]"
proof -
  let ?f = "frame_spec [0, 0x11, 0x22, 0x33, 0x44, 0x55] [0xAA, 0xBB, 0xCC, 0xDD, 0xEE, 0xFF]
        (Ipv4 198 51 100 1) (Ipv4 198 51 100 2) 12345 53 [1, 2, 3]"
  obtain buf where buf: "write_frame \<lparr>x86_64 = True, avx512f = False, avx2 = True, sse4_2 = True\<rparr>
      (frame_header_new [0, 0x11, 0x22, 0x33, 0x44, 0x55] [0xAA, 0xBB, 0xCC, 0xDD, 0xEE, 0xFF]
        (Ipv4 198 51 100 1) (Ipv4 198 51 100 2) 12345 53) (replicate 60 0) [1, 2, 3] = Inr (buf, 45)"
    "take 45 buf = ?f" "drop 45 buf = replicate 15 0" "rfc1071_valid (subslice 14 34 buf)"
    using write_frame_correct [of "[0, 0x11, 0x22, 0x33, 0x44, 0x55]"
      "[0xAA, 0xBB, 0xCC, 0xDD, 0xEE, 0xFF]" "[1, 2, 3]" "replicate 60 0"
      "\<lparr>x86_64 = True, avx512f = False, avx2 = True, sse4_2 = True\<rparr>"
      "Ipv4 198 51 100 1" "Ipv4 198 51 100 2" 12345 53] by auto
  have "buf = ?f @ replicate 15 0" using buf(2,3) append_take_drop_id [of 45 buf] by simp
  then have "subslice 12 14 buf = [0x08, 0x00]" "subslice 42 45 buf = [1, 2, 3]"
    by (simp_all add: subslice_def frame_spec_def udp_header_spec_def)
  with buf show ?thesis by blast
qed

text \<open>
  C38. A payload that does not fit the buffer makes \<^verbatim>\<open>write_frame\<close> panic: nothing checks the
  length before the slice \<^verbatim>\<open>out[OUTER_HDR..total]\<close> is taken.
\<close>

theorem write_frame_too_long:
  assumes "length src_mac = 6" "length dst_mac = 6" and "length out < 42 + length dns"
  shows "write_frame c (frame_header_new src_mac dst_mac src dst sp dp) out dns = Inl IndexOutOfBounds"
proof (cases "length out < 42")
  case False
  then show ?thesis
    using assms by (simp add: write_frame_def frame_consts Let_def tpl_eq_stamp length_stamp)
qed (simp add: write_frame_def frame_consts Let_def)

theorem write_frame_too_long_witness:
  "write_frame \<lparr>x86_64 = True, avx512f = False, avx2 = True, sse4_2 = True\<rparr>
     (frame_header_new (replicate 6 1) (replicate 6 2) (Ipv4 10 0 0 1) (Ipv4 10 0 0 2) 40000 5201)
     (replicate 4096 0) (replicate 4055 7) = Inl IndexOutOfBounds"
  by (rule write_frame_too_long) simp_all

end
