(* ===== verification/Pacing.thy ===== *)
theory Pacing
  imports Rust_Prelude
begin

text \<open>
  The send-rate cap, the same code in the UDP client (\<^verbatim>\<open>src/net.rs\<close>) and in the AF_XDP generator
  (\<^verbatim>\<open>src/xdp/gen.rs\<close>): a worker counts what it sent since \<^verbatim>\<open>sec_start\<close>; at its budget it sleeps
  for the rest of the second and starts a new one.  Instants are natural numbers of nanoseconds.
  The theorem bounds what a worker sends before a deadline, for every behaviour of the clock
  that Rust's documentation allows.
\<close>

section \<open>The code\<close>

definition SECOND :: nat where "SECOND = 1000000000"

record pacer =
  sent_sec :: u64
  sec_start :: nat

text \<open>The budget of one worker: \<^verbatim>\<open>if target_pps == 0 { 0 } else { (target_pps / n).max(1) }\<close>.\<close>

definition pps_per :: "u64 \<Rightarrow> u64 \<Rightarrow> u64 may_panic" where
  "pps_per target_pps n =
     (if target_pps = 0 then Inr 0
      else if n = 0 then Inl DivisionByZero
      else Inr (max (target_pps div n) 1))"

text \<open>\<open>now_el\<close> is the time at \<^verbatim>\<open>sec_start.elapsed()\<close>, \<open>now_restart\<close> at the \<^verbatim>\<open>Instant::now()\<close> after the
  sleep.  The second result is the time slept.\<close>

definition pace :: "u64 \<Rightarrow> nat \<Rightarrow> nat \<Rightarrow> pacer \<Rightarrow> pacer \<times> nat" where
  "pace pps now_el now_restart p =
     (if pps > 0 \<and> sent_sec p \<ge> pps then
        (let el = now_el - sec_start p
         in (\<lparr>sent_sec = 0, sec_start = now_restart\<rparr>, if el < SECOND then SECOND - el else 0))
      else (p, 0))"

section \<open>A paced loop\<close>

text \<open>One turn of a loop as the pacer sees it: the time of the deadline check, the number of packets
  sent, and the two clock readings.\<close>

record tick =
  tk_now :: nat
  tk_sent :: nat
  tk_el :: nat
  tk_restart :: nat

definition paced_turn :: "u64 \<Rightarrow> tick \<Rightarrow> pacer \<Rightarrow> pacer" where
  "paced_turn pps t p = fst (pace pps (tk_el t) (tk_restart t) (p\<lparr>sent_sec := sent_sec p + of_nat (tk_sent t)\<rparr>))"

fun paced :: "u64 \<Rightarrow> nat \<Rightarrow> tick list \<Rightarrow> pacer \<Rightarrow> nat \<Rightarrow> pacer \<times> nat" where
  "paced pps deadline [] p n = (p, n)"
| "paced pps deadline (t # ts) p n =
     (if tk_now t < deadline then paced pps deadline ts (paced_turn pps t p) (n + tk_sent t) else (p, n))"

lemma paced_shift: "paced pps deadline ts p n = (fst (paced pps deadline ts p 0), n + snd (paced pps deadline ts p 0))"
proof (induction ts arbitrary: p n)
  case (Cons t ts)
  show ?case
    using Cons [of "paced_turn pps t p" "n + tk_sent t"] Cons [of "paced_turn pps t p" "tk_sent t"] by simp
qed simp

text \<open>What Rust documents of \<^verbatim>\<open>Instant\<close> and \<^verbatim>\<open>thread::sleep\<close>: instants do not go backwards, and a sleep lasts
  at least as long as asked.\<close>

fun clock_ok :: "u64 \<Rightarrow> tick list \<Rightarrow> pacer \<Rightarrow> bool" where
  "clock_ok pps [] p \<longleftrightarrow> True"
| "clock_ok pps (t # ts) p \<longleftrightarrow>
     sec_start p \<le> tk_now t \<and> tk_now t \<le> tk_el t \<and>
     tk_el t + snd (pace pps (tk_el t) (tk_restart t) (p\<lparr>sent_sec := sent_sec p + of_nat (tk_sent t)\<rparr>)) \<le> tk_restart t \<and>
     clock_ok pps ts (paced_turn pps t p)"

section \<open>The bound\<close>

text \<open>\<open>w\<close> whole seconds have gone by since \<open>start\<close>, in each of which the budget was overrun by at most one
  batch.\<close>

definition window_inv :: "nat \<Rightarrow> nat \<Rightarrow> nat \<Rightarrow> nat \<Rightarrow> pacer \<Rightarrow> nat \<Rightarrow> bool" where
  "window_inv b start budget w p n \<longleftrightarrow>
     start + w * SECOND \<le> sec_start p \<and> unat (sent_sec p) < budget \<and> n \<le> w * (budget + b - 1) + unat (sent_sec p)"

lemma paced_turn_window:
  assumes inv: "window_inv b start (unat pps) w p n"
    and sent: "tk_sent t \<le> b" and room: "unat pps + b \<le> 2 ^ 64"
    and clock: "clock_ok pps [t] p"
  shows "\<exists>w' \<le> Suc w. window_inv b start (unat pps) w' (paced_turn pps t p) (n + tk_sent t)"
proof -
  define s where "s = unat (sent_sec p)"
  have i: "start + w * SECOND \<le> sec_start p" "s < unat pps" "n \<le> w * (unat pps + b - 1) + s"
    using inv by (simp_all add: window_inv_def s_def)
  have "unat (of_nat (tk_sent t) :: u64) = tk_sent t"
    using sent room i(2) by (intro unat_of_nat_small) simp
  then have sum: "unat (sent_sec p + of_nat (tk_sent t)) = s + tk_sent t"
    using sent room i(2) by (subst unat_add_small) (simp_all add: s_def)
  have full: "pps > 0 \<and> sent_sec p + of_nat (tk_sent t) \<ge> pps \<longleftrightarrow> unat pps \<le> s + tk_sent t"
    using i(2) by (simp add: word_le_nat_alt word_less_nat_alt sum)
  show ?thesis
  proof (cases "unat pps \<le> s + tk_sent t")
    case True
    with full have reset: "paced_turn pps t p = \<lparr>sent_sec = 0, sec_start = tk_restart t\<rparr>"
      by (simp add: paced_turn_def pace_def Let_def)
    have "tk_el t + (if tk_el t - sec_start p < SECOND then SECOND - (tk_el t - sec_start p) else 0) \<le> tk_restart t"
      "sec_start p \<le> tk_el t"
      using clock True full by (simp_all add: pace_def Let_def)
    then have "sec_start p + SECOND \<le> tk_restart t" by (simp split: if_splits)
    moreover have "n + tk_sent t \<le> w * (unat pps + b - 1) + (unat pps + b - 1)"
      using i(2,3) sent by linarith
    ultimately have "window_inv b start (unat pps) (Suc w) (paced_turn pps t p) (n + tk_sent t)"
      using i(1,2) by (simp add: window_inv_def reset)
    then show ?thesis by blast
  next
    case False
    with full have "paced_turn pps t p = p\<lparr>sent_sec := sent_sec p + of_nat (tk_sent t)\<rparr>"
      by (auto simp: paced_turn_def pace_def)
    then have "window_inv b start (unat pps) w (paced_turn pps t p) (n + tk_sent t)"
      using i(1,3) False by (simp add: window_inv_def sum)
    then show ?thesis by (intro exI [of _ w]) simp
  qed
qed

lemma paced_bound:
  assumes "window_inv b start (unat pps) w p n" "w * SECOND < d * SECOND"
    and "list_all (\<lambda>t. tk_sent t \<le> b) ts" "unat pps + b \<le> 2 ^ 64"
    and "clock_ok pps ts p"
  shows "snd (paced pps (start + d * SECOND) ts p n) \<le> d * (unat pps + b - 1)"
  using assms
proof (induction ts arbitrary: p n w)
  case Nil
  then have "Suc w \<le> d" by simp
  then have "Suc w * (unat pps + b - 1) \<le> d * (unat pps + b - 1)" by (rule mult_le_mono1)
  then show ?case using Nil.prems(1) by (auto simp: window_inv_def)
next
  case (Cons t ts)
  show ?case
  proof (cases "tk_now t < start + d * SECOND")
    case True
    have "clock_ok pps [t] p" using Cons.prems(5) by simp
    then obtain w' where w': "w' \<le> Suc w" "window_inv b start (unat pps) w' (paced_turn pps t p) (n + tk_sent t)"
      using paced_turn_window [of b start pps w p n t] Cons.prems by auto
    show ?thesis
    proof (cases "w' < d")
      case True
      then have "w' * SECOND < d * SECOND" by (simp add: SECOND_def)
      with w' Cons \<open>tk_now t < start + d * SECOND\<close> show ?thesis by simp
    next
      case False
      have le: "n + tk_sent t \<le> d * (unat pps + b - 1)"
      proof -
        have "Suc w \<le> d" using Cons.prems(2) by simp
        then have "Suc w * (unat pps + b - 1) \<le> d * (unat pps + b - 1)" by (rule mult_le_mono1)
        moreover have "n + tk_sent t \<le> Suc w * (unat pps + b - 1)"
          using Cons.prems(1,3) by (auto simp: window_inv_def)
        ultimately show ?thesis by linarith
      qed
      have start: "start + d * SECOND \<le> sec_start (paced_turn pps t p)"
      proof -
        have "d * SECOND \<le> w' * SECOND" using False by (intro mult_le_mono1) simp
        moreover have "start + w' * SECOND \<le> sec_start (paced_turn pps t p)"
          using w'(2) unfolding window_inv_def by blast
        ultimately show ?thesis by linarith
      qed
      have "snd (paced pps (start + d * SECOND) ts (paced_turn pps t p) (n + tk_sent t)) = n + tk_sent t"
        using start Cons.prems(5) by (cases ts) auto
      with le \<open>tk_now t < start + d * SECOND\<close> show ?thesis by simp
    qed
  next
    case False
    have "Suc w \<le> d" using Cons.prems(2) by simp
    then have "Suc w * (unat pps + b - 1) \<le> d * (unat pps + b - 1)" by (rule mult_le_mono1)
    with False Cons.prems(1) show ?thesis by (auto simp: window_inv_def)
  qed
qed

text \<open>The budgets of the workers never add up to more than the requested rate, except that every worker
  has at least one packet per second; no cap is asked for exactly when the budget is zero.\<close>

lemma pps_per_budget:
  assumes "n \<noteq> 0" "pps_per target n = Inr b"
  shows "(b = 0 \<longleftrightarrow> target = 0) \<and> unat n * unat b \<le> max (unat target) (unat n)"
proof (cases "target = 0")
  case False
  have b: "b = max (target div n) 1" using assms False by (simp add: pps_per_def)
  then have "unat b = max (unat target div unat n) 1"
    by (auto simp: max_def word_le_nat_alt unat_div_distrib)
  moreover have "unat n * (unat target div unat n) \<le> unat target" by simp
  ultimately have "unat n * unat b \<le> max (unat target) (unat n)"
    by (cases "unat target div unat n \<le> 1") (simp_all add: max_absorb1 max_absorb2 le_max_iff_disj)
  moreover have "b \<noteq> 0"
    using b by (auto simp: max_def word_le_nat_alt)
  ultimately show ?thesis using False by simp
qed (use assms in \<open>simp add: pps_per_def\<close>)

end
