(* ===== verification/Affinity.thy ===== *)
theory Affinity
  imports Rust_Str
begin

text \<open>
  CPU pinning and CPU lists, \<^verbatim>\<open>src/affinity.rs\<close>.  CPU numbers are \<^verbatim>\<open>usize\<close> values below
  \<open>2\<^sup>6\<^sup>4\<close>, held as \<open>nat\<close>.  The scheduler calls, \<^verbatim>\<open>libc::CPU_SET\<close> and the sysfs files are
  parameters.  The main result is the round trip: the list syntax of Linux, printed from any
  sequence of single CPUs and ranges, reads back as exactly those CPUs.
\<close>

definition CPU_SETSIZE :: nat where
  "CPU_SETSIZE = 1024"

text \<open>\<open>getaff\<close> is the set filled in by \<^verbatim>\<open>sched_getaffinity\<close>, \<open>None\<close> when it fails.\<close>

definition online_cpus :: "(nat \<Rightarrow> bool) option \<Rightarrow> nat list" where
  "online_cpus getaff =
     (let v = (case getaff of None \<Rightarrow> [] | Some isset \<Rightarrow> filter isset [0..<CPU_SETSIZE])
      in if v = [] then [0] else v)"

text \<open>\<open>cpu_set\<close> is \<^verbatim>\<open>libc::CPU_SET\<close> on an empty set, \<open>setaff\<close> is \<^verbatim>\<open>sched_setaffinity\<close>.\<close>

definition pin_to_cpu :: "(nat \<Rightarrow> 'mask may_panic) \<Rightarrow> ('mask \<Rightarrow> int) \<Rightarrow> nat \<Rightarrow> bool may_panic" where
  "pin_to_cpu cpu_set setaff cpu =
     (case cpu_set cpu of Inl p \<Rightarrow> Inl p | Inr m \<Rightarrow> Inr (setaff m = 0))"

definition cpulist_part :: "string \<Rightarrow> nat list" where
  "cpulist_part p =
     (let part = trim p in
      if part = [] then []
      else case split_once CHR ''-'' part of
             Some (a, b) \<Rightarrow>
               (case (parse_usize (trim a), parse_usize (trim b)) of
                  (Some x, Some y) \<Rightarrow> [x..<Suc y]
                | _ \<Rightarrow> [])
           | None \<Rightarrow> (case parse_usize part of Some c \<Rightarrow> [c] | None \<Rightarrow> []))"

definition parse_cpulist :: "string \<Rightarrow> nat list" where
  "parse_cpulist s = concat (map cpulist_part (split_on CHR '','' s))"

text \<open>\<open>read_file\<close> is \<^verbatim>\<open>fs::read_to_string\<close>.\<close>

definition numa_cpus :: "(string \<Rightarrow> string option) \<Rightarrow> nat \<Rightarrow> nat list" where
  "numa_cpus read_file node =
     (case read_file (''/sys/devices/system/node/node'' @ show_nat node @ ''/cpulist'') of
        Some s \<Rightarrow> parse_cpulist (trim s)
      | None \<Rightarrow> [])"

definition resolve_cpus :: "(string \<Rightarrow> string option) \<Rightarrow> string option \<Rightarrow> nat option \<Rightarrow> nat list" where
  "resolve_cpus read_file cpus numa =
     (case cpus of
        Some list \<Rightarrow> parse_cpulist list
      | None \<Rightarrow> (case numa of Some n \<Rightarrow> numa_cpus read_file n | None \<Rightarrow> []))"

section \<open>The printed form\<close>

text \<open>The kernel's list format: single CPUs and inclusive ranges, separated by commas.\<close>

datatype cpu_item = One nat | Range nat nat

fun show_item :: "cpu_item \<Rightarrow> string" where
  "show_item (One c) = show_nat c"
| "show_item (Range a b) = show_nat a @ ''-'' @ show_nat b"

fun item_cpus :: "cpu_item \<Rightarrow> nat list" where
  "item_cpus (One c) = [c]"
| "item_cpus (Range a b) = [a..<Suc b]"

fun item_ok :: "cpu_item \<Rightarrow> bool" where
  "item_ok (One c) \<longleftrightarrow> c < 2 ^ 64"
| "item_ok (Range a b) \<longleftrightarrow> a < 2 ^ 64 \<and> b < 2 ^ 64"

fun show_cpulist :: "cpu_item list \<Rightarrow> string" where
  "show_cpulist [] = []"
| "show_cpulist [i] = show_item i"
| "show_cpulist (i # is) = show_item i @ '','' @ show_cpulist is"

lemma show_nat_chars: "c \<in> set (show_nat n) \<Longrightarrow> is_digit_char c"
  by (rule show_radix_digits) simp_all

lemma show_nat_facts:
  "trim (show_nat n) = show_nat n" "CHR ''-'' \<notin> set (show_nat n)" "CHR '','' \<notin> set (show_nat n)"
  using show_nat_chars [of _ n] is_digit_char_not_space is_digit_char_not_punct
  by (auto intro: trim_id)

lemma item_chars: "c \<in> set (show_item i) \<Longrightarrow> \<not> is_whitespace c \<and> c \<noteq> CHR '',''"
proof (cases i)
  case (One n)
  assume "c \<in> set (show_item i)"
  with One show ?thesis
    using show_nat_chars [of c n] is_digit_char_not_space is_digit_char_not_punct by auto
next
  case (Range a b)
  assume "c \<in> set (show_item i)"
  with Range consider "c \<in> set (show_nat a)" | "c = CHR ''-''" | "c \<in> set (show_nat b)" by auto
  then show ?thesis
    using show_nat_chars [of c] is_digit_char_not_space is_digit_char_not_punct
    by cases (auto simp: is_whitespace_def)
qed

lemma show_item_not_Nil [simp]: "show_item i \<noteq> []"
  by (cases i) auto

lemma cpulist_part_show: "item_ok i \<Longrightarrow> cpulist_part (show_item i) = item_cpus i"
proof -
  assume ok: "item_ok i"
  have "trim (show_item i) = show_item i" using item_chars by (auto intro: trim_id)
  with ok show ?thesis
    by (cases i) (simp_all add: cpulist_part_def show_nat_facts split_once_append split_once_None
        from_str_radix_show)
qed

text \<open>A comma separates: the halves are read independently, malformed parts are skipped.\<close>

lemma parse_cpulist_append: "parse_cpulist (s @ '','' @ t) = parse_cpulist s @ parse_cpulist t"
  by (simp add: parse_cpulist_def split_on_append)

lemma parse_cpulist_item: "item_ok i \<Longrightarrow> parse_cpulist (show_item i) = item_cpus i"
proof -
  assume ok: "item_ok i"
  have "split_on CHR '','' (show_item i) = [show_item i]"
    using item_chars by (intro split_on_no_sep) blast
  with ok show ?thesis by (simp add: parse_cpulist_def cpulist_part_show)
qed

lemma parse_cpulist_Nil: "parse_cpulist [] = []"
  by (simp add: parse_cpulist_def split_on_def cpulist_part_def trim_def trim_start_def trim_end_def)

lemma parse_cpulist_printed:
  "list_all item_ok is \<Longrightarrow> parse_cpulist (show_cpulist is) = concat (map item_cpus is)"
proof (induction "is" rule: show_cpulist.induct)
  case (3 i j js)
  then show ?case
    using parse_cpulist_append [of "show_item i" "show_cpulist (j # js)"]
    by (simp add: parse_cpulist_item)
qed (simp_all add: parse_cpulist_item parse_cpulist_Nil)

lemma show_cpulist_chars: "c \<in> set (show_cpulist is) \<Longrightarrow> \<not> is_whitespace c"
proof (induction "is" rule: show_cpulist.induct)
  case (3 i j js)
  then show ?case using item_chars [of c i] by (auto simp: is_whitespace_def)
qed (use item_chars in auto)

lemma trim_show_cpulist: "trim (show_cpulist is @ [newline]) = show_cpulist is"
proof (cases "show_cpulist is = []")
  case True
  then show ?thesis
    by (simp add: trim_def trim_start_def trim_end_def is_whitespace_def newline_def)
next
  case False
  with show_cpulist_chars show ?thesis
    by (intro trim_append_space) (simp_all add: is_whitespace_def newline_def)
qed

text \<open>
  C30. Every CPU list that the kernel's format can express is read back exactly: parsing the
  printed list yields the listed CPUs, ranges expanded inclusively, in order, for all 64-bit
  CPU numbers; and the same for a NUMA node whose sysfs file holds the list and a newline.
\<close>

theorem parse_cpulist_show:
  assumes "list_all item_ok is"
    and "read_file (''/sys/devices/system/node/node'' @ show_nat node @ ''/cpulist'')
       = Some (show_cpulist is @ [newline])"
  shows "parse_cpulist (show_cpulist is) = concat (map item_cpus is) \<and>
    numa_cpus read_file node = concat (map item_cpus is)"
  using assms by (simp add: numa_cpus_def trim_show_cpulist parse_cpulist_printed)

theorem parse_cpulist_show_witness:
  "parse_cpulist (show_cpulist [Range 0 3, One 8, Range 10 11]) = [0, 1, 2, 3, 8, 10, 11] \<and>
   show_cpulist [Range 0 3, One 8, Range 10 11] = ''0-3,8,10-11'' \<and>
   numa_cpus (\<lambda>_. Some (show_cpulist [Range 0 3, One 8, Range 10 11] @ [newline])) 1
     = [0, 1, 2, 3, 8, 10, 11]"
proof -
  let ?is = "[Range 0 3, One 8, Range 10 11]"
  have printed: "show_cpulist ?is = ''0-3,8,10-11''"
    by code_simp
  have cpus: "concat (map item_cpus ?is) = [0, 1, 2, 3, 8, 10, 11]"
    by (simp add: upt_rec)
  have "parse_cpulist (show_cpulist ?is) = concat (map item_cpus ?is) \<and>
      numa_cpus (\<lambda>_. Some (show_cpulist ?is @ [newline])) 1 = concat (map item_cpus ?is)"
    by (rule parse_cpulist_show) simp_all
  with printed show ?thesis unfolding cpus by blast
qed

lemma online_cpus_not_Nil [simp]: "online_cpus getaff \<noteq> []"
  by (simp add: online_cpus_def Let_def)

lemma online_cpus_range: "c \<in> set (online_cpus getaff) \<Longrightarrow> c < CPU_SETSIZE"
  by (auto simp: online_cpus_def CPU_SETSIZE_def Let_def split: if_splits option.splits)

end
