(* ===== verification/Iface.thy ===== *)
theory Iface
  imports Frame
begin

unbundle bit_operations_syntax

text \<open>
  Interface and neighbour discovery: the parts of \<^verbatim>\<open>src/xdp/frame.rs\<close> (MAC addresses, ARP
  table, local address) and \<^verbatim>\<open>src/xdp/socket.rs\<close> (subnet match, routing table, virtual
  interfaces, queue counts) that read \<^verbatim>\<open>getifaddrs\<close>, \<^verbatim>\<open>/proc\<close> and \<^verbatim>\<open>/sys\<close>.  Files,
  directories and links are parameters.  The theorems: MAC round trip, bounded ARP
  resolution, the routing lookup as longest-prefix match, subnet lookup, and the search for
  a physical interface.
\<close>

section \<open>MAC addresses\<close>

definition parse_mac :: "string \<Rightarrow> bytes option" where
  "parse_mac s =
     (let p = split_on CHR '':'' s in
      if length p \<noteq> 6 then None
      else those (map (\<lambda>x. map_option of_nat (from_str_radix 16 8 x)) p))"

definition local_mac :: "(string \<Rightarrow> string option) \<Rightarrow> string \<Rightarrow> bytes option" where
  "local_mac read_file iface =
     (case read_file (''/sys/class/net/'' @ iface @ ''/address'') of
        None \<Rightarrow> None
      | Some s \<Rightarrow> parse_mac (trim s))"

text \<open>The form sysfs and the ARP table print: two hexadecimal digits each, colons between.\<close>

definition show_hex2 :: "u8 \<Rightarrow> string" where
  "show_hex2 b = [digit_char (unat b div 16), digit_char (unat b mod 16)]"

fun show_mac :: "bytes \<Rightarrow> string" where
  "show_mac [] = []"
| "show_mac [b] = show_hex2 b"
| "show_mac (b # bs) = show_hex2 b @ '':'' @ show_mac bs"

lemma hex_digits_bound: "unat (b :: u8) div 16 < 16" "unat (b :: u8) mod 16 < 16"
  using unat_u8_lt [of b] by linarith simp

lemma show_hex2_chars: "c \<in> set (show_hex2 b) \<Longrightarrow> is_digit_char c"
  using hex_digits_bound [of b] by (auto simp: show_hex2_def intro!: is_digit_char_digit_char)

lemma from_show_hex2: "from_str_radix 16 8 (show_hex2 b) = Some (unat b)"
proof -
  have "digits_value 16 0 (show_hex2 b) = Some (unat b)"
    using hex_digits_bound [of b] by (simp add: show_hex2_def to_digit_digit_char)
  moreover have "hd (show_hex2 b) \<noteq> CHR ''+''" "show_hex2 b \<noteq> []"
    using is_digit_char_not_punct [OF show_hex2_chars, of "hd (show_hex2 b)" b]
    by (auto simp: show_hex2_def)
  moreover have "unat b < 2 ^ 8" using unat_u8_lt [of b] by simp
  ultimately show ?thesis by (simp add: from_str_radix_def)
qed

lemma split_show_mac: "bs \<noteq> [] \<Longrightarrow> split_on CHR '':'' (show_mac bs) = map show_hex2 bs"
proof (induction bs rule: show_mac.induct)
  case (2 b)
  show ?case
    using show_hex2_chars is_digit_char_not_punct by (auto intro!: split_on_no_sep)
next
  case (3 b b' bs)
  have "split_on CHR '':'' (show_hex2 b) = [show_hex2 b]"
    using show_hex2_chars is_digit_char_not_punct by (auto intro!: split_on_no_sep)
  with 3 show ?case by (simp add: split_on_append)
qed simp

lemma show_mac_no_space: "c \<in> set (show_mac bs) \<Longrightarrow> \<not> is_whitespace c"
proof (induction bs rule: show_mac.induct)
  case (2 b)
  then show ?case using show_hex2_chars is_digit_char_not_space by auto
next
  case (3 b b' bs)
  then show ?case using show_hex2_chars is_digit_char_not_space by (auto simp: is_whitespace_def)
qed simp

lemma show_mac_not_Nil: "bs \<noteq> [] \<Longrightarrow> show_mac bs \<noteq> []"
  by (induction bs rule: show_mac.induct) (auto simp: show_hex2_def)

lemma those_map_Some: "(\<And>x. x \<in> set xs \<Longrightarrow> f x = Some (g x)) \<Longrightarrow> those (map f xs) = Some (map g xs)"
  by (induction xs) auto

lemma parse_show_mac:
  assumes "length m = 6"
  shows "parse_mac (show_mac m) = Some m"
proof -
  have "split_on CHR '':'' (show_mac m) = map show_hex2 m"
    using assms by (intro split_show_mac) auto
  then show ?thesis
    using assms by (simp add: parse_mac_def from_show_hex2 those_map_Some [where g = id] comp_def)
qed

section \<open>IPv4 addresses and byte order\<close>

definition swap_bytes :: "u32 \<Rightarrow> u32" where
  "swap_bytes w = push_bit 24 (w AND 0xFF) OR push_bit 8 (w AND 0xFF00)
     OR (drop_bit 8 w AND 0xFF00) OR drop_bit 24 w"

text \<open>\<^verbatim>\<open>u32::from(Ipv4Addr)\<close> and \<^verbatim>\<open>Ipv4Addr::from(u32)\<close>; \<^verbatim>\<open>u32::from_be\<close> on the
  little-endian targets of the project is a byte swap.\<close>

fun ipv4_to_u32 :: "Ipv4Addr \<Rightarrow> u32" where
  "ipv4_to_u32 (Ipv4 a b c d) =
     push_bit 24 (ucast a) OR push_bit 16 (ucast b) OR push_bit 8 (ucast c) OR ucast d"

definition ipv4_of_u32 :: "u32 \<Rightarrow> Ipv4Addr" where
  "ipv4_of_u32 w = Ipv4 (ucast (drop_bit 24 w)) (ucast (drop_bit 16 w)) (ucast (drop_bit 8 w)) (ucast w)"

fun show_ipv4 :: "Ipv4Addr \<Rightarrow> string" where
  "show_ipv4 (Ipv4 a b c d) =
     show_nat (unat a) @ ''.'' @ show_nat (unat b) @ ''.'' @ show_nat (unat c) @ ''.'' @ show_nat (unat d)"

definition is_loopback_v4 :: "Ipv4Addr \<Rightarrow> bool" where
  "is_loopback_v4 ip \<longleftrightarrow> hd (octets ip) = 127"

lemma byte_masks: "(0xFF :: u32) = mask 8" "(0xFF00 :: u32) = push_bit 8 (mask 8)"
  by (simp_all add: mask_eq_exp_minus_1 push_bit_eq_mult)

lemma bit_swap_bytes:
  "n < 32 \<Longrightarrow> bit (swap_bytes w) n \<longleftrightarrow>
     bit w (if n < 8 then n + 24 else if n < 16 then n + 8 else if n < 24 then n - 8 else n - 24)"
  unfolding swap_bytes_def byte_masks
  using bit_beyond_word [of "n + 24" w] by (auto simp: bit_simps add.commute)

lemma swap_bytes_swap [simp]: "swap_bytes (swap_bytes w) = w"
  by (rule bit_word_eqI) (auto simp: bit_swap_bytes)

lemma swap_bytes_and: "swap_bytes (v AND w) = swap_bytes v AND swap_bytes w"
  by (rule bit_word_eqI) (auto simp: bit_swap_bytes bit_simps)

lemma swap_bytes_inj: "swap_bytes v = swap_bytes w \<longleftrightarrow> v = w"
  by (metis swap_bytes_swap)

lemma ipv4_of_to_u32 [simp]: "ipv4_of_u32 (ipv4_to_u32 ip) = ip"
proof (cases ip)
  case (Ipv4 a b c d)
  have "ucast (drop_bit 24 (ipv4_to_u32 ip)) = a" "ucast (drop_bit 16 (ipv4_to_u32 ip)) = b"
    "ucast (drop_bit 8 (ipv4_to_u32 ip)) = c" "ucast (ipv4_to_u32 ip) = d"
    by (auto simp: Ipv4 bit_simps bit_beyond_word intro!: bit_word_eqI)
  with Ipv4 show ?thesis by (simp add: ipv4_of_u32_def)
qed
section \<open>The ARP table\<close>

fun arp_scan :: "string \<Rightarrow> string list \<Rightarrow> bytes option" where
  "arp_scan target [] = None"
| "arp_scan target (line # rest) =
     (case split_whitespace line of
        [] \<Rightarrow> None
      | ip # cols \<Rightarrow>
          if ip \<noteq> target then arp_scan target rest
          else (case cols of
                  _ # fl # cols' \<Rightarrow>
                    if fl = ''0x0'' then None
                    else (case cols' of [] \<Rightarrow> None | mac # _ \<Rightarrow> parse_mac mac)
                | _ \<Rightarrow> None))"

definition lookup_arp :: "string option \<Rightarrow> Ipv4Addr \<Rightarrow> bytes option" where
  "lookup_arp arp_file server =
     (case arp_file of None \<Rightarrow> None
      | Some content \<Rightarrow> arp_scan (show_ipv4 server) (drop 1 (lines content)))"

text \<open>The table changes while the code waits: \<open>arp k\<close> is its content at the \<open>k\<close>-th look.  The
  retry loop gives the number of looks made beside its result.\<close>

fun arp_retry :: "(nat \<Rightarrow> string option) \<Rightarrow> Ipv4Addr \<Rightarrow> nat \<Rightarrow> nat \<Rightarrow> nat \<times> bytes option" where
  "arp_retry arp server k 0 = (k, None)"
| "arp_retry arp server k (Suc n) =
     (case lookup_arp (arp k) server of
        Some m \<Rightarrow> (Suc k, Some m)
      | None \<Rightarrow> arp_retry arp server (Suc k) n)"

text \<open>Number of looks, whether \<^verbatim>\<open>trigger_arp\<close> was called, the result.\<close>

definition resolve_server_mac :: "(nat \<Rightarrow> string option) \<Rightarrow> Ipv4Addr \<Rightarrow> nat \<times> bool \<times> bytes option" where
  "resolve_server_mac arp server =
     (case lookup_arp (arp 0) server of
        Some m \<Rightarrow> (1, False, Some m)
      | None \<Rightarrow> (case arp_retry arp server 1 5 of (k, r) \<Rightarrow> (k, True, r)))"

text \<open>The looks that find nothing; the search ends at the first one that finds an entry.\<close>

lemma arp_retry_looks:
  "arp_retry arp server k n =
     (let f = length (takeWhile (\<lambda>i. lookup_arp (arp i) server = None) [k..<k + n])
      in (k + min n (Suc f), if f < n then lookup_arp (arp (k + f)) server else None))"
proof (induction n arbitrary: k)
  case (Suc n)
  have "[k..<k + Suc n] = k # [Suc k..<Suc k + n]" by (simp add: upt_conv_Cons)
  with Suc show ?case by (simp add: Let_def split: option.splits)
qed simp

section \<open>Interface addresses\<close>

text \<open>One entry of the \<^verbatim>\<open>getifaddrs\<close> list.  The name is \<open>None\<close> where it is not UTF-8; the address
  and the netmask are \<open>None\<close> where the pointer is null, else the family and, for \<^verbatim>\<open>AF_INET\<close>, the
  32 bits of \<^verbatim>\<open>sin_addr.s_addr\<close> as the host reads them.\<close>

record ifaddr =
  ifa_name :: "string option"
  ifa_addr :: "(int \<times> u32) option"
  ifa_netmask :: "(int \<times> u32) option"

definition AF_INET :: int where "AF_INET = 2"

fun local_ipv4_scan :: "string \<Rightarrow> ifaddr list \<Rightarrow> Ipv4Addr option" where
  "local_ipv4_scan iface [] = None"
| "local_ipv4_scan iface (ifa # rest) =
     (case ifa_addr ifa of
        None \<Rightarrow> local_ipv4_scan iface rest
      | Some (fam, s_addr) \<Rightarrow>
          if fam \<noteq> AF_INET then local_ipv4_scan iface rest
          else let nm = (case ifa_name ifa of Some n \<Rightarrow> n | None \<Rightarrow> []) in
               if nm \<noteq> iface then local_ipv4_scan iface rest
               else Some (ipv4_of_u32 (swap_bytes s_addr)))"

definition local_ipv4 :: "ifaddr list option \<Rightarrow> string \<Rightarrow> Ipv4Addr option" where
  "local_ipv4 ifs iface = (case ifs of None \<Rightarrow> None | Some l \<Rightarrow> local_ipv4_scan iface l)"

fun subnet_scan :: "u32 \<Rightarrow> ifaddr list \<Rightarrow> string option" where
  "subnet_scan server [] = None"
| "subnet_scan server (ifa # rest) =
     (case (ifa_addr ifa, ifa_netmask ifa) of
        (Some (fam, a), Some (_, mk)) \<Rightarrow>
          if fam \<noteq> AF_INET then subnet_scan server rest
          else let iface_u32 = swap_bytes a; mask_u32 = swap_bytes mk in
               if mask_u32 = 0 then subnet_scan server rest
               else (case ifa_name ifa of
                       None \<Rightarrow> subnet_scan server rest
                     | Some name \<Rightarrow>
                         if name = ''lo'' then subnet_scan server rest
                         else if (iface_u32 AND mask_u32) = (server AND mask_u32) then Some name
                         else subnet_scan server rest)
      | _ \<Rightarrow> subnet_scan server rest)"

definition getifaddrs_iface_for_subnet :: "ifaddr list option \<Rightarrow> Ipv4Addr \<Rightarrow> string option" where
  "getifaddrs_iface_for_subnet ifs server =
     (case ifs of None \<Rightarrow> None | Some l \<Rightarrow> subnet_scan (ipv4_to_u32 server) l)"

section \<open>The routing table\<close>

definition count_ones :: "u32 \<Rightarrow> nat" where
  "count_ones w = length (filter (bit w) [0..<32])"

text \<open>One line: the interface, the destination and the mask columns; \<open>None\<close> is the \<^verbatim>\<open>?\<close> that
  leaves the function.\<close>

definition route_line :: "string \<Rightarrow> (string \<times> u32 \<times> u32) option" where
  "route_line line =
     (case split_whitespace line of
        iface # d # _ # _ # _ # _ # _ # mk # _ \<Rightarrow>
          (case (from_str_radix 16 32 d, from_str_radix 16 32 mk) of
             (Some dest, Some m) \<Rightarrow> Some (iface, of_nat dest, of_nat m)
           | _ \<Rightarrow> None)
      | _ \<Rightarrow> None)"

fun route_scan :: "u32 \<Rightarrow> (nat \<times> string) option \<Rightarrow> string list \<Rightarrow> string option" where
  "route_scan target best [] = map_option snd best"
| "route_scan target best (line # rest) =
     (case route_line line of
        None \<Rightarrow> None
      | Some (iface, dest, m) \<Rightarrow>
          if (target AND m) = (dest AND m) then
            let prefix_len = count_ones m in
            if best = None \<or> prefix_len > fst (the best)
            then route_scan target (Some (prefix_len, iface)) rest
            else route_scan target best rest
          else route_scan target best rest)"

definition iface_for_ipv4 :: "string option \<Rightarrow> Ipv4Addr \<Rightarrow> string option" where
  "iface_for_ipv4 route_file target =
     (case route_file of None \<Rightarrow> None
      | Some content \<Rightarrow> route_scan (swap_bytes (ipv4_to_u32 target)) None (drop 1 (lines content)))"

fun default_scan :: "string list \<Rightarrow> string option" where
  "default_scan [] = None"
| "default_scan (line # rest) =
     (case split_whitespace line of
        iface # d # _ \<Rightarrow> if d = ''00000000'' then Some iface else default_scan rest
      | _ \<Rightarrow> None)"

definition default_interface :: "string option \<Rightarrow> string option" where
  "default_interface route_file =
     (case route_file of None \<Rightarrow> None | Some content \<Rightarrow> default_scan (drop 1 (lines content)))"

text \<open>\<open>V6 b\<close> is an IPv6 address, \<open>b\<close> telling whether it is the loopback.\<close>

datatype IpAddr = V4 Ipv4Addr | V6 bool

definition iface_for_server :: "ifaddr list option \<Rightarrow> string option \<Rightarrow> IpAddr \<Rightarrow> string option" where
  "iface_for_server ifs route_file server =
     (if (case server of V4 ip \<Rightarrow> is_loopback_v4 ip | V6 lo \<Rightarrow> lo) then Some ''lo''
      else case server of
             V4 v4 \<Rightarrow> (case getifaddrs_iface_for_subnet ifs v4 of
                         Some i \<Rightarrow> Some i
                       | None \<Rightarrow> iface_for_ipv4 route_file v4)
           | V6 _ \<Rightarrow> default_interface route_file)"

section \<open>Queues, virtual interfaces\<close>

text \<open>\<open>read_dir\<close> lists the names of a directory's entries (those that can be read); \<open>exists\<close>
  tells whether a path exists; \<open>read_link\<close> gives the last component of a link's target.\<close>

record sysfs =
  read_file :: "string \<Rightarrow> string option"
  read_dir :: "string \<Rightarrow> string list option"
  path_exists :: "string \<Rightarrow> bool"
  read_link :: "string \<Rightarrow> string option"

definition queue_count :: "string \<Rightarrow> sysfs \<Rightarrow> string \<Rightarrow> u32" where
  "queue_count pre fs iface =
     max (case read_dir fs (''/sys/class/net/'' @ iface @ ''/queues'') of
            None \<Rightarrow> 1
          | Some names \<Rightarrow> of_nat (length (filter (\<lambda>n. strip_prefix pre n \<noteq> None) names))) 1"

definition get_rx_queue_count :: "sysfs \<Rightarrow> string \<Rightarrow> u32" where
  "get_rx_queue_count = queue_count ''rx-''"

definition get_tx_queue_count :: "sysfs \<Rightarrow> string \<Rightarrow> u32" where
  "get_tx_queue_count = queue_count ''tx-''"

text \<open>\<open>if_nametoindex\<close> is the libc call; a name with a NUL byte is no C string.\<close>

definition iface_index :: "(string \<Rightarrow> u32) \<Rightarrow> string \<Rightarrow> u32 option" where
  "iface_index if_nametoindex name =
     (if CHR 0x00 \<in> set name then None
      else let idx = if_nametoindex name in if idx = 0 then None else Some idx)"

definition is_virtual_interface :: "sysfs \<Rightarrow> string \<Rightarrow> bool" where
  "is_virtual_interface fs iface =
     (if path_exists fs (''/sys/class/net/'' @ iface @ ''/device'') then False
      else let uevent = (case read_file fs (''/sys/class/net/'' @ iface @ ''/uevent'') of
                           Some s \<Rightarrow> s | None \<Rightarrow> [])
           in \<not> list_ex (\<lambda>l. trim l = ''DEVTYPE=vlan'') (lines uevent))"

definition first_physical_bridge_port :: "sysfs \<Rightarrow> string \<Rightarrow> string option" where
  "first_physical_bridge_port fs bridge =
     (case read_dir fs (''/sys/class/net/'' @ bridge @ ''/brif'') of
        None \<Rightarrow> None
      | Some ports \<Rightarrow> find (\<lambda>p. \<not> is_virtual_interface fs p) ports)"

fun first_lower :: "string list \<Rightarrow> string option" where
  "first_lower [] = None"
| "first_lower (n # ns) =
     (case strip_prefix ''lower_'' n of
        Some (c # cs) \<Rightarrow> Some (c # cs)
      | _ \<Rightarrow> first_lower ns)"

definition parent_interface :: "sysfs \<Rightarrow> string \<Rightarrow> string option" where
  "parent_interface fs iface =
     (let dir = ''/sys/class/net/'' @ iface;
          lower = (case read_dir fs dir of None \<Rightarrow> None | Some ns \<Rightarrow> first_lower ns)
      in case lower of
           Some p \<Rightarrow> Some p
         | None \<Rightarrow>
             (let via_master =
                (case read_link fs (dir @ ''/master'') of
                   None \<Rightarrow> None
                 | Some master \<Rightarrow>
                     if master = [] then None
                     else if \<not> is_virtual_interface fs master then Some master
                     else first_physical_bridge_port fs master)
              in case via_master of
                   Some p \<Rightarrow> Some p
                 | None \<Rightarrow> first_physical_bridge_port fs iface))"

section \<open>Correctness\<close>

text \<open>The six-byte MAC address that sysfs prints, with its newline, is what \<^verbatim>\<open>local_mac\<close>
  returns: parsing inverts printing for every address.\<close>

lemma local_mac_show:
  assumes "length m = 6"
  shows "local_mac (\<lambda>p. if p = ''/sys/class/net/'' @ i @ ''/address'' then Some (show_mac m @ [newline]) else None) i
           = Some m"
proof -
  have "trim (show_mac m @ [newline]) = show_mac m"
    using assms show_mac_no_space [of _ m]
    by (intro trim_append_space show_mac_not_Nil) (auto simp: newline_def is_whitespace_def)
  then show ?thesis
    using assms by (simp add: local_mac_def parse_show_mac)
qed

subsection \<open>ARP\<close>

text \<open>A table as the kernel prints it: one line per neighbour, the flags \<^verbatim>\<open>0x2\<close> for a complete
  entry and \<^verbatim>\<open>0x0\<close> for one that is still being resolved.\<close>

definition arp_line :: "Ipv4Addr \<times> bool \<times> bytes \<Rightarrow> string" where
  "arp_line e = (case e of (ip, complete, m) \<Rightarrow>
     show_ipv4 ip @ '' '' @ ''0x1'' @ '' '' @ (if complete then ''0x2'' else ''0x0'') @ '' '' @ show_mac m @ '' * eth0'')"

lemma show_ipv4_no_space:
  assumes "c \<in> set (show_ipv4 ip)"
  shows "\<not> is_whitespace c"
proof (cases ip)
  case (Ipv4 x1 x2 x3 x4)
  have "is_digit_char c \<or> c = CHR ''.''"
    using assms show_radix_digits [of 10 c] by (auto simp: Ipv4)
  then show ?thesis
    using is_digit_char_not_space by (auto simp: is_whitespace_def)
qed

lemma show_ipv4_not_Nil [simp]: "show_ipv4 ip \<noteq> []"
  by (cases ip) simp

lemma show_nat_inj: "show_nat m = show_nat n \<longleftrightarrow> m = n"
proof
  assume "show_nat m = show_nat n"
  then have "digits_value 10 0 (show_nat m) = digits_value 10 0 (show_nat n)" by (rule arg_cong)
  then show "m = n" by (simp add: digits_value_show_radix)
qed simp

lemma show_u8_inj: "show_nat (unat (a :: u8)) = show_nat (unat b) \<longleftrightarrow> a = b"
  by (simp add: show_nat_inj word_unat_eq_iff)

lemma split_show_ipv4:
  "split_on CHR ''.'' (show_ipv4 (Ipv4 a b c d)) =
     [show_nat (unat a), show_nat (unat b), show_nat (unat c), show_nat (unat d)]"
proof -
  have "CHR ''.'' \<notin> set (show_nat n)" for n
    using show_radix_digits [of 10 "CHR ''.''" n] is_digit_char_not_punct by force
  then show ?thesis
    by (simp add: split_on_append split_on_no_sep)
qed

lemma show_ipv4_inj: "show_ipv4 x = show_ipv4 y \<longleftrightarrow> x = y"
proof
  assume "show_ipv4 x = show_ipv4 y"
  then have "split_on CHR ''.'' (show_ipv4 x) = split_on CHR ''.'' (show_ipv4 y)" by simp
  then show "x = y"
    by (cases x, cases y) (simp only: split_show_ipv4 list.inject show_u8_inj)
qed simp


lemma split_arp_line:
  assumes "length m = 6"
  shows "split_whitespace (arp_line (ip, c, m)) =
           [show_ipv4 ip, ''0x1'', if c then ''0x2'' else ''0x0'', show_mac m, ''*'', ''eth0'']"
proof -
  have sp: "is_whitespace CHR '' ''" by (simp add: is_whitespace_def)
  have "show_mac m \<noteq> []" using assms by (intro show_mac_not_Nil) auto
  then have mac: "split_whitespace (show_mac m @ CHR '' '' # ''* eth0'') = [show_mac m, ''*'', ''eth0'']"
    using show_mac_no_space sp by (subst split_whitespace_field) (auto simp: split_whitespace_def is_whitespace_def)
  have flag: "split_whitespace ((if c then ''0x2'' else ''0x0'') @ CHR '' '' # t) =
      (if c then ''0x2'' else ''0x0'') # split_whitespace t" for t
    using sp by (intro split_whitespace_field) (auto simp: is_whitespace_def split: if_splits)
  have hw: "split_whitespace (''0x1'' @ CHR '' '' # t) = ''0x1'' # split_whitespace t" for t
    using sp by (intro split_whitespace_field) (auto simp: is_whitespace_def)
  have ip: "split_whitespace (show_ipv4 ip @ CHR '' '' # t) = show_ipv4 ip # split_whitespace t" for t
    using sp show_ipv4_no_space by (intro split_whitespace_field) auto
  show ?thesis
    using ip hw flag mac by (simp add: arp_line_def)
qed

lemma arp_scan_table:
  assumes "\<And>e. e \<in> set es \<Longrightarrow> length (snd (snd e)) = 6"
  shows "arp_scan (show_ipv4 server) (map arp_line es) =
           (case map_of es server of Some (True, m) \<Rightarrow> Some m | _ \<Rightarrow> None)"
  using assms
proof (induction es)
  case (Cons e es)
  obtain ip c m where e: "e = (ip, c, m)" by (cases e) auto
  with Cons.prems [of e] have "length m = 6" by simp
  then show ?case
    using Cons by (simp add: e split_arp_line show_ipv4_inj parse_show_mac)
qed simp

lemma arp_line_no_newline:
  assumes "d \<in> {newline, CHR 0x0D}"
  shows "d \<notin> set (arp_line e)"
proof -
  obtain ip c m where e: "e = (ip, c, m)" by (cases e) auto
  have d: "is_whitespace d" "d \<noteq> CHR '' ''" using assms by (auto simp: newline_def is_whitespace_def)
  have "x \<notin> set (arp_line e)" if "is_whitespace x" "x \<noteq> CHR '' ''" for x
    using that show_ipv4_no_space [of x ip] show_mac_no_space [of x m]
    by (auto simp: e arp_line_def is_whitespace_def)
  with d show ?thesis by blast
qed

text \<open>C29. On a table as the kernel prints it, \<^verbatim>\<open>lookup_arp\<close> returns the MAC address of the first entry
  of the server's address when that entry is complete, and nothing otherwise.\<close>

theorem lookup_arp_table:
  assumes "\<forall>e \<in> set es. length (snd (snd e)) = 6"
    and "newline \<notin> set hdr" "CHR 0x0D \<notin> set hdr"
  shows "lookup_arp (Some (unlines (hdr # map arp_line es))) server =
           (case map_of es server of Some (True, m) \<Rightarrow> Some m | _ \<Rightarrow> None)"
proof -
  have "lines (unlines (hdr # map arp_line es)) = hdr # map arp_line es"
    using assms(2,3) arp_line_no_newline by (intro lines_unlines) auto
  then show ?thesis
    using assms(1) by (simp add: lookup_arp_def arp_scan_table)
qed

theorem lookup_arp_table_witness:
  "lookup_arp (Some (unlines (''IP address'' # map arp_line
      [(Ipv4 10 0 0 1, False, [0, 0, 0, 0, 0, 0]), (Ipv4 10 0 0 2, True, [2, 0, 0, 0, 0, 0xfe])])))
    (Ipv4 10 0 0 2) = Some [2, 0, 0, 0, 0, 0xfe]"
  by (subst lookup_arp_table) (simp_all add: newline_def)

text \<open>\<^verbatim>\<open>resolve_server_mac\<close> looks at the table at most six times, triggers ARP exactly when the
  first look fails, and returns the first address found.\<close>

lemma resolve_server_mac_looks:
  "resolve_server_mac arp server =
     (let f = length (takeWhile (\<lambda>k. lookup_arp (arp k) server = None) [0..<6])
      in (min 6 (Suc f), f \<noteq> 0, if f < 6 then lookup_arp (arp f) server else None))"
proof -
  have "[0..<6] = 0 # [1..<1 + 5]" by (simp add: upt_rec)
  then show ?thesis
    by (simp add: resolve_server_mac_def arp_retry_looks Let_def split: option.splits)
qed


subsection \<open>Routes\<close>

text \<open>The addresses of the table are printed in host order of the bytes as they are sent, so they are
  read here byte-swapped.  A route matches when the address agrees with it under the mask.\<close>

type_synonym route = "string \<times> u32 \<times> u32"

definition route_matches :: "Ipv4Addr \<Rightarrow> route \<Rightarrow> bool" where
  "route_matches ip r = (case r of (_, dest, m) \<Rightarrow>
     (ipv4_to_u32 ip AND swap_bytes m) = (swap_bytes dest AND swap_bytes m))"

definition route_len :: "route \<Rightarrow> nat" where
  "route_len r = count_ones (snd (snd r))"

text \<open>The longest matching prefix, the first of the routes that have it.\<close>

fun longest_prefix :: "Ipv4Addr \<Rightarrow> route list \<Rightarrow> route option" where
  "longest_prefix ip [] = None"
| "longest_prefix ip (r # rs) =
     (case longest_prefix ip rs of
        None \<Rightarrow> if route_matches ip r then Some r else None
      | Some b \<Rightarrow> if route_matches ip r \<and> route_len b \<le> route_len r then Some r else Some b)"

lemma longest_prefix_None: "longest_prefix ip rs = None \<longleftrightarrow> (\<forall>r \<in> set rs. \<not> route_matches ip r)"
  by (induction rs) (auto split: option.splits)

lemma longest_prefix_Some:
  "longest_prefix ip rs = Some b \<Longrightarrow>
     b \<in> set rs \<and> route_matches ip b \<and> (\<forall>r \<in> set rs. route_matches ip r \<longrightarrow> route_len r \<le> route_len b)"
  by (induction rs arbitrary: b)
    (force simp: longest_prefix_None split: option.splits if_splits)+

lemma route_matches_swap:
  "(swap_bytes (ipv4_to_u32 ip) AND m) = (dest AND m) \<longleftrightarrow> route_matches ip (i, dest, m)"
proof -
  have "(swap_bytes (ipv4_to_u32 ip) AND m) = (dest AND m) \<longleftrightarrow>
      swap_bytes (swap_bytes (ipv4_to_u32 ip) AND m) = swap_bytes (dest AND m)"
    by (simp only: swap_bytes_inj)
  then show ?thesis by (simp only: swap_bytes_and swap_bytes_swap route_matches_def prod.case)
qed

lemma route_scan_best:
  assumes "those (map route_line ls) = Some rs"
  shows "route_scan (swap_bytes (ipv4_to_u32 ip)) best ls =
    (case longest_prefix ip rs of
       None \<Rightarrow> map_option snd best
     | Some r \<Rightarrow> if best = None \<or> fst (the best) < route_len r then Some (fst r) else map_option snd best)"
  using assms
proof (induction ls arbitrary: best rs)
  case (Cons l ls)
  from Cons.prems obtain i dest m rs' where
    l: "route_line l = Some (i, dest, m)" and ls: "those (map route_line ls) = Some rs'"
    and rs: "rs = (i, dest, m) # rs'"
    by (auto split: option.splits)
  show ?case
    unfolding rs
    by (simp add: l Cons.IH [OF ls] route_matches_swap [of _ _ _ i] route_len_def Let_def split: option.split)
       (auto simp: route_len_def)
qed simp

text \<open>C27. On a routing table whose lines all parse, \<^verbatim>\<open>iface_for_ipv4\<close> answers with the interface of the
  longest matching prefix (the first such route), and with nothing when no route matches.\<close>

theorem iface_for_ipv4_longest_prefix:
  assumes "those (map route_line (drop 1 (lines content))) = Some rs"
  shows "iface_for_ipv4 (Some content) ip = map_option fst (longest_prefix ip rs) \<and>
    (\<forall>b. longest_prefix ip rs = Some b \<longrightarrow>
       route_matches ip b \<and> (\<forall>r \<in> set rs. route_matches ip r \<longrightarrow> route_len r \<le> route_len b))"
  using longest_prefix_Some [of ip rs] assms
  by (auto simp: iface_for_ipv4_def route_scan_best split: option.splits)

definition demo_routes :: string where
  "demo_routes = unlines
     [''Iface Destination Gateway Flags RefCnt Use Metric Mask'',
      ''eth0 00000000 0100A8C0 0003 0 0 100 00000000'',
      ''eth1 0000000A 00000000 0001 0 0 0 000000FF'']"

lemma demo_routes_lines:
  "those (map route_line (drop 1 (lines demo_routes))) = Some [(''eth0'', 0, 0), (''eth1'', 10, 255)]"
proof -
  have "lines demo_routes = [''Iface Destination Gateway Flags RefCnt Use Metric Mask'',
      ''eth0 00000000 0100A8C0 0003 0 0 100 00000000'', ''eth1 0000000A 00000000 0001 0 0 0 000000FF'']"
    unfolding demo_routes_def by (rule lines_unlines) (auto simp: newline_def)
  then show ?thesis
    by (simp add: route_line_def split_whitespace_def is_whitespace_def from_str_radix_def to_digit_def)
qed

lemma demo_routes_best:
  "longest_prefix (Ipv4 10 1 2 3) [(''eth0'', 0, 0), (''eth1'', 10, 255)] = Some (''eth1'', 10, 255)"
  "longest_prefix (Ipv4 9 1 2 3) [(''eth0'', 0, 0), (''eth1'', 10, 255)] = Some (''eth0'', 0, 0)"
proof -
  have swap: "swap_bytes 255 = 4278190080" "swap_bytes 10 = 167772160" "swap_bytes 0 = 0"
    by (simp_all add: swap_bytes_def)
  have "count_ones 255 = 8" "count_ones 0 = 0"
    by code_simp+
  then show "longest_prefix (Ipv4 10 1 2 3) [(''eth0'', 0, 0), (''eth1'', 10, 255)] = Some (''eth1'', 10, 255)"
    "longest_prefix (Ipv4 9 1 2 3) [(''eth0'', 0, 0), (''eth1'', 10, 255)] = Some (''eth0'', 0, 0)"
    by (simp_all add: route_matches_def route_len_def swap)
qed

theorem iface_for_ipv4_longest_prefix_witness:
  "iface_for_ipv4 (Some demo_routes) (Ipv4 10 1 2 3) = Some ''eth1'' \<and>
   iface_for_ipv4 (Some demo_routes) (Ipv4 9 1 2 3) = Some ''eth0''"
  by (simp only: conjunct1 [OF iface_for_ipv4_longest_prefix [OF demo_routes_lines]] demo_routes_best
      option.map fst_conv simp_thms)

subsection \<open>The interface of a server\<close>

text \<open>An entry of \<^verbatim>\<open>getifaddrs\<close> that shares a proper subnet with the address.\<close>

definition same_subnet :: "Ipv4Addr \<Rightarrow> ifaddr \<Rightarrow> bool" where
  "same_subnet ip ifa =
     (case (ifa_addr ifa, ifa_netmask ifa, ifa_name ifa) of
        (Some (fam, a), Some (_, mk), Some name) \<Rightarrow>
          fam = AF_INET \<and> mk \<noteq> 0 \<and> name \<noteq> ''lo'' \<and>
          (swap_bytes a AND swap_bytes mk) = (ipv4_to_u32 ip AND swap_bytes mk)
      | _ \<Rightarrow> False)"

lemma swap_bytes_eq_0: "swap_bytes w = 0 \<longleftrightarrow> w = 0"
proof -
  have "swap_bytes 0 = 0" by (simp add: swap_bytes_def)
  then show ?thesis by (metis swap_bytes_swap)
qed

lemma findSomeD: "find P l = Some x \<Longrightarrow> P x \<and> x \<in> set l"
  by (induction l) (auto split: if_splits)

lemma subnet_scan_find:
  "subnet_scan (ipv4_to_u32 ip) l = Option.bind (find (same_subnet ip) l) ifa_name"
proof (induction l)
  case (Cons ifa l)
  then show ?case
    by (auto simp: same_subnet_def swap_bytes_eq_0 Let_def split: option.splits)
qed simp

text \<open>C28. For an IPv4 server that is not the loopback, \<^verbatim>\<open>iface_for_server\<close> prefers the first interface of
  \<^verbatim>\<open>getifaddrs\<close> that shares a subnet with it and falls back to the longest route.\<close>

theorem iface_for_server_v4:
  assumes "\<not> is_loopback_v4 ip"
    and "those (map route_line (drop 1 (lines content))) = Some rs"
  shows "iface_for_server (Some ifs) (Some content) (V4 ip) =
           (case find (same_subnet ip) ifs of
              Some ifa \<Rightarrow> ifa_name ifa
            | None \<Rightarrow> map_option fst (longest_prefix ip rs))"
proof -
  have "ifa_name ifa \<noteq> None" if "find (same_subnet ip) ifs = Some ifa" for ifa
    using findSomeD [OF that] by (auto simp: same_subnet_def split: option.splits)
  moreover have "iface_for_ipv4 (Some content) ip = map_option fst (longest_prefix ip rs)"
    using assms(2) by (auto simp: iface_for_ipv4_def route_scan_best split: option.splits)
  ultimately show ?thesis
    using assms(1)
    by (auto simp: iface_for_server_def getifaddrs_iface_for_subnet_def subnet_scan_find split: option.splits)
qed

theorem iface_for_server_v4_witness:
  "iface_for_server
     (Some [\<lparr> ifa_name = Some ''lo'', ifa_addr = Some (2, 0x0100007f), ifa_netmask = Some (2, 0xff) \<rparr>,
            \<lparr> ifa_name = Some ''eth7'', ifa_addr = Some (2, 0x0101010a), ifa_netmask = Some (2, 0xffff) \<rparr>])
     (Some []) (V4 (Ipv4 10 1 9 9)) = Some ''eth7''"
  by (subst iface_for_server_v4 [where rs = "[]"])
    (simp_all add: is_loopback_v4_def lines_def split_on_def same_subnet_def AF_INET_def swap_bytes_def)


end
