(* ===== verification/Loss.thy ===== *)
theory Loss
  imports Rust_Prelude
begin

text \<open>
  Loss accounting, the same code in the UDP server worker (\<^verbatim>\<open>src/net.rs\<close>) and in the AF_XDP sink
  (\<^verbatim>\<open>src/xdp/sink.rs\<close>): the map \<^verbatim>\<open>last_seq\<close> keeps the last sequence number of each stream, and a
  jump adds the gap to the \<^verbatim>\<open>drops\<close> counter, in wrapping 64-bit arithmetic.  The theorem: when
  every stream arrives in order, \<^verbatim>\<open>drops\<close> is the number of sequence numbers missing between the
  first and the last packet of each stream, whatever the interleaving of the streams.
\<close>

section \<open>The code\<close>

type_synonym loss_state = "(u64 \<rightharpoonup> u64) \<times> u64"

definition note_seq :: "u64 \<times> u64 \<Rightarrow> loss_state \<Rightarrow> loss_state" where
  "note_seq p st =
     (case (p, st) of ((sid, seq), (last_seq, drops)) \<Rightarrow>
        (last_seq(sid \<mapsto> seq),
         (case last_seq sid of
            Some prev \<Rightarrow> if seq > prev + 1 then drops + (seq - prev - 1) else drops
          | None \<Rightarrow> drops)))"

definition note_all :: "(u64 \<times> u64) list \<Rightarrow> loss_state \<Rightarrow> loss_state" where
  "note_all ps st = fold note_seq ps st"

section \<open>What is missing from a stream\<close>

definition stream :: "u64 \<Rightarrow> (u64 \<times> u64) list \<Rightarrow> nat list" where
  "stream s ps = map (\<lambda>p. unat (snd p)) (filter (\<lambda>p. fst p = s) ps)"

text \<open>The numbers between the first and the last one that do not occur.\<close>

definition missing :: "nat list \<Rightarrow> nat set" where
  "missing xs = (if xs = [] then {} else {hd xs..last xs} - set xs)"

definition in_order :: "(u64 \<times> u64) list \<Rightarrow> bool" where
  "in_order ps = list_all (\<lambda>s. sorted_wrt (<) (stream s ps)) (map fst ps)"

lemma stream_Nil [simp]: "stream s [] = []"
  by (simp add: stream_def)

lemma stream_snoc:
  "stream s (ps @ [(t, q)]) = (if s = t then stream s ps @ [unat q] else stream s ps)"
  by (simp add: stream_def)

lemma stream_Nil_iff: "stream s ps = [] \<longleftrightarrow> s \<notin> fst ` set ps"
  by (auto simp: stream_def filter_empty_conv)

lemma in_order_stream: "in_order ps \<Longrightarrow> sorted_wrt (<) (stream s ps)"
  using stream_Nil_iff [of s ps] by (cases "stream s ps = []") (auto simp: in_order_def list_all_iff)

lemma in_order_butlast:
  assumes "in_order (ps @ [(t, q)])"
  shows "in_order ps"
proof -
  have "sorted_wrt (<) (stream s ps)" for s
    using in_order_stream [OF assms, of s] by (simp add: stream_snoc sorted_wrt_append split: if_splits)
  then show ?thesis by (simp add: in_order_def list_all_iff)
qed

lemma finite_missing [simp]: "finite (missing xs)"
  by (simp add: missing_def)

lemma sorted_wrt_less_le_last: "sorted_wrt (<) (xs :: nat list) \<Longrightarrow> x \<in> set xs \<Longrightarrow> x \<le> last xs"
  by (induction xs) (auto intro: less_imp_le)

lemma hd_le_sorted_wrt: "sorted_wrt (<) (xs :: nat list) \<Longrightarrow> x \<in> set xs \<Longrightarrow> hd xs \<le> x"
  by (cases xs) (auto intro: less_imp_le)

text \<open>A new packet at the end adds the gap before it.\<close>

lemma card_missing_snoc:
  assumes "sorted_wrt (<) (xs @ [q])" "xs \<noteq> []"
  shows "card (missing (xs @ [q])) = card (missing xs) + (q - last xs - 1)"
proof -
  have s: "sorted_wrt (<) xs" "last xs < q" "hd xs \<le> last xs"
    using assms hd_le_sorted_wrt [of xs "last xs"] by (auto simp: sorted_wrt_append)
  have le: "\<And>x. x \<in> set xs \<Longrightarrow> x \<le> last xs" using s(1) by (rule sorted_wrt_less_le_last)
  have "missing (xs @ [q]) = missing xs \<union> {last xs<..<q}"
    using assms(2) s le by (fastforce simp: missing_def)
  moreover have "missing xs \<inter> {last xs<..<q} = {}"
    by (auto simp: missing_def)
  ultimately show ?thesis by (simp add: card_Un_disjoint)
qed

section \<open>The counter is exact on ordered streams\<close>

definition lost :: "(u64 \<times> u64) list \<Rightarrow> nat" where
  "lost ps = (\<Sum>s \<in> fst ` set ps. card (missing (stream s ps)))"

lemma note_all_snoc: "note_all (ps @ [p]) st = note_seq p (note_all ps st)"
  by (simp add: note_all_def)

lemma note_all_last:
  "map_option unat (fst (note_all ps (Map.empty, d)) s) =
     (if stream s ps = [] then None else Some (last (stream s ps)))"
proof (induction ps rule: rev_induct)
  case (snoc p ps)
  obtain t q where p: "p = (t, q)" by fastforce
  obtain l e where n: "note_all ps (Map.empty, d) = (l, e)" by fastforce
  show ?case
    using snoc by (auto simp: p n note_all_snoc note_seq_def stream_snoc)
qed (simp add: note_all_def)

lemma lost_snoc:
  assumes "in_order (ps @ [(t, q)])"
  shows "lost (ps @ [(t, q)]) =
    lost ps + (if stream t ps = [] then 0 else unat q - last (stream t ps) - 1)"
proof -
  let ?ps = "ps @ [(t, q)]" and ?S = "fst ` set ps"
  have t: "sorted_wrt (<) (stream t ps @ [unat q])"
    using in_order_stream [OF assms, of t] by (simp add: stream_snoc)
  have rest: "(\<Sum>s \<in> ?S - {t}. card (missing (stream s ?ps))) = (\<Sum>s \<in> ?S - {t}. card (missing (stream s ps)))"
    by (rule sum.cong) (auto simp: stream_snoc)
  have new: "lost ?ps = card (missing (stream t ps @ [unat q])) + (\<Sum>s \<in> ?S - {t}. card (missing (stream s ps)))"
    using rest by (simp add: lost_def sum.insert_remove stream_snoc insert_commute)
  show ?thesis
  proof (cases "stream t ps = []")
    case True
    then have "?S - {t} = ?S" by (auto simp: stream_Nil_iff)
    with new True show ?thesis by (simp add: lost_def missing_def)
  next
    case False
    then have "t \<in> ?S" by (simp add: stream_Nil_iff)
    then have "lost ps = card (missing (stream t ps)) + (\<Sum>s \<in> ?S - {t}. card (missing (stream s ps)))"
      by (simp add: lost_def sum.remove)
    with new False card_missing_snoc [OF t False] show ?thesis by simp
  qed
qed

text \<open>The gap as the code computes it.\<close>

lemma gap_word:
  fixes prev q :: u64
  assumes "unat prev < unat q"
  shows "(if q > prev + 1 then d + (q - prev - 1) else d) = d + of_nat (unat q - unat prev - 1)"
proof -
  have p1: "unat (prev + 1) = unat prev + 1"
  proof -
    have "unat prev < 18446744073709551615" using assms unat_u64_lt [of q] by linarith
    then show ?thesis by (subst unat_add_small) simp_all
  qed
  have diff: "q - prev - 1 = of_nat (unat q - unat prev - 1)"
    using assms by (simp add: of_nat_diff)
  have "\<not> q > prev + 1 \<Longrightarrow> unat q - unat prev - 1 = 0"
    using p1 by (simp add: word_less_nat_alt)
  then show ?thesis unfolding diff by auto
qed

lemma note_all_drops:
  assumes "in_order ps"
  shows "snd (note_all ps (Map.empty, d)) = d + of_nat (lost ps)"
  using assms
proof (induction ps rule: rev_induct)
  case (snoc p ps)
  obtain t q where p: "p = (t, q)" by fastforce
  obtain l e where n: "note_all ps (Map.empty, d) = (l, e)" by fastforce
  have ord: "in_order ps" using snoc.prems in_order_butlast by (simp add: p)
  with snoc.IH n have e: "e = d + of_nat (lost ps)" by simp
  note lost = lost_snoc [OF snoc.prems [unfolded p]]
  have l: "map_option unat (l t) = (if stream t ps = [] then None else Some (last (stream t ps)))"
    using note_all_last [of ps d t] n by simp
  show ?case
  proof (cases "l t")
    case None
    with l have "stream t ps = []" by (simp split: if_splits)
    with None lost e show ?thesis by (simp add: p n note_all_snoc note_seq_def)
  next
    case (Some prev)
    with l have s: "stream t ps \<noteq> []" "last (stream t ps) = unat prev" by (auto split: if_splits)
    have "sorted_wrt (<) (stream t ps @ [unat q])"
      using in_order_stream [OF snoc.prems, of t] by (simp add: p stream_snoc)
    then have "unat prev < unat q" using s last_in_set [OF s(1)] by (simp add: sorted_wrt_append)
    from gap_word [OF this] Some s lost e show ?thesis
      by (simp add: p n note_all_snoc note_seq_def)
  qed
qed (simp add: note_all_def lost_def)

text \<open>C7. If the packets of every stream arrive in increasing order, then starting from no stream and a
  zero counter the \<^verbatim>\<open>drops\<close> counter is exactly the number of sequence numbers that are missing
  between the first and the last packet of each stream, summed over the streams (modulo the 64 bits
  of the counter), however the streams interleave.\<close>

theorem drops_exact:
  assumes "in_order ps"
  shows "snd (note_all ps (Map.empty, 0)) = of_nat (\<Sum>s \<in> fst ` set ps. card (missing (stream s ps)))"
  using note_all_drops [OF assms, of 0] by (simp add: lost_def)

theorem drops_exact_witness:
  "in_order [(1, 0), (2, 7), (1, 3), (2, 8), (1, 4)] \<and>
   snd (note_all [(1, 0), (2, 7), (1, 3), (2, 8), (1, 4)] (Map.empty, 0)) = 2"
proof -
  have o: "in_order [(1, 0), (2, 7), (1, 3), (2, 8), (1, 4)]" by (simp add: in_order_def stream_def)
  have "missing [0, 3, 4] = {1, 2}" "missing [7, 8] = {}" by (auto simp: missing_def)
  moreover have "fst ` set [(1::u64, 0::u64), (2, 7), (1, 3), (2, 8), (1, 4)] = {1, 2}" by auto
  ultimately show ?thesis using o drops_exact [OF o] by (simp add: stream_def)
qed

text \<open>Single steps on a stream whose last number is known, and a run of consecutive numbers.\<close>

lemma note_seq_nat:
  assumes "p + 1 < 2 ^ 64" "q < 2 ^ 64"
  shows "note_seq (s, of_nat q) (l(s \<mapsto> of_nat p), d) =
    (l(s \<mapsto> of_nat q), d + (if p + 1 < q then of_nat (q - p - 1) else 0))"
proof -
  have u: "unat (of_nat p :: u64) = p" "unat (of_nat q :: u64) = q"
    using assms by (simp_all add: unat_of_nat_small)
  have "unat (of_nat p + 1 :: u64) = p + 1" using assms(1) u by (subst unat_add_small) simp_all
  then have "(of_nat p :: u64) + 1 < of_nat q \<longleftrightarrow> p + 1 < q" by (simp add: word_less_nat_alt u)
  moreover have "(of_nat q :: u64) - of_nat p - 1 = of_nat (q - p - 1)" if "p + 1 < q"
    using that by (simp add: of_nat_diff)
  ultimately show ?thesis by (simp add: note_seq_def)
qed

lemma note_all_run:
  assumes "p < b" "b < 2 ^ 64"
  shows "note_all (map (\<lambda>q. (s, of_nat q)) [Suc p..<b]) (l(s \<mapsto> of_nat p), d) = (l(s \<mapsto> of_nat (b - 1)), d)"
  using assms
proof (induction "b - p" arbitrary: p)
  case (Suc k)
  show ?case
  proof (cases "Suc p = b")
    case False
    with Suc.prems have "[Suc p..<b] = Suc p # [Suc (Suc p)..<b]" by (simp add: upt_conv_Cons)
    moreover have "note_seq (s, of_nat (Suc p)) (l(s \<mapsto> of_nat p), d) = (l(s \<mapsto> of_nat (Suc p)), d)"
      using note_seq_nat [of p "Suc p" s l d] Suc.prems by simp
    moreover have "Suc p < b" "k = b - Suc p" using False Suc.prems Suc.hyps(2) by simp_all
    ultimately show ?thesis using Suc.hyps(1) [of "Suc p"] Suc.prems by (simp add: note_all_def)
  qed (auto simp: note_all_def)
qed simp

text \<open>C40. Reordering is counted as loss although nothing is lost.  A stream \<open>a, \<dots>, b - 1\<close> arrives complete but with two
  neighbours \<open>i\<close> and \<open>i + 1\<close> exchanged: the counter goes up by one for the number skipped before the pair, if something came
  before it, and by one for the number skipped after it, if something comes after it.  So it goes up by two in the middle
  of a stream.\<close>

theorem reordering_counts_as_loss:
  assumes "a \<le> i" "i + 2 \<le> b" "b < 2 ^ 64"
  shows "snd (note_all (map (\<lambda>q. (s, of_nat q)) ([a..<i] @ [i + 1, i] @ [i + 2..<b])) (Map.empty, d)) =
    d + (if a < i then 1 else 0) + (if i + 2 < b then 1 else 0)"
proof -
  let ?m = "map (\<lambda>q. (s, of_nat q :: u64))"
  define l where "l = (Map.empty :: u64 \<rightharpoonup> u64)"
  have app: "note_all (xs @ ys) st = note_all ys (note_all xs st)" for xs ys st by (simp add: note_all_def)
  have start: "note_all (?m ([a..<i] @ [i + 1])) (l, d) = (l(s \<mapsto> of_nat (i + 1)), d + (if a < i then 1 else 0))"
  proof (cases "a < i")
    case True
    then have "[a..<i] = a # [Suc a..<i]" by (rule upt_conv_Cons)
    moreover have "note_seq (s, of_nat a) (l, d) = (l(s \<mapsto> of_nat a), d)" by (simp add: note_seq_def l_def)
    ultimately have "note_all (?m [a..<i]) (l, d) = (l(s \<mapsto> of_nat (i - 1)), d)"
      using note_all_run [of a i s l d] True assms by (simp add: note_all_def)
    then show ?thesis
      using note_seq_nat [of "i - 1" "i + 1" s l d] True assms unfolding map_append app by (simp add: note_all_def)
  next
    case False
    then show ?thesis using assms(1) by (simp add: note_all_def note_seq_def l_def)
  qed
  have swap: "note_all (?m [i]) (l(s \<mapsto> of_nat (i + 1)), e) = (l(s \<mapsto> of_nat i), e)" for e
    using note_seq_nat [of "i + 1" i s l e] assms by (simp add: note_all_def)
  have rest: "snd (note_all (?m [i + 2..<b]) (l(s \<mapsto> of_nat i), e)) = e + (if i + 2 < b then 1 else 0)" for e
  proof (cases "i + 2 < b")
    case True
    then have "[i + 2..<b] = (i + 2) # [Suc (i + 2)..<b]" by (rule upt_conv_Cons)
    moreover have "note_seq (s, of_nat (i + 2)) (l(s \<mapsto> of_nat i), e) = (l(s \<mapsto> of_nat (i + 2)), e + 1)"
      using note_seq_nat [of i "i + 2" s l e] assms by simp
    ultimately show ?thesis using note_all_run [of "i + 2" b s l "e + 1"] True assms by (simp add: note_all_def)
  qed (simp add: note_all_def)
  have "?m ([a..<i] @ [i + 1, i] @ [i + 2..<b]) = ?m ([a..<i] @ [i + 1]) @ ?m [i] @ ?m [i + 2..<b]" by simp
  then show ?thesis unfolding l_def [symmetric] by (simp only: app start swap rest)
qed

theorem reordering_counts_as_loss_witness:
  "snd (note_all [(5, 10), (5, 12), (5, 11), (5, 13)] (Map.empty, 0)) = 2"
  using reordering_counts_as_loss [of 10 11 14 5 0] by (simp add: upt_rec)

section \<open>The payload\<close>

text \<open>The payload of both engines: stream number, sequence number, padding; \<open>n\<close> is its length.\<close>

definition stamped :: "nat \<Rightarrow> nat \<Rightarrow> u64 \<Rightarrow> bytes" where
  "stamped worker n q = to_le_bytes (of_nat worker) @ to_le_bytes q @ replicate (n - 16) 0"

definition payload_ids :: "bytes \<Rightarrow> u64 \<times> u64" where
  "payload_ids p = (from_le_bytes (subslice 0 8 p), from_le_bytes (subslice 8 16 p))"

lemma payload_ids_stamped: "payload_ids (stamped worker n q @ rest) = (of_nat worker, q)"
  by (simp add: payload_ids_def stamped_def subslice_def)

lemma length_stamped [simp]: "16 \<le> n \<Longrightarrow> length (stamped worker n q) = n"
  by (simp add: stamped_def)

text \<open>One stream whose sequence numbers increase.\<close>

lemma stream_map_Pair: "stream s (map (Pair s) qs) = map unat qs"
  by (simp add: stream_def comp_def)

lemma single_stream_drops:
  assumes "sorted_wrt (<) (map unat qs)" "qs \<noteq> []"
  shows "snd (note_all (map (Pair s) qs) (Map.empty, d)) =
    d + of_nat (unat (last qs) - unat (hd qs) + 1 - length qs)"
proof -
  let ?xs = "map unat qs"
  have o: "in_order (map (Pair s) qs)"
    using assms(1) by (auto simp: in_order_def stream_map_Pair list_all_iff)
  have "fst ` set (map (Pair s) qs) = {s}" using assms(2) by (cases qs) auto
  then have "lost (map (Pair s) qs) = card (missing ?xs)" by (simp add: lost_def stream_map_Pair)
  moreover have "card (missing ?xs) = unat (last qs) - unat (hd qs) + 1 - length qs"
  proof -
    have sub: "set ?xs \<subseteq> {unat (hd qs)..unat (last qs)}"
      using sorted_wrt_less_le_last [OF assms(1)] hd_le_sorted_wrt [OF assms(1)] assms(2)
      by (auto simp: last_map hd_map)
    moreover have "card (set ?xs) = length qs"
      using assms(1) by (metis distinct_card length_map strict_sorted_iff)
    moreover have "hd qs \<in> set qs" using assms(2) by simp
    then have "unat (hd qs) \<le> unat (last qs)" using sub by fastforce
    ultimately show ?thesis
      using assms(2) by (simp add: missing_def last_map hd_map card_Diff_subset Suc_diff_le)
  qed
  ultimately show ?thesis using note_all_drops [OF o, of d] by simp
qed

end
