(* ===== verification/Tx_Gen.thy ===== *)
theory Tx_Gen
  imports Xsk_Socket Frame Pacing Affinity Iface Loss
begin

text \<open>
  The AF_XDP generator, \<^verbatim>\<open>src/xdp/gen.rs\<close>: the state of a worker, \<^verbatim>\<open>tx_one\<close>, \<^verbatim>\<open>kick\<close> and the loop
  \<^verbatim>\<open>tx_loop\<close> (the set-up \<^verbatim>\<open>xdp_udp_blast\<close> is in \<open>Xdp_Engine\<close>).  The kernel takes descriptors from the TX ring and puts
  frames into the completion ring while the loop runs; its moves come between the operations of the
  loop and are a parameter of the model, constrained by \<open>kernel_tx_step\<close>, what AF_XDP promises of
  them.  The loop runs over a schedule, one entry per turn, with the clock readings and the kernel's
  moves of that turn.  The theorems: no frame is ever lost, doubled or written while the kernel may
  still read it; a send fails only when every frame is in flight; the counters are exact; the
  sequence numbers on the wire; the rate bound.
\<close>

section \<open>One frame\<close>

definition TX_BATCH :: nat where "TX_BATCH = 64"

text \<open>\<open>ts_mem\<close> is the content of the UMEM, by offset from the pointer \<open>ts_area\<close>.  The last three fields are the kernel's
  side of the worker's socket, which the program never touches: the descriptors taken from the TX ring and not yet
  transmitted, the frames transmitted and not yet completed, and the packets put on the wire so far.\<close>

record TxState =
  ts_fd :: int
  ts_tx :: DescRing
  ts_comp :: AddrRing
  ts_pool :: "u64 list"
  ts_hdr :: FrameHeader
  ts_sa :: SockaddrXdp
  ts_area :: u64
  ts_mem :: mem
  ts_queue :: "XdpDesc list"
  ts_sent :: "u64 list"
  ts_out :: "bytes list"

definition tx_one :: "cpu_features \<Rightarrow> TxState \<Rightarrow> bytes \<Rightarrow> (TxState \<times> bool) may_panic" where
  "tx_one c st payload =
     (if ts_pool st = [] then Inr (st, False)
      else
        let a = last (ts_pool st);
            st1 = st\<lparr>ts_pool := butlast (ts_pool st)\<rparr>;
            buf = load_bytes (ts_mem st1) (unat a) (unat FRAME_SIZE)
        in case write_frame c (ts_hdr st1) buf payload of
             Inl p \<Rightarrow> Inl p
           | Inr (buf', n) \<Rightarrow>
               (let st2 = st1\<lparr>ts_mem := store_bytes (ts_mem st1) (unat a) buf'\<rparr>;
                    desc = \<lparr>addr = a, len = of_nat n, options = 0\<rparr>
                in case produce_tx (ts_tx st2) [desc] of (txr, k) \<Rightarrow>
                     if k = 0 then Inr (st2\<lparr>ts_tx := txr, ts_pool := ts_pool st2 @ [a]\<rparr>, False)
                     else Inr (st2\<lparr>ts_tx := txr\<rparr>, True)))"

definition kick :: "TxState \<Rightarrow> trace \<Rightarrow> trace" where
  "kick st = emit (EvSendto (ts_fd st) (ts_sa st))"

section \<open>The loop\<close>

text \<open>A turn: \<^verbatim>\<open>run\<close>, the deadline check's clock, what the kernel did before the turn's \<open>k\<close>-th look at
  the rings (0 the recycling, then one per \<^verbatim>\<open>tx_one\<close>), and the pacer's clock readings.\<close>

record turn =
  tn_run :: bool
  tn_now :: nat
  tn_kernel :: "nat \<Rightarrow> TxState \<Rightarrow> TxState"
  tn_el :: nat
  tn_restart :: nat

text \<open>The variables of the loop.  \<open>ls_pkts\<close> and \<open>ls_bytes\<close> are what the worker added to the shared
  counters.  \<open>ls_wire\<close> and \<open>ls_sent\<close> are history variables: the payloads handed to the kernel so far,
  and the value of \<^verbatim>\<open>sent\<close> in each turn.\<close>

record loop_state =
  ls_st :: TxState
  ls_payload :: bytes
  ls_seq :: u64
  ls_pacer :: pacer
  ls_pkts :: u64
  ls_bytes :: u64
  ls_trace :: trace
  ls_wire :: "bytes list"
  ls_sent :: "nat list"

definition tx_start :: "TxState \<Rightarrow> nat \<Rightarrow> nat \<Rightarrow> nat \<Rightarrow> loop_state may_panic" where
  "tx_start st worker payload_len now =
     (if payload_len < 8 then Inl IndexOutOfBounds
      else Inr \<lparr>ls_st = st, ls_payload = write_at 0 (to_le_bytes (of_nat worker)) (replicate payload_len 0),
                ls_seq = 0, ls_pacer = \<lparr>sent_sec = 0, sec_start = now\<rparr>, ls_pkts = 0, ls_bytes = 0,
                ls_trace = [], ls_wire = [], ls_sent = []\<rparr>)"

definition recycle :: "TxState \<Rightarrow> TxState" where
  "recycle st =
     (case dequeue_all (ts_comp st) of (cm, done) \<Rightarrow>
        let st' = st\<lparr>ts_comp := cm\<rparr>
        in if done \<noteq> [] then st'\<lparr>ts_pool := ts_pool st' @ done\<rparr> else st')"

text \<open>\<open>tx_batch c kn i k ls sent\<close>: \<open>k\<close> turns of the inner loop are left, the next is the \<open>i\<close>-th.\<close>

fun tx_batch :: "cpu_features \<Rightarrow> (nat \<Rightarrow> TxState \<Rightarrow> TxState) \<Rightarrow> nat \<Rightarrow> nat \<Rightarrow> loop_state \<Rightarrow> nat \<Rightarrow>
    (loop_state \<times> nat) may_panic" where
  "tx_batch c kn i 0 ls sent = Inr (ls, sent)"
| "tx_batch c kn i (Suc k) ls sent =
     (if length (ls_payload ls) < 16 then Inl IndexOutOfBounds
      else
        let pl = write_at 8 (to_le_bytes (ls_seq ls)) (ls_payload ls);
            ls1 = ls\<lparr>ls_payload := pl, ls_seq := ls_seq ls + 1\<rparr>
        in case tx_one c (kn i (ls_st ls1)) pl of
             Inl p \<Rightarrow> Inl p
           | Inr (st', ok) \<Rightarrow>
               if ok then tx_batch c kn (Suc i) k (ls1\<lparr>ls_st := st', ls_wire := ls_wire ls1 @ [pl]\<rparr>) (Suc sent)
               else Inr (ls1\<lparr>ls_st := st'\<rparr>, sent))"

definition count_sent :: "nat \<Rightarrow> nat \<Rightarrow> loop_state \<Rightarrow> loop_state" where
  "count_sent payload_len sent ls =
     (if sent > 0 then
        ls\<lparr>ls_trace := kick (ls_st ls) (ls_trace ls),
           ls_pkts := ls_pkts ls + of_nat sent,
           ls_bytes := ls_bytes ls + of_nat sent * of_nat (OUTER_HDR + payload_len),
           ls_pacer := (ls_pacer ls)\<lparr>sent_sec := sent_sec (ls_pacer ls) + of_nat sent\<rparr>\<rparr>
      else ls)"

definition tx_turn :: "cpu_features \<Rightarrow> nat \<Rightarrow> u64 \<Rightarrow> turn \<Rightarrow> loop_state \<Rightarrow> loop_state may_panic" where
  "tx_turn c payload_len pps tn ls =
     (case tx_batch c (tn_kernel tn) 1 TX_BATCH (ls\<lparr>ls_st := recycle (tn_kernel tn 0 (ls_st ls))\<rparr>) 0 of
        Inl p \<Rightarrow> Inl p
      | Inr (ls1, sent) \<Rightarrow>
          (let ls2 = count_sent payload_len sent ls1
           in Inr (ls2\<lparr>ls_pacer := fst (pace pps (tn_el tn) (tn_restart tn) (ls_pacer ls2)),
                    ls_sent := ls_sent ls2 @ [sent]\<rparr>)))"

fun tx_turns :: "cpu_features \<Rightarrow> nat \<Rightarrow> nat \<Rightarrow> u64 \<Rightarrow> turn list \<Rightarrow> loop_state \<Rightarrow> loop_state may_panic" where
  "tx_turns c payload_len deadline pps [] ls = Inr ls"
| "tx_turns c payload_len deadline pps (tn # tns) ls =
     (if tn_run tn \<and> tn_now tn < deadline then
        (case tx_turn c payload_len pps tn ls of
           Inl p \<Rightarrow> Inl p
         | Inr ls' \<Rightarrow> tx_turns c payload_len deadline pps tns ls')
      else Inr ls)"

definition tx_loop :: "cpu_features \<Rightarrow> TxState \<Rightarrow> nat \<Rightarrow> nat \<Rightarrow> nat \<Rightarrow> u64 \<Rightarrow> nat \<Rightarrow> turn list \<Rightarrow>
    loop_state may_panic" where
  "tx_loop c st worker payload_len deadline pps now tns =
     (case tx_start st worker payload_len now of
        Inl p \<Rightarrow> Inl p
      | Inr ls \<Rightarrow> tx_turns c payload_len deadline pps tns ls)"

section \<open>Frame ownership\<close>

text \<open>All frames of the TX half, on both sides of the border: free, queued for transmission, completed; taken by the kernel
  for transmission, transmitted.  Every operation of the program and of the kernel must keep this multiset.\<close>

definition tx_frames :: "TxState \<Rightarrow> u64 list" where
  "tx_frames st = ts_pool st @ map addr (ring_list (ts_tx st)) @ ring_list (ts_comp st) @
     map addr (ts_queue st) @ ts_sent st"

text \<open>The descriptors still to be transmitted, and all packets handed over so far: those on the wire, then those the kernel will
  read when it comes to their descriptors.\<close>

definition pending :: "TxState \<Rightarrow> XdpDesc list" where
  "pending st = ts_queue st @ ring_list (ts_tx st)"

definition handed :: "TxState \<Rightarrow> bytes list" where
  "handed st = ts_out st @ map (read_desc (ts_mem st)) (pending st)"

definition tx_inv :: "TxState \<Rightarrow> bool" where
  "tx_inv st \<longleftrightarrow> ring_wf (ts_tx st) \<and> ring_wf (ts_comp st) \<and>
     ring_cap (ts_tx st) = 2048 \<and> ring_cap (ts_comp st) = 2048 \<and>
     distinct (tx_frames st) \<and> set (tx_frames st) \<subseteq> set tx_pool_addrs \<and>
     list_all (\<lambda>d. unat (len d) \<le> 4096) (pending st)"

text \<open>What AF_XDP promises: the kernel takes the first \<open>n\<close> descriptors of the TX ring, transmits the first \<open>j\<close> of those it has
  taken, in order, reading their bytes at that moment, and completes some of the frames it has transmitted, in any
  order, each once; nothing else of the worker's state changes.\<close>

definition kernel_tx_step :: "TxState \<Rightarrow> TxState \<Rightarrow> bool" where
  "kernel_tx_step st st' \<longleftrightarrow>
     (\<exists>txr cm n j q done sent.
        q = ts_queue st @ take n (ring_list (ts_tx st)) \<and>
        st' = st\<lparr>ts_tx := txr, ts_comp := cm, ts_queue := drop j q, ts_sent := sent,
                 ts_out := ts_out st @ map (read_desc (ts_mem st)) (take j q)\<rparr> \<and>
        ring_wf txr \<and> ring_cap txr = ring_cap (ts_tx st) \<and> ring_list txr = drop n (ring_list (ts_tx st)) \<and>
        ring_wf cm \<and> ring_cap cm = ring_cap (ts_comp st) \<and> ring_list cm = ring_list (ts_comp st) @ done \<and>
        mset done + mset sent = mset (ts_sent st) + mset (map addr (take j q)))"

lemma mset_take_drop: "mset (take k xs) + mset (drop k xs) = mset xs"
  by (metis append_take_drop_id mset_append)

text \<open>Keeping the multiset of frames keeps the invariant.\<close>

lemma tx_inv_mset:
  assumes "tx_inv st" "mset (tx_frames st') = mset (tx_frames st)"
    and "ring_wf (ts_tx st')" "ring_cap (ts_tx st') = 2048" "ring_wf (ts_comp st')" "ring_cap (ts_comp st') = 2048"
    and "list_all (\<lambda>d. unat (len d) \<le> 4096) (pending st')"
  shows "tx_inv st'"
proof -
  have "distinct (tx_frames st')" "set (tx_frames st') = set (tx_frames st)"
    using assms(1,2) by (metis mset_eq_imp_distinct_iff tx_inv_def, metis mset_eq_setD)
  then show ?thesis using assms by (simp add: tx_inv_def)
qed

lemma kernel_tx_step_inv:
  assumes "kernel_tx_step st st'" "tx_inv st"
  shows "tx_inv st' \<and> mset (tx_frames st') = mset (tx_frames st) \<and> handed st' = handed st \<and>
    prefix (ts_out st) (ts_out st') \<and> ts_hdr st' = ts_hdr st \<and> ts_pool st' = ts_pool st \<and> ts_mem st' = ts_mem st"
proof -
  from assms(1) obtain txr cm n j q d sent where q: "q = ts_queue st @ take n (ring_list (ts_tx st))"
    and st': "st' = st\<lparr>ts_tx := txr, ts_comp := cm, ts_queue := drop j q, ts_sent := sent,
                 ts_out := ts_out st @ map (read_desc (ts_mem st)) (take j q)\<rparr>"
    and txr: "ring_wf txr" "ring_cap txr = ring_cap (ts_tx st)" "ring_list txr = drop n (ring_list (ts_tx st))"
    and cm: "ring_wf cm" "ring_cap cm = ring_cap (ts_comp st)" "ring_list cm = ring_list (ts_comp st) @ d"
    and d: "mset d + mset sent = mset (ts_sent st) + mset (map addr (take j q))"
    unfolding kernel_tx_step_def by (elim exE conjE) (rule that)
  have taken: "mset (map addr (take n (ring_list (ts_tx st)))) + mset (map addr (drop n (ring_list (ts_tx st)))) =
      mset (map addr (ring_list (ts_tx st)))"
    by (simp only: mset_take_drop flip: take_map drop_map)
  have split: "mset (map addr (take j q)) + mset (map addr (drop j q)) = mset (map addr q)"
    by (simp only: mset_take_drop flip: take_map drop_map)
  have "mset (tx_frames st') = mset (ts_pool st) + mset (map addr (drop n (ring_list (ts_tx st)))) +
      mset (ring_list (ts_comp st)) + mset (map addr (drop j q)) + (mset d + mset sent)"
    by (simp add: tx_frames_def st' txr cm ac_simps)
  also have "\<dots> = mset (ts_pool st) + mset (map addr (drop n (ring_list (ts_tx st)))) +
      mset (ring_list (ts_comp st)) + mset (ts_sent st) + (mset (map addr (take j q)) + mset (map addr (drop j q)))"
    unfolding d by (simp only: ac_simps)
  also have "\<dots> = mset (ts_pool st) + (mset (map addr (take n (ring_list (ts_tx st)))) +
      mset (map addr (drop n (ring_list (ts_tx st))))) + mset (ring_list (ts_comp st)) + mset (map addr (ts_queue st)) +
      mset (ts_sent st)"
    unfolding split by (simp add: q ac_simps)
  also have "\<dots> = mset (tx_frames st)" unfolding taken by (simp add: tx_frames_def ac_simps)
  finally have ms: "mset (tx_frames st') = mset (tx_frames st)" .
  have "take j q @ drop j q @ drop n (ring_list (ts_tx st)) = q @ drop n (ring_list (ts_tx st))"
    by (simp only: append_assoc [symmetric] append_take_drop_id)
  also have "\<dots> = pending st" by (simp add: pending_def q)
  finally have "take j q @ drop j q @ drop n (ring_list (ts_tx st)) = pending st" .
  then have pend: "take j q @ pending st' = pending st" by (simp add: pending_def st' txr)
  then have "handed st' = handed st"
    unfolding handed_def by (simp add: st' flip: map_append)
  moreover have "tx_inv st'"
  proof (rule tx_inv_mset [OF assms(2) ms])
    have "list_all (\<lambda>d. unat (len d) \<le> 4096) (take j q @ pending st')"
      using assms(2) unfolding pend by (simp add: tx_inv_def)
    then show "list_all (\<lambda>d. unat (len d) \<le> 4096) (pending st')" by simp
  qed (use assms(2) txr cm in \<open>simp_all add: tx_inv_def st'\<close>)
  ultimately show ?thesis using ms by (simp add: st')
qed

lemma tx_frames_bound:
  assumes "tx_inv st"
  shows "length (ts_pool st) + length (ring_list (ts_tx st)) + length (ring_list (ts_comp st)) +
    length (ts_queue st) + length (ts_sent st) \<le> 2048"
proof -
  have "length (tx_frames st) = card (set (tx_frames st))"
    using assms by (simp add: tx_inv_def distinct_card)
  also have "\<dots> \<le> card (set tx_pool_addrs)"
    using assms by (intro card_mono) (simp_all add: tx_inv_def)
  also have "\<dots> \<le> 2048" using card_length [of tx_pool_addrs] by simp
  finally show ?thesis by (simp add: tx_frames_def)
qed

lemma recycle_inv:
  assumes "tx_inv st"
  shows "tx_inv (recycle st) \<and> mset (tx_frames (recycle st)) = mset (tx_frames st) \<and>
    handed (recycle st) = handed st \<and> ts_out (recycle st) = ts_out st \<and>
    ts_pool (recycle st) = ts_pool st @ ring_list (ts_comp st) \<and> ts_hdr (recycle st) = ts_hdr st \<and>
    ts_mem (recycle st) = ts_mem st \<and> ts_tx (recycle st) = ts_tx st"
proof -
  have wf: "ring_wf (ts_comp st)" using assms by (simp add: tx_inv_def)
  obtain cm d where q: "dequeue_all (ts_comp st) = (cm, d)" by fastforce
  have cm: "ring_wf cm" "ring_cap cm = ring_cap (ts_comp st)" "ring_list cm = []" "d = ring_list (ts_comp st)"
    using addr_ring.deq_wf [OF wf] addr_ring.deq_capacity [OF wf] addr_ring.deq_contents [OF wf]
      addr_ring.deq_result [OF wf] by (simp_all add: q)
  have st: "recycle st = st\<lparr>ts_comp := cm, ts_pool := ts_pool st @ d\<rparr>"
    by (simp add: recycle_def q Let_def)
  have ms: "mset (tx_frames (recycle st)) = mset (tx_frames st)" using cm by (simp add: st tx_frames_def ac_simps)
  have "tx_inv (recycle st)"
    using assms cm by (intro tx_inv_mset [OF assms ms]) (simp_all add: st tx_inv_def pending_def)
  then show ?thesis
    using ms cm by (simp add: st handed_def pending_def)
qed

text \<open>The header that \<^verbatim>\<open>xdp_udp_blast\<close> gives the workers.\<close>

definition has_header :: "TxState \<Rightarrow> bytes \<Rightarrow> bytes \<Rightarrow> Ipv4Addr \<Rightarrow> Ipv4Addr \<Rightarrow> u16 \<Rightarrow> u16 \<Rightarrow> bool" where
  "has_header st sm dm si di sp dp \<longleftrightarrow>
     length sm = 6 \<and> length dm = 6 \<and> ts_hdr st = frame_header_new sm dm si di sp dp"

lemma tx_one_empty: "ts_pool st = [] \<Longrightarrow> tx_one c st payload = Inr (st, False)"
  by (simp add: tx_one_def)

lemma tx_one_sends:
  assumes inv: "tx_inv st" and hdr: "has_header st sm dm si di sp dp"
    and fits: "length payload \<le> 4054" and pool: "ts_pool st = p @ [a]"
  obtains txr where
    "tx_one c st payload = Inr (st\<lparr>ts_pool := p, ts_tx := txr,
       ts_mem := store_bytes (ts_mem st) (unat a)
         (frame_spec sm dm si di sp dp payload @
          drop (42 + length payload) (load_bytes (ts_mem st) (unat a) 4096))\<rparr>, True)"
    "ring_list txr = ring_list (ts_tx st) @ [\<lparr>addr = a, len = of_nat (42 + length payload), options = 0\<rparr>]"
    "ring_wf txr" "ring_cap txr = 2048"
proof -
  define d where "d = \<lparr>addr = a, len = of_nat (42 + length payload), options = 0\<rparr>"
  have wf: "ring_wf (ts_tx st)" "ring_cap (ts_tx st) = 2048" using inv by (simp_all add: tx_inv_def)
  have room: "length (ring_list (ts_tx st)) + length [d] \<le> ring_cap (ts_tx st)"
    using tx_frames_bound [OF inv] wf by (simp add: pool)
  obtain txr k where pt: "produce_tx (ts_tx st) [d] = (txr, k)" by fastforce
  have k: "k = 1" "ring_list txr = ring_list (ts_tx st) @ [d]"
    using desc_ring.enq_all [OF wf(1) room] by (simp_all add: pt)
  have "ring_wf txr" "ring_cap txr = 2048"
    using desc_ring.enq_wf [OF wf(1), of "[d]"] desc_ring.enq_capacity [OF wf(1), of "[d]"] wf(2)
    by (simp_all add: pt)
  moreover have "tx_one c st payload = Inr (st\<lparr>ts_pool := p, ts_tx := txr,
       ts_mem := store_bytes (ts_mem st) (unat a)
         (frame_spec sm dm si di sp dp payload @
          drop (42 + length payload) (load_bytes (ts_mem st) (unat a) 4096))\<rparr>, True)"
    using hdr fits pt k by (simp add: tx_one_def d_def [symmetric, unfolded of_nat_add of_nat_numeral] pool has_header_def write_frame_frame_spec FRAME_SIZE_def Let_def)
  ultimately show thesis using that k(2) unfolding d_def by blast
qed

lemma length_new_frame:
  assumes "has_header st sm dm si di sp dp" "length payload \<le> 4054"
  shows "length (frame_spec sm dm si di sp dp payload @ drop (42 + length payload) (load_bytes m a 4096)) = 4096"
  using assms by (simp add: has_header_def)

lemma tx_one_spec:
  assumes "tx_inv st" "has_header st sm dm si di sp dp" "length payload \<le> 4054"
  shows "\<exists>st'. tx_one c st payload = Inr (st', ts_pool st \<noteq> []) \<and> tx_inv st' \<and>
     ts_hdr st' = ts_hdr st \<and> ts_out st' = ts_out st \<and> mset (tx_frames st') = mset (tx_frames st) \<and>
     handed st' = handed st @ (if ts_pool st = [] then [] else [frame_spec sm dm si di sp dp payload]) \<and>
     (if ts_pool st = [] then st' = st
      else ring_list (ts_tx st') = ring_list (ts_tx st) @
             [\<lparr>addr = last (ts_pool st), len = of_nat (42 + length payload), options = 0\<rparr>] \<and>
           load_bytes (ts_mem st') (unat (last (ts_pool st))) (42 + length payload) =
             frame_spec sm dm si di sp dp payload \<and>
           (\<forall>b \<in> set (rx_addrs @ tx_pool_addrs) - {last (ts_pool st)}.
              load_bytes (ts_mem st') (unat b) 4096 = load_bytes (ts_mem st) (unat b) 4096))"
proof (cases "ts_pool st" rule: rev_cases)
  case Nil
  then show ?thesis using assms(1) by (simp add: tx_one_empty)
next
  case (snoc p a)
  let ?b = "frame_spec sm dm si di sp dp payload @
      drop (42 + length payload) (load_bytes (ts_mem st) (unat a) 4096)"
  obtain txr where one: "tx_one c st payload = Inr (st\<lparr>ts_pool := p, ts_tx := txr,
       ts_mem := store_bytes (ts_mem st) (unat a) ?b\<rparr>, True)"
    and txr: "ring_list txr = ring_list (ts_tx st) @ [\<lparr>addr = a, len = of_nat (42 + length payload), options = 0\<rparr>]"
      "ring_wf txr" "ring_cap txr = 2048"
    using tx_one_sends [OF assms snoc] .
  let ?st' = "st\<lparr>ts_pool := p, ts_tx := txr, ts_mem := store_bytes (ts_mem st) (unat a) ?b\<rparr>"
  have len: "length ?b = 4096" using assms(2,3) by (rule length_new_frame)
  have ms: "mset (tx_frames ?st') = mset (tx_frames st)"
    by (simp add: tx_frames_def snoc txr ac_simps)
  have dlen: "unat (of_nat (42 + length payload) :: u32) = 42 + length payload"
    using assms(3) by (intro unat_of_nat_small) simp
  have pend: "pending ?st' = pending st @ [\<lparr>addr = a, len = of_nat (42 + length payload), options = 0\<rparr>]"
    by (simp add: pending_def txr)
  have inv: "tx_inv ?st'"
    using assms(1,3) txr dlen unfolding tx_inv_def [of st]
    by (intro tx_inv_mset [OF assms(1) ms]) (simp_all add: pend)
  have "load_bytes (store_bytes (ts_mem st) (unat a) ?b) (unat a) (42 + length payload) =
      take (42 + length payload) ?b"
    using load_store_same [of "ts_mem st" "unat a" ?b] len assms(3)
      load_bytes_append [of "store_bytes (ts_mem st) (unat a) ?b" "unat a" "42 + length payload" "4054 - length payload"]
    by simp
  then have bytes: "load_bytes (ts_mem ?st') (unat a) (42 + length payload) = frame_spec sm dm si di sp dp payload"
    using assms(2) by (simp add: has_header_def)
  have a: "a \<in> set (rx_addrs @ tx_pool_addrs)"
    using assms(1) by (auto simp: tx_inv_def tx_frames_def snoc)
  have others: "load_bytes (ts_mem ?st') (unat b) 4096 = load_bytes (ts_mem st) (unat b) 4096"
    if "b \<in> set (rx_addrs @ tx_pool_addrs) - {a}" for b
  proof -
    have "unat a + length ?b \<le> unat b \<or> unat b + 4096 \<le> unat a"
      using that frames_disjoint [OF a, of b] unfolding len by (auto simp: FRAME_SIZE_def)
    from load_store_disjoint [OF this] show ?thesis by simp
  qed
  have kept: "read_desc (ts_mem ?st') d = read_desc (ts_mem st) d" if "d \<in> set (pending st)" for d
  proof -
    have d: "addr d \<in> set (tx_frames st)" using that by (auto simp: pending_def tx_frames_def)
    have "unat (len d) \<le> 4096" using that assms(1) by (simp add: tx_inv_def list_all_iff)
    moreover have "addr d \<noteq> a"
      using that assms(1) by (auto simp: tx_inv_def tx_frames_def snoc pending_def)
    ultimately show ?thesis
      using others [of "addr d"] d assms(1) load_bytes_take [of "unat (len d)" 4096]
      by (auto simp: read_desc_def tx_inv_def)
  qed
  have "read_desc (ts_mem ?st') \<lparr>addr = a, len = of_nat (42 + length payload), options = 0\<rparr> = frame_spec sm dm si di sp dp payload"
    using bytes by (simp only: read_desc_def XdpDesc.select_convs dlen)
  then have "handed ?st' = handed st @ [frame_spec sm dm si di sp dp payload]"
    unfolding handed_def pend using kept by (simp del: of_nat_add)
  then show ?thesis
    using one inv ms txr bytes others by (auto simp: snoc)
qed

text \<open>C4. Sending one frame.  On a worker whose frames are accounted for, \<^verbatim>\<open>tx_one\<close> does not panic for a payload
  that fits, and succeeds exactly when a frame is free: the branch that puts a refused frame back is
  never needed.  The frame moves from the pool to the end of the TX ring, its bytes are the intended
  packet, and no byte of any other frame changes, in particular none the kernel may be reading: what the
  kernel has transmitted and will transmit grows by exactly this packet.\<close>

theorem tx_one_correct:
  assumes "tx_inv st" "has_header st sm dm si di sp dp" "length payload \<le> 4054"
  shows "\<exists>st'. tx_one c st payload = Inr (st', ts_pool st \<noteq> []) \<and> tx_inv st' \<and>
     mset (tx_frames st') = mset (tx_frames st) \<and>
     handed st' = handed st @ (if ts_pool st = [] then [] else [frame_spec sm dm si di sp dp payload]) \<and>
     (if ts_pool st = [] then st' = st
      else ring_list (ts_tx st') = ring_list (ts_tx st) @
             [\<lparr>addr = last (ts_pool st), len = of_nat (42 + length payload), options = 0\<rparr>] \<and>
           load_bytes (ts_mem st') (unat (last (ts_pool st))) (42 + length payload) =
             frame_spec sm dm si di sp dp payload \<and>
           (\<forall>b \<in> set (rx_addrs @ tx_pool_addrs) - {last (ts_pool st)}.
              load_bytes (ts_mem st') (unat b) 4096 = load_bytes (ts_mem st) (unat b) 4096))"
  using tx_one_spec [OF assms, of c] by blast

section \<open>The loop, turn by turn\<close>

definition payload_ok :: "nat \<Rightarrow> nat \<Rightarrow> bytes \<Rightarrow> bool" where
  "payload_ok worker n pl \<longleftrightarrow> length pl = n \<and> 16 \<le> n \<and> n \<le> 4054 \<and>
     take 8 pl = to_le_bytes (of_nat worker) \<and> drop 16 pl = replicate (n - 16) 0"

lemma payload_stamp:
  assumes "payload_ok worker n pl"
  shows "write_at 8 (to_le_bytes q) pl = stamped worker n q" "payload_ok worker n (stamped worker n q)"
    "length (stamped worker n q) = n"
  using assms by (simp_all add: payload_ok_def write_at_def stamped_def)

definition worker_ok :: "bytes \<Rightarrow> bytes \<Rightarrow> Ipv4Addr \<Rightarrow> Ipv4Addr \<Rightarrow> u16 \<Rightarrow> u16 \<Rightarrow> nat \<Rightarrow> nat \<Rightarrow> loop_state \<Rightarrow> bool" where
  "worker_ok sm dm si di sp dp worker n ls \<longleftrightarrow>
     tx_inv (ls_st ls) \<and> has_header (ls_st ls) sm dm si di sp dp \<and> payload_ok worker n (ls_payload ls)"

definition kernel_ok :: "(nat \<Rightarrow> TxState \<Rightarrow> TxState) \<Rightarrow> bool" where
  "kernel_ok kn \<longleftrightarrow> (\<forall>k st. tx_inv st \<longrightarrow> kernel_tx_step st (kn k st))"

lemma kernel_ok_inv:
  assumes "kernel_ok kn" "tx_inv st" "has_header st sm dm si di sp dp"
  shows "tx_inv (kn k st)" "has_header (kn k st) sm dm si di sp dp" "mset (tx_frames (kn k st)) = mset (tx_frames st)"
    "handed (kn k st) = handed st" "prefix (ts_out st) (ts_out (kn k st))"
  using assms kernel_tx_step_inv [of st "kn k st"] by (auto simp: kernel_ok_def has_header_def)

text \<open>How far the sequence number moves in a batch that sends \<open>m\<close>: a refused attempt also takes one.\<close>

definition seq_step :: "nat \<Rightarrow> nat \<Rightarrow> nat" where
  "seq_step k m = (if m < k then Suc m else m)"

lemma tx_batch_spec:
  assumes "kernel_ok kn" "worker_ok sm dm si di sp dp worker n ls"
  shows "\<exists>m st' pl'. m \<le> k \<and> (0 < k \<and> ts_pool (kn i (ls_st ls)) \<noteq> [] \<longrightarrow> 0 < m) \<and>
     tx_batch c kn i k ls s =
       Inr (ls\<lparr>ls_st := st', ls_payload := pl', ls_seq := ls_seq ls + of_nat (seq_step k m),
               ls_wire := ls_wire ls @ map (\<lambda>j. stamped worker n (ls_seq ls + of_nat j)) [0..<m]\<rparr>, s + m) \<and>
     worker_ok sm dm si di sp dp worker n (ls\<lparr>ls_st := st', ls_payload := pl'\<rparr>) \<and>
     mset (tx_frames st') = mset (tx_frames (ls_st ls)) \<and> prefix (ts_out (ls_st ls)) (ts_out st') \<and>
     handed st' = handed (ls_st ls) @ map (\<lambda>j. frame_spec sm dm si di sp dp (stamped worker n (ls_seq ls + of_nat j))) [0..<m]"
  using assms(2)
proof (induction k arbitrary: i ls s)
  case 0
  then show ?case by (intro exI [of _ 0] exI [of _ "ls_st ls"] exI [of _ "ls_payload ls"]) (simp add: seq_step_def)
next
  case (Suc k)
  let ?q = "ls_seq ls" and ?kst = "kn i (ls_st ls)"
  let ?pl = "stamped worker n ?q"
  have pl: "payload_ok worker n (ls_payload ls)" "tx_inv (ls_st ls)" "has_header (ls_st ls) sm dm si di sp dp"
    using Suc.prems by (simp_all add: worker_ok_def)
  note kst = kernel_ok_inv [OF assms(1) pl(2,3), of i]
  have n: "16 \<le> length (ls_payload ls)" "length ?pl \<le> 4054"
    using pl(1) payload_stamp(3) [OF pl(1)] by (auto simp: payload_ok_def)
  obtain st' where one: "tx_one c ?kst ?pl = Inr (st', ts_pool ?kst \<noteq> [])" and st': "tx_inv st'" "ts_hdr st' = ts_hdr ?kst"
    and own: "mset (tx_frames st') = mset (tx_frames (ls_st ls))" "prefix (ts_out (ls_st ls)) (ts_out st')"
      "handed st' = handed (ls_st ls) @ (if ts_pool ?kst = [] then [] else [frame_spec sm dm si di sp dp ?pl])"
    using tx_one_spec [OF kst(1,2) n(2), of c] kst(3-5) by (elim exE conjE, intro that) simp_all
  have hdr: "has_header st' sm dm si di sp dp" using kst(2) st'(2) by (simp add: has_header_def)
  note step = one payload_stamp(1) [OF pl(1)] n(1)
  show ?case
  proof (cases "ts_pool ?kst = []")
    case True
    then show ?thesis
      using step st' hdr payload_stamp(2) [OF pl(1)] own
      by (intro exI [of _ 0] exI [of _ st'] exI [of _ ?pl]) (simp add: Let_def seq_step_def worker_ok_def)
  next
    case False
    let ?ls1 = "ls\<lparr>ls_payload := ?pl, ls_seq := ?q + 1, ls_st := st', ls_wire := ls_wire ls @ [?pl]\<rparr>"
    have "worker_ok sm dm si di sp dp worker n ?ls1"
      using st' hdr payload_stamp(2) [OF pl(1)] by (simp add: worker_ok_def)
    from Suc.IH [OF this, of "Suc i" "Suc s"] obtain m st2 pl2 where m: "m \<le> k"
      "tx_batch c kn (Suc i) k ?ls1 (Suc s) =
         Inr (?ls1\<lparr>ls_st := st2, ls_payload := pl2, ls_seq := ls_seq ?ls1 + of_nat (seq_step k m),
           ls_wire := ls_wire ?ls1 @ map (\<lambda>j. stamped worker n (ls_seq ?ls1 + of_nat j)) [0..<m]\<rparr>, Suc s + m)"
      "worker_ok sm dm si di sp dp worker n (?ls1\<lparr>ls_st := st2, ls_payload := pl2\<rparr>)"
      "mset (tx_frames st2) = mset (tx_frames st')" "prefix (ts_out st') (ts_out st2)"
      "handed st2 = handed st' @ map (\<lambda>j. frame_spec sm dm si di sp dp (stamped worker n (?q + 1 + of_nat j))) [0..<m]"
      by auto
    have w: "[?pl] @ map (\<lambda>j. stamped worker n (?q + 1 + of_nat j)) [0..<m] =
        map (\<lambda>j. stamped worker n (?q + of_nat j)) [0..<Suc m]"
      by (simp add: upt_conv_Cons map_Suc_upt [symmetric] add.assoc comp_def del: upt_Suc)
    from arg_cong [OF this, of "map (frame_spec sm dm si di sp dp)"]
    have h: "handed st2 = handed (ls_st ls) @ map (\<lambda>j. frame_spec sm dm si di sp dp (stamped worker n (?q + of_nat j))) [0..<Suc m]"
      using m(6) own(3) False by (simp add: o_def del: upt_Suc)
    have pre: "prefix (ts_out (ls_st ls)) (ts_out st2)" using own(2) m(5) by (rule prefix_order.trans)
    have q: "?q + 1 + of_nat (seq_step k m) = ?q + of_nat (seq_step (Suc k) (Suc m))"
      by (simp add: seq_step_def)
    show ?thesis
      using False step m(1-4) w q own(1) h pre
      by (intro exI [of _ "Suc m"] exI [of _ st2] exI [of _ pl2]) (simp add: Let_def worker_ok_def)
  qed
qed


text \<open>A whole turn.\<close>

lemma tx_turn_spec:
  assumes "kernel_ok (tn_kernel tn)" "worker_ok sm dm si di sp dp worker n ls"
  shows "\<exists>m ls'. m \<le> TX_BATCH \<and>
     (ts_pool (tn_kernel tn 1 (recycle (tn_kernel tn 0 (ls_st ls)))) \<noteq> [] \<longrightarrow> 0 < m) \<and>
     mset (tx_frames (ls_st ls')) = mset (tx_frames (ls_st ls)) \<and>
     prefix (ts_out (tn_kernel tn 0 (ls_st ls))) (ts_out (ls_st ls')) \<and>
     handed (ls_st ls') = handed (ls_st ls) @
       map (\<lambda>j. frame_spec sm dm si di sp dp (stamped worker n (ls_seq ls + of_nat j))) [0..<m] \<and>
     tx_turn c n pps tn ls = Inr ls' \<and> worker_ok sm dm si di sp dp worker n ls' \<and>
     ls_seq ls' = ls_seq ls + of_nat (seq_step TX_BATCH m) \<and> ls_sent ls' = ls_sent ls @ [m] \<and>
     ls_wire ls' = ls_wire ls @ map (\<lambda>j. stamped worker n (ls_seq ls + of_nat j)) [0..<m] \<and>
     ls_pkts ls' = ls_pkts ls + of_nat m \<and>
     ls_bytes ls' = ls_bytes ls + of_nat m * of_nat (42 + n) \<and>
     length (ls_trace ls') = length (ls_trace ls) + (if m = 0 then 0 else 1) \<and>
     ls_pacer ls' = paced_turn pps \<lparr>tk_now = tn_now tn, tk_sent = m, tk_el = tn_el tn, tk_restart = tn_restart tn\<rparr> (ls_pacer ls)"
proof -
  let ?ls0 = "ls\<lparr>ls_st := recycle (tn_kernel tn 0 (ls_st ls))\<rparr>"
  have ls: "tx_inv (ls_st ls)" "has_header (ls_st ls) sm dm si di sp dp" "payload_ok worker n (ls_payload ls)"
    using assms(2) by (simp_all add: worker_ok_def)
  note k0 = kernel_ok_inv [OF assms(1) ls(1,2), of 0]
  have "worker_ok sm dm si di sp dp worker n ?ls0"
    using recycle_inv [OF k0(1)] k0(2) ls(3) by (simp add: worker_ok_def has_header_def)
  from tx_batch_spec [OF assms(1) this, where k = TX_BATCH and c = c and i = 1 and s = 0] obtain m st' pl' where m: "m \<le> TX_BATCH"
      "ts_pool (tn_kernel tn 1 (recycle (tn_kernel tn 0 (ls_st ls)))) \<noteq> [] \<longrightarrow> 0 < m"
    and run: "tx_batch c (tn_kernel tn) 1 TX_BATCH ?ls0 0 =
       Inr (?ls0\<lparr>ls_st := st', ls_payload := pl', ls_seq := ls_seq ls + of_nat (seq_step TX_BATCH m),
               ls_wire := ls_wire ls @ map (\<lambda>j. stamped worker n (ls_seq ls + of_nat j)) [0..<m]\<rparr>, m)"
    and ok: "worker_ok sm dm si di sp dp worker n (?ls0\<lparr>ls_st := st', ls_payload := pl'\<rparr>)"
    and own: "mset (tx_frames st') = mset (tx_frames (ls_st ?ls0))" "prefix (ts_out (ls_st ?ls0)) (ts_out st')"
      "handed st' = handed (ls_st ?ls0) @ map (\<lambda>j. frame_spec sm dm si di sp dp (stamped worker n (ls_seq ls + of_nat j))) [0..<m]"
    by (auto simp: TX_BATCH_def)
  have own0: "mset (tx_frames st') = mset (tx_frames (ls_st ls))" "prefix (ts_out (tn_kernel tn 0 (ls_st ls))) (ts_out st')"
      "handed st' = handed (ls_st ls) @ map (\<lambda>j. frame_spec sm dm si di sp dp (stamped worker n (ls_seq ls + of_nat j))) [0..<m]"
    using own recycle_inv [OF k0(1)] k0(3,4) by simp_all
  show ?thesis
    using m run ok own0
    by (intro exI [of _ m])
      (auto simp: tx_turn_def count_sent_def paced_turn_def Let_def worker_ok_def frame_consts kick_def emit_def)
qed

section \<open>The loop as a whole\<close>

text \<open>The sequence numbers on the wire, from the number \<open>q\<close> on, when the turns send \<open>ms\<close> frames.\<close>

fun send_seqs :: "u64 \<Rightarrow> nat list \<Rightarrow> u64 list" where
  "send_seqs q [] = []"
| "send_seqs q (m # ms) = map (\<lambda>j. q + of_nat j) [0..<m] @ send_seqs (q + of_nat (seq_step TX_BATCH m)) ms"

definition executed :: "nat \<Rightarrow> turn list \<Rightarrow> turn list" where
  "executed deadline = takeWhile (\<lambda>tn. tn_run tn \<and> tn_now tn < deadline)"

definition ticks :: "turn list \<Rightarrow> nat list \<Rightarrow> tick list" where
  "ticks tns ms = map2 (\<lambda>tn m. \<lparr>tk_now = tn_now tn, tk_sent = m, tk_el = tn_el tn, tk_restart = tn_restart tn\<rparr>) tns ms"

lemma length_send_seqs: "length (send_seqs q ms) = sum_list ms"
  by (induction ms arbitrary: q) simp_all

lemma tx_turns_spec:
  assumes "\<And>tn. tn \<in> set tns \<Longrightarrow> kernel_ok (tn_kernel tn)" "worker_ok sm dm si di sp dp worker n ls"
  shows "\<exists>ms ls'. tx_turns c n deadline pps tns ls = Inr ls' \<and> worker_ok sm dm si di sp dp worker n ls' \<and>
     mset (tx_frames (ls_st ls')) = mset (tx_frames (ls_st ls)) \<and> prefix (ts_out (ls_st ls)) (ts_out (ls_st ls')) \<and>
     handed (ls_st ls') = handed (ls_st ls) @
       map (frame_spec sm dm si di sp dp) (map (stamped worker n) (send_seqs (ls_seq ls) ms)) \<and>
     ls_sent ls' = ls_sent ls @ ms \<and>
     length ms = length (executed deadline tns) \<and> list_all (\<lambda>m. m \<le> TX_BATCH) ms \<and>
     ls_wire ls' = ls_wire ls @ map (stamped worker n) (send_seqs (ls_seq ls) ms) \<and>
     ls_pkts ls' = ls_pkts ls + of_nat (sum_list ms) \<and>
     ls_bytes ls' = ls_bytes ls + of_nat (sum_list ms) * of_nat (42 + n) \<and>
     ls_seq ls' = ls_seq ls + of_nat (sum_list (map (seq_step TX_BATCH) ms)) \<and>
     length (ls_trace ls') = length (ls_trace ls) + length (filter (\<lambda>m. m \<noteq> 0) ms) \<and>
     paced pps deadline (ticks (executed deadline tns) ms) (ls_pacer ls) 0 = (ls_pacer ls', sum_list ms)"
  using assms
proof (induction tns arbitrary: ls)
  case Nil
  then show ?case by (intro exI [of _ "[]"] exI [of _ ls]) (simp add: executed_def ticks_def)
next
  case (Cons tn tns)
  show ?case
  proof (cases "tn_run tn \<and> tn_now tn < deadline")
    case True
    have kn: "kernel_ok (tn_kernel tn)" using Cons.prems(1) by simp
    have first: "prefix (ts_out (ls_st ls)) (ts_out (tn_kernel tn 0 (ls_st ls)))"
      using kernel_ok_inv(5) [OF kn] Cons.prems(2) by (auto simp: worker_ok_def)
    obtain m ls1 where m: "m \<le> TX_BATCH" "tx_turn c n pps tn ls = Inr ls1" "worker_ok sm dm si di sp dp worker n ls1"
      "ls_seq ls1 = ls_seq ls + of_nat (seq_step TX_BATCH m)" "ls_sent ls1 = ls_sent ls @ [m]"
      "ls_wire ls1 = ls_wire ls @ map (\<lambda>j. stamped worker n (ls_seq ls + of_nat j)) [0..<m]"
      "ls_pkts ls1 = ls_pkts ls + of_nat m" "ls_bytes ls1 = ls_bytes ls + of_nat m * of_nat (42 + n)"
      "length (ls_trace ls1) = length (ls_trace ls) + (if m = 0 then 0 else 1)"
      "ls_pacer ls1 = paced_turn pps \<lparr>tk_now = tn_now tn, tk_sent = m, tk_el = tn_el tn, tk_restart = tn_restart tn\<rparr> (ls_pacer ls)"
      and own1: "mset (tx_frames (ls_st ls1)) = mset (tx_frames (ls_st ls))"
      "prefix (ts_out (tn_kernel tn 0 (ls_st ls))) (ts_out (ls_st ls1))"
      "handed (ls_st ls1) = handed (ls_st ls) @
         map (\<lambda>j. frame_spec sm dm si di sp dp (stamped worker n (ls_seq ls + of_nat j))) [0..<m]"
      using tx_turn_spec [OF kn Cons.prems(2), of c pps] by (elim exE conjE) (rule that)
    obtain ms ls2 where ms: "tx_turns c n deadline pps tns ls1 = Inr ls2" "worker_ok sm dm si di sp dp worker n ls2"
      "ls_sent ls2 = ls_sent ls1 @ ms"
      "length ms = length (executed deadline tns)" "list_all (\<lambda>m. m \<le> TX_BATCH) ms"
      "ls_wire ls2 = ls_wire ls1 @ map (stamped worker n) (send_seqs (ls_seq ls1) ms)"
      "ls_pkts ls2 = ls_pkts ls1 + of_nat (sum_list ms)"
      "ls_bytes ls2 = ls_bytes ls1 + of_nat (sum_list ms) * of_nat (42 + n)"
      "ls_seq ls2 = ls_seq ls1 + of_nat (sum_list (map (seq_step TX_BATCH) ms))"
      "length (ls_trace ls2) = length (ls_trace ls1) + length (filter (\<lambda>m. m \<noteq> 0) ms)"
      "paced pps deadline (ticks (executed deadline tns) ms) (ls_pacer ls1) 0 = (ls_pacer ls2, sum_list ms)"
      and own2: "mset (tx_frames (ls_st ls2)) = mset (tx_frames (ls_st ls1))" "prefix (ts_out (ls_st ls1)) (ts_out (ls_st ls2))"
      "handed (ls_st ls2) = handed (ls_st ls1) @
         map (frame_spec sm dm si di sp dp) (map (stamped worker n) (send_seqs (ls_seq ls1) ms))"
      using Cons.IH [OF Cons.prems(1) m(3)] by auto
    have pre: "prefix (ts_out (ls_st ls)) (ts_out (ls_st ls2))"
      using first own1(2) own2(2) by (meson prefix_order.trans)
    have h: "handed (ls_st ls2) = handed (ls_st ls) @
        map (frame_spec sm dm si di sp dp) (map (stamped worker n) (send_seqs (ls_seq ls) (m # ms)))"
      using own1(3) own2(3) m(4) by (simp add: o_def)
    have "paced pps deadline (ticks (executed deadline (tn # tns)) (m # ms)) (ls_pacer ls) 0 = (ls_pacer ls2, sum_list (m # ms))"
      using True ms(11) m(10) paced_shift [of pps deadline "ticks (executed deadline tns) ms" "ls_pacer ls1" m]
      by (simp add: executed_def ticks_def)
    then show ?thesis
      using True m ms own1(1) own2(1) pre h
      by (intro exI [of _ "m # ms"] exI [of _ ls2]) (simp add: executed_def algebra_simps comp_def)
  next
    case False
    then show ?thesis
      using Cons.prems(2) by (intro exI [of _ "[]"] exI [of _ ls]) (auto simp: executed_def ticks_def)
  qed
qed


lemma seq_step_bound: "m \<le> k \<Longrightarrow> m \<le> seq_step k m \<and> seq_step k m \<le> k"
  by (simp add: seq_step_def)

text \<open>Natural-number view of the sequence numbers: no wrap-around within \<open>2\<^sup>6\<^sup>4\<close> attempts.\<close>

fun nat_seqs :: "nat \<Rightarrow> nat list \<Rightarrow> nat list" where
  "nat_seqs q [] = []"
| "nat_seqs q (m # ms) = [q..<q + m] @ nat_seqs (q + seq_step TX_BATCH m) ms"

lemma nat_seqs_range:
  assumes "list_all (\<lambda>m. m \<le> TX_BATCH) ms"
  shows "sorted_wrt (<) (nat_seqs q ms) \<and>
    (\<forall>x \<in> set (nat_seqs q ms). q \<le> x \<and> x < q + sum_list (map (seq_step TX_BATCH) ms))"
  using assms
proof (induction ms arbitrary: q)
  case (Cons m ms)
  then have m: "m \<le> seq_step TX_BATCH m" using seq_step_bound [of m] by simp
  note IH = Cons.IH [of "q + seq_step TX_BATCH m"]
  have bounds: "q + seq_step TX_BATCH m \<le> x" "x < q + seq_step TX_BATCH m + sum_list (map (seq_step TX_BATCH) ms)"
    if "x \<in> set (nat_seqs (q + seq_step TX_BATCH m) ms)" for x
    using IH Cons.prems that by auto
  have "q \<le> x \<and> x < q + sum_list (map (seq_step TX_BATCH) (m # ms))"
    if "x \<in> set (nat_seqs q (m # ms))" for x
    using that m bounds [of x] by auto
  moreover have "sorted_wrt (<) (nat_seqs q (m # ms))"
    using IH Cons.prems m by (fastforce simp: sorted_wrt_append dest: bounds)
  ultimately show ?case by blast
qed simp

lemma send_seqs_nat:
  assumes "list_all (\<lambda>m. m \<le> TX_BATCH) ms" "unat q + sum_list (map (seq_step TX_BATCH) ms) < 2 ^ 64"
  shows "map unat (send_seqs q ms) = nat_seqs (unat q) ms"
  using assms
proof (induction ms arbitrary: q)
  case (Cons m ms)
  have m: "m \<le> seq_step TX_BATCH m" using Cons.prems seq_step_bound [of m] by simp
  have add: "unat (q + of_nat j) = unat q + j" if "j \<le> seq_step TX_BATCH m" for j
    using Cons.prems(2) that by (subst unat_add_small) (simp_all add: unat_of_nat_small)
  have "map unat (map (\<lambda>j. q + of_nat j) [0..<m]) = [unat q..<unat q + m]"
    using m by (intro nth_equalityI) (simp_all add: add)
  moreover have "map unat (send_seqs (q + of_nat (seq_step TX_BATCH m)) ms) = nat_seqs (unat q + seq_step TX_BATCH m) ms"
    using Cons.IH [of "q + of_nat (seq_step TX_BATCH m)"] Cons.prems by (simp add: add)
  ultimately show ?case by simp
qed simp

lemma tx_start_ok:
  assumes "tx_inv st" "has_header st sm dm si di sp dp" "16 \<le> n" "n \<le> 4054"
  shows "\<exists>ls. tx_start st worker n now = Inr ls \<and> worker_ok sm dm si di sp dp worker n ls \<and>
     ls_st ls = st \<and> ls_wire ls = [] \<and> ls_sent ls = [] \<and> ls_pkts ls = 0 \<and> ls_bytes ls = 0 \<and> ls_seq ls = 0 \<and> ls_trace ls = [] \<and>
     ls_pacer ls = \<lparr>sent_sec = 0, sec_start = now\<rparr>"
  using assms by (simp add: tx_start_def worker_ok_def payload_ok_def write_at_def)

text \<open>A worker of which each claim below speaks: frames accounted for, the header of the run, a payload between
  the 16 bytes that \<^verbatim>\<open>xdp_udp_blast\<close> enforces and what fits a frame, a kernel that keeps its promises.\<close>

definition worker_setup :: "TxState \<Rightarrow> bytes \<Rightarrow> bytes \<Rightarrow> Ipv4Addr \<Rightarrow> Ipv4Addr \<Rightarrow> u16 \<Rightarrow> u16 \<Rightarrow> nat \<Rightarrow> turn list \<Rightarrow> bool" where
  "worker_setup st sm dm si di sp dp n tns \<longleftrightarrow>
     tx_inv st \<and> has_header st sm dm si di sp dp \<and> 16 \<le> n \<and> n \<le> 4054 \<and>
     (\<forall>tn \<in> set tns. kernel_ok (tn_kernel tn))"

lemma tx_loop_spec:
  assumes "worker_setup st sm dm si di sp dp n tns"
  shows "\<exists>ms ls. tx_loop c st worker n deadline pps now tns = Inr ls \<and> worker_ok sm dm si di sp dp worker n ls \<and>
     mset (tx_frames (ls_st ls)) = mset (tx_frames st) \<and> prefix (ts_out st) (ts_out (ls_st ls)) \<and>
     handed (ls_st ls) = handed st @ map (frame_spec sm dm si di sp dp) (ls_wire ls) \<and>
     ls_sent ls = ms \<and> length ms = length (executed deadline tns) \<and> list_all (\<lambda>m. m \<le> TX_BATCH) ms \<and>
     ls_wire ls = map (stamped worker n) (send_seqs 0 ms) \<and>
     ls_pkts ls = of_nat (sum_list ms) \<and> ls_bytes ls = of_nat (sum_list ms) * of_nat (42 + n) \<and>
     ls_seq ls = of_nat (sum_list (map (seq_step TX_BATCH) ms)) \<and>
     length (ls_trace ls) = length (filter (\<lambda>m. m \<noteq> 0) ms) \<and>
     paced pps deadline (ticks (executed deadline tns) ms) \<lparr>sent_sec = 0, sec_start = now\<rparr> 0 = (ls_pacer ls, sum_list ms)"
proof -
  obtain ls0 where ls0: "tx_start st worker n now = Inr ls0" "worker_ok sm dm si di sp dp worker n ls0"
    "ls_st ls0 = st" "ls_wire ls0 = []" "ls_sent ls0 = []" "ls_pkts ls0 = 0" "ls_bytes ls0 = 0" "ls_seq ls0 = 0" "ls_trace ls0 = []"
    "ls_pacer ls0 = \<lparr>sent_sec = 0, sec_start = now\<rparr>"
    using tx_start_ok [of st sm dm si di sp dp n worker now] assms unfolding worker_setup_def by blast
  from tx_turns_spec [OF _ ls0(2), of tns c deadline pps] assms ls0 show ?thesis
    by (auto simp: tx_loop_def worker_setup_def)
qed

text \<open>The loop never idles while it could send: a turn that finds a free or a completed frame sends at least one.\<close>

lemma tx_turns_append:
  assumes "\<And>tn. tn \<in> set as \<Longrightarrow> tn_run tn \<and> tn_now tn < deadline" "tx_turns c n deadline pps as ls = Inr ls'"
  shows "tx_turns c n deadline pps (as @ bs) ls = tx_turns c n deadline pps bs ls'"
  using assms by (induction as arbitrary: ls) (auto split: sum.splits)

lemma tx_turn_progress:
  assumes "kernel_ok (tn_kernel tn)" "worker_ok sm dm si di sp dp worker n ls" "tx_turn c n pps tn ls = Inr ls'"
    and "ts_pool (tn_kernel tn 0 (ls_st ls)) \<noteq> [] \<or> ring_list (ts_comp (tn_kernel tn 0 (ls_st ls))) \<noteq> []"
  shows "0 < last (ls_sent ls')"
proof -
  let ?k = "tn_kernel tn 0 (ls_st ls)"
  have inv: "tx_inv ?k" using kernel_ok_inv(1) [OF assms(1)] assms(2) by (auto simp: worker_ok_def)
  note rec = recycle_inv [OF inv]
  have "ts_pool (tn_kernel tn 1 (recycle ?k)) = ts_pool (recycle ?k)"
    using kernel_tx_step_inv [of "recycle ?k" "tn_kernel tn 1 (recycle ?k)"] rec assms(1) by (auto simp: kernel_ok_def)
  then have "ts_pool (tn_kernel tn 1 (recycle ?k)) \<noteq> []" using rec assms(4) by auto
  then show ?thesis using tx_turn_spec [OF assms(1,2), of c pps] assms(3) by auto
qed

lemma tx_loop_progress:
  assumes "worker_setup st sm dm si di sp dp n tns" "executed deadline tns = as @ tn # bs"
  shows "\<exists>la lb. tx_loop c st worker n deadline pps now as = Inr la \<and>
    tx_loop c st worker n deadline pps now (as @ [tn]) = Inr lb \<and>
    (ts_pool (tn_kernel tn 0 (ls_st la)) \<noteq> [] \<or> ring_list (ts_comp (tn_kernel tn 0 (ls_st la))) \<noteq> [] \<longrightarrow>
       0 < last (ls_sent lb))"
proof -
  have run: "tn' \<in> set tns \<and> tn_run tn' \<and> tn_now tn' < deadline" if "tn' \<in> set (as @ [tn])" for tn'
  proof -
    have "tn' \<in> set (executed deadline tns)" using that assms(2) by auto
    then show ?thesis unfolding executed_def by (rule set_takeWhileD)
  qed
  have su: "worker_setup st sm dm si di sp dp n as" "kernel_ok (tn_kernel tn)"
    using assms(1) run by (auto simp: worker_setup_def)
  from tx_loop_spec [OF su(1), of c worker deadline pps now] obtain la where la:
    "tx_loop c st worker n deadline pps now as = Inr la" "worker_ok sm dm si di sp dp worker n la" by blast
  obtain lb where lb: "tx_turn c n pps tn la = Inr lb" using tx_turn_spec [OF su(2) la(2), of c pps] by blast
  obtain l0 where l0: "tx_start st worker n now = Inr l0" "tx_turns c n deadline pps as l0 = Inr la"
    using la(1) by (auto simp: tx_loop_def split: sum.splits)
  have "tx_turns c n deadline pps (as @ [tn]) l0 = tx_turns c n deadline pps [tn] la"
    using run l0(2) by (intro tx_turns_append) auto
  then have "tx_loop c st worker n deadline pps now (as @ [tn]) = Inr lb"
    using l0(1) lb run [of tn] by (simp add: tx_loop_def)
  then show ?thesis using la(1) tx_turn_progress [OF su(2) la(2) lb] by blast
qed

text \<open>C1. The transmit loop, for every schedule and every kernel that keeps AF_XDP's promises.  It never panics.  Every frame
  stays accounted for: the frames that are free, queued, completed or with the kernel are the ones the worker started with, each
  once.  What the kernel has transmitted and will transmit grows by exactly the intended packets, one for each payload
  stamped and accepted; the shared counters grow by their number and their bytes; every turn sends at most a batch, and
  the kernel is woken once per turn that sent something.  And the loop never stalls: a turn that finds a free or
  a completed frame sends.\<close>

theorem tx_loop_correct:
  assumes "worker_setup st sm dm si di sp dp n tns"
  shows "(\<exists>ls. tx_loop c st worker n deadline pps now tns = Inr ls \<and> tx_inv (ls_st ls) \<and>
       mset (tx_frames (ls_st ls)) = mset (tx_frames st) \<and>
       handed (ls_st ls) = handed st @ map (frame_spec sm dm si di sp dp) (ls_wire ls) \<and>
       length (ls_sent ls) = length (executed deadline tns) \<and> list_all (\<lambda>m. m \<le> 64) (ls_sent ls) \<and>
       length (ls_wire ls) = sum_list (ls_sent ls) \<and>
       ls_pkts ls = of_nat (length (ls_wire ls)) \<and>
       ls_bytes ls = of_nat (sum_list (map length (map (frame_spec sm dm si di sp dp) (ls_wire ls)))) \<and>
       length (ls_trace ls) = length (filter (\<lambda>m. m \<noteq> 0) (ls_sent ls))) \<and>
     (\<forall>as tn bs. executed deadline tns = as @ tn # bs \<longrightarrow>
       (\<exists>la lb. tx_loop c st worker n deadline pps now as = Inr la \<and>
          tx_loop c st worker n deadline pps now (as @ [tn]) = Inr lb \<and>
          (ts_pool (tn_kernel tn 0 (ls_st la)) \<noteq> [] \<or> ring_list (ts_comp (tn_kernel tn 0 (ls_st la))) \<noteq> [] \<longrightarrow>
             0 < last (ls_sent lb))))"
    (is "(\<exists>ls. ?run ls) \<and> _")
proof -
  obtain ms ls where ls: "tx_loop c st worker n deadline pps now tns = Inr ls" "worker_ok sm dm si di sp dp worker n ls"
    "mset (tx_frames (ls_st ls)) = mset (tx_frames st)"
    "handed (ls_st ls) = handed st @ map (frame_spec sm dm si di sp dp) (ls_wire ls)"
    "ls_sent ls = ms" "length ms = length (executed deadline tns)" "list_all (\<lambda>m. m \<le> TX_BATCH) ms"
    "ls_wire ls = map (stamped worker n) (send_seqs 0 ms)"
    "ls_pkts ls = of_nat (sum_list ms)" "ls_bytes ls = of_nat (sum_list ms) * of_nat (42 + n)"
    "length (ls_trace ls) = length (filter (\<lambda>m. m \<noteq> 0) ms)"
    using tx_loop_spec [OF assms, of c worker deadline pps now] by blast
  have hdr: "length sm = 6" "length dm = 6" "16 \<le> n" using assms by (simp_all add: worker_setup_def has_header_def)
  then have "map length (map (frame_spec sm dm si di sp dp) (ls_wire ls)) = map (\<lambda>_. 42 + n) (send_seqs 0 ms)"
    by (simp add: ls(8))
  then have "sum_list (map length (map (frame_spec sm dm si di sp dp) (ls_wire ls))) = sum_list ms * (42 + n)"
    by (simp add: map_replicate_const sum_list_replicate length_send_seqs)
  then have bytes: "ls_bytes ls = of_nat (sum_list (map length (map (frame_spec sm dm si di sp dp) (ls_wire ls))))"
    by (simp only: ls(10) of_nat_mult)
  have "tx_inv (ls_st ls)" "length (ls_wire ls) = sum_list ms" "list_all (\<lambda>m. m \<le> 64) ms"
    using ls(2,7,8) by (simp_all add: worker_ok_def length_send_seqs TX_BATCH_def)
  then have "?run ls" using ls(1,3-6,9,11) bytes by simp
  then have "\<exists>ls. ?run ls" by (rule exI)
  then show ?thesis using tx_loop_progress [OF assms] by (intro conjI allI impI)
qed

lemma tx_loop_wire:
  assumes "worker_setup st sm dm si di sp dp n tns" "length tns < 2 ^ 58"
  shows "\<exists>ls qs. tx_loop c st worker n deadline pps now tns = Inr ls \<and>
     worker_ok sm dm si di sp dp worker n ls \<and>
     handed (ls_st ls) = handed st @ map (frame_spec sm dm si di sp dp) (ls_wire ls) \<and>
     ls_pkts ls = of_nat (length qs) \<and> ls_bytes ls = ls_pkts ls * of_nat (42 + n) \<and>
     ls_wire ls = map (stamped worker n) qs \<and> sorted_wrt (<) (map unat qs) \<and>
     (\<forall>q \<in> set qs. q < ls_seq ls) \<and>
     unat (ls_seq ls) \<le> length qs + length (executed deadline tns)"
proof -
  obtain ms ls where ms: "tx_loop c st worker n deadline pps now tns = Inr ls"
    "length ms = length (executed deadline tns)" "list_all (\<lambda>m. m \<le> TX_BATCH) ms"
    "ls_wire ls = map (stamped worker n) (send_seqs 0 ms)"
    "ls_seq ls = of_nat (sum_list (map (seq_step TX_BATCH) ms))"
    "worker_ok sm dm si di sp dp worker n ls"
    "handed (ls_st ls) = handed st @ map (frame_spec sm dm si di sp dp) (ls_wire ls)" "ls_pkts ls = of_nat (sum_list ms)"
    "ls_bytes ls = of_nat (sum_list ms) * of_nat (42 + n)"
    using tx_loop_spec [OF assms(1), of c worker deadline pps now] by blast
  let ?q = "sum_list (map (seq_step TX_BATCH) ms)"
  have bound: "?q \<le> 64 * length ms" "?q \<le> sum_list ms + length ms"
    using ms(3) by (induction ms) (auto simp: TX_BATCH_def seq_step_def)
  have "length ms \<le> length tns" by (simp add: ms(2) executed_def length_takeWhile_le)
  then have small: "?q < 2 ^ 64" using bound assms(2) by simp
  then have seqs: "map unat (send_seqs 0 ms) = nat_seqs 0 ms"
    using send_seqs_nat [OF ms(3), of 0] by simp
  have u: "unat (ls_seq ls) = ?q" using small by (simp add: ms(5) unat_of_nat_small)
  have "q < ls_seq ls" if "q \<in> set (send_seqs 0 ms)" for q
  proof -
    have "unat q \<in> set (nat_seqs 0 ms)" using that by (simp flip: seqs)
    then show ?thesis using nat_seqs_range [OF ms(3), of 0] u by (simp add: word_less_nat_alt)
  qed
  then show ?thesis
    using ms nat_seqs_range [OF ms(3), of 0] u bound
    by (intro exI [of _ ls] exI [of _ "send_seqs 0 ms"]) (simp add: seqs length_send_seqs)
qed

text \<open>C12. What the worker puts on the wire, over fewer than \<open>2\<^sup>5\<^sup>8\<close> turns: payloads stamped with its number and with
  strictly increasing sequence numbers.  The numbers handed out but not on the wire are the refused
  attempts, at most one per turn.\<close>

theorem tx_loop_sequence:
  assumes "worker_setup st sm dm si di sp dp n tns" "length tns < 2 ^ 58"
  shows "\<exists>ls qs. tx_loop c st worker n deadline pps now tns = Inr ls \<and>
     ls_wire ls = map (stamped worker n) qs \<and> sorted_wrt (<) (map unat qs) \<and>
     (\<forall>q \<in> set qs. q < ls_seq ls) \<and>
     unat (ls_seq ls) \<le> length qs + length (executed deadline tns)"
  using tx_loop_wire [OF assms, of c worker deadline pps now] by blast


text \<open>C39. A turn in which no frame is free and none has been completed sends nothing, wakes nobody, and still uses
  up a sequence number: the receiver counts the next frame's number as one packet lost, though nothing was.\<close>

theorem dry_turn_skips_sequence_number:
  assumes "ts_pool (tn_kernel tn 0 (ls_st ls)) = []" "ring_wf (ts_comp (tn_kernel tn 0 (ls_st ls)))"
    and "ring_list (ts_comp (tn_kernel tn 0 (ls_st ls))) = []"
    and "\<forall>st. ts_pool (tn_kernel tn 1 st) = ts_pool st" "16 \<le> length (ls_payload ls)"
  shows "\<exists>ls'. tx_turn c n pps tn ls = Inr ls' \<and> ls_wire ls' = ls_wire ls \<and> ls_pkts ls' = ls_pkts ls \<and>
     ls_trace ls' = ls_trace ls \<and> ls_seq ls' = ls_seq ls + 1"
proof -
  let ?k = "tn_kernel tn 0 (ls_st ls)"
  have d: "snd (dequeue_all (ts_comp ?k)) = []" using assms(2,3) by (simp add: addr_ring.deq_result)
  then have pool: "ts_pool (recycle ?k) = []"
    using assms(1) by (cases "dequeue_all (ts_comp ?k)") (simp add: recycle_def)
  have "tx_batch c (tn_kernel tn) 1 (Suc 63) (ls\<lparr>ls_st := recycle ?k\<rparr>) 0 =
      Inr (ls\<lparr>ls_payload := write_at 8 (to_le_bytes (ls_seq ls)) (ls_payload ls), ls_seq := ls_seq ls + 1,
        ls_st := tn_kernel tn 1 (recycle ?k)\<rparr>, 0)"
    using assms(4,5) pool by (simp add: tx_one_empty Let_def del: Suc_numeral)
  then show ?thesis
    by (simp add: tx_turn_def Let_def count_sent_def TX_BATCH_def)
qed


section \<open>A worker to run\<close>

text \<open>Fresh rings, all TX frames free; and a kernel that transmits and completes everything queued at each look.\<close>

definition demo_ring :: "'a \<Rightarrow> 'a ring" where
  "demo_ring x = \<lparr>ptrs = null_ptrs, producer = 0, consumer = 0, flags = 0,
     descs = replicate (unat RING_SIZE) x, ring_size = RING_SIZE, ring_mask = RING_SIZE - 1\<rparr>"

lemma demo_ring_fresh: "ring_wf (demo_ring x) \<and> ring_list (demo_ring x) = [] \<and> ring_cap (demo_ring x) = 2048"
  by (rule fresh_ring_wf) (simp_all add: demo_ring_def)

definition demo_cpu :: cpu_features where
  "demo_cpu = \<lparr>x86_64 = True, avx512f = False, avx2 = True, sse4_2 = True\<rparr>"

definition demo_worker :: "u64 list \<Rightarrow> TxState" where
  "demo_worker pool = \<lparr>ts_fd = 3, ts_tx = demo_ring \<lparr>addr = 0, len = 0, options = 0\<rparr>, ts_comp = demo_ring 0,
     ts_pool = pool,
     ts_hdr = frame_header_new (replicate 6 1) (replicate 6 2) (Ipv4 10 0 0 1) (Ipv4 10 0 0 2) 40000 5201,
     ts_sa = \<lparr>sxdp_family = 44, sxdp_flags = 0, sxdp_ifindex = 2, sxdp_queue_id = 0, sxdp_shared_umem_fd = 0\<rparr>,
     ts_area = 0, ts_mem = (\<lambda>_. 0), ts_queue = [], ts_sent = [], ts_out = []\<rparr>"

lemma demo_worker_inv: "distinct pool \<Longrightarrow> set pool \<subseteq> set tx_pool_addrs \<Longrightarrow> tx_inv (demo_worker pool)"
  by (simp add: tx_inv_def demo_worker_def demo_ring_fresh tx_frames_def pending_def)

lemma demo_worker_header:
  "has_header (demo_worker pool) (replicate 6 1) (replicate 6 2) (Ipv4 10 0 0 1) (Ipv4 10 0 0 2) 40000 5201"
  by (simp add: has_header_def demo_worker_def)

definition drain :: "nat \<Rightarrow> TxState \<Rightarrow> TxState" where
  "drain k st =
     (case consume_rx (ts_tx st) of (txr, ds) \<Rightarrow>
        let q = ts_queue st @ ds
        in st\<lparr>ts_tx := txr, ts_comp := fst (enqueue_batch (ts_comp st) (ts_sent st @ map addr q)), ts_queue := [],
              ts_sent := [], ts_out := ts_out st @ map (read_desc (ts_mem st)) q\<rparr>)"

lemma drain_eq:
  assumes "tx_inv st"
  obtains txr cm where "drain k st = st\<lparr>ts_tx := txr, ts_comp := cm, ts_queue := [], ts_sent := [],
      ts_out := ts_out st @ map (read_desc (ts_mem st)) (pending st)\<rparr>"
    "ring_wf txr" "ring_cap txr = ring_cap (ts_tx st)" "ring_list txr = []"
    "ring_wf cm" "ring_cap cm = ring_cap (ts_comp st)"
    "ring_list cm = ring_list (ts_comp st) @ ts_sent st @ map addr (pending st)"
proof -
  have wf: "ring_wf (ts_tx st)" "ring_wf (ts_comp st)" using assms by (simp_all add: tx_inv_def)
  obtain txr ds where q: "consume_rx (ts_tx st) = (txr, ds)" by fastforce
  have t: "ring_wf txr" "ring_cap txr = ring_cap (ts_tx st)" "ring_list txr = []" "ds = ring_list (ts_tx st)"
    using desc_ring.deq_wf [OF wf(1)] desc_ring.deq_capacity [OF wf(1)] desc_ring.deq_contents [OF wf(1)]
      desc_ring.deq_result [OF wf(1)] by (simp_all add: q)
  let ?done = "ts_sent st @ map addr (pending st)"
  have room: "length (ring_list (ts_comp st)) + length ?done \<le> ring_cap (ts_comp st)"
    using tx_frames_bound [OF assms] assms by (simp add: pending_def tx_inv_def)
  define cm where "cm = fst (enqueue_batch (ts_comp st) ?done)"
  have "ring_wf cm" "ring_cap cm = ring_cap (ts_comp st)" "ring_list cm = ring_list (ts_comp st) @ ?done"
    using addr_ring.enq_wf [OF wf(2)] addr_ring.enq_capacity [OF wf(2)] addr_ring.enq_all(2) [OF wf(2) room]
    by (simp_all add: cm_def)
  moreover have "drain k st = st\<lparr>ts_tx := txr, ts_comp := cm, ts_queue := [], ts_sent := [],
      ts_out := ts_out st @ map (read_desc (ts_mem st)) (pending st)\<rparr>"
    by (simp add: drain_def q cm_def pending_def t(4) Let_def)
  ultimately show thesis using t(1-3) by (intro that) simp_all
qed

lemma drain_kernel_ok: "kernel_ok drain"
  unfolding kernel_ok_def
proof (intro allI impI)
  fix k st
  assume "tx_inv st"
  then obtain txr cm where d: "drain k st = st\<lparr>ts_tx := txr, ts_comp := cm, ts_queue := [], ts_sent := [],
      ts_out := ts_out st @ map (read_desc (ts_mem st)) (pending st)\<rparr>"
    "ring_wf txr" "ring_cap txr = ring_cap (ts_tx st)" "ring_list txr = []"
    "ring_wf cm" "ring_cap cm = ring_cap (ts_comp st)"
    "ring_list cm = ring_list (ts_comp st) @ ts_sent st @ map addr (pending st)" by (rule drain_eq)
  then show "kernel_tx_step st (drain k st)"
    unfolding kernel_tx_step_def
    by (intro exI [of _ txr] exI [of _ cm] exI [of _ "length (ring_list (ts_tx st))"] exI [of _ "length (pending st)"]
        exI [of _ "pending st"] exI [of _ "ts_sent st @ map addr (pending st)"] exI [of _ "[]"])
      (simp add: pending_def)
qed

definition demo_turn :: "nat \<Rightarrow> turn" where
  "demo_turn i = \<lparr>tn_run = True, tn_now = i * SECOND, tn_kernel = drain, tn_el = i * SECOND,
     tn_restart = Suc i * SECOND\<rparr>"

definition demo_turns :: "turn list" where
  "demo_turns = [demo_turn 0, demo_turn 1, demo_turn 2]"

lemma demo_setup:
  "worker_setup (demo_worker [frame_addr 2048]) (replicate 6 1) (replicate 6 2) (Ipv4 10 0 0 1) (Ipv4 10 0 0 2)
     40000 5201 64 demo_turns"
proof -
  have "frame_addr 2048 \<in> set tx_pool_addrs" by (simp add: tx_pool_addrs_def ring_size_le_count)
  then show ?thesis
    using demo_worker_header drain_kernel_ok
    by (auto simp: worker_setup_def demo_turns_def demo_turn_def intro!: demo_worker_inv)
qed


lemma demo_clock_turn:
  assumes "sec_start p \<le> i * SECOND"
  shows "clock_ok pps [\<lparr>tk_now = tn_now (demo_turn i), tk_sent = m, tk_el = tn_el (demo_turn i),
            tk_restart = tn_restart (demo_turn i)\<rparr>] p"
    and "sec_start (paced_turn pps \<lparr>tk_now = tn_now (demo_turn i), tk_sent = m, tk_el = tn_el (demo_turn i),
            tk_restart = tn_restart (demo_turn i)\<rparr> p) \<le> Suc i * SECOND"
  using assms by (auto simp: demo_turn_def pace_def paced_turn_def Let_def)

lemma demo_clock: "clock_ok pps (ticks [demo_turn 0, demo_turn 1] ms) \<lparr>sent_sec = 0, sec_start = 0\<rparr>"
proof -
  have "clock_ok pps (ticks (map demo_turn [i..<j]) ms) p" if "sec_start p \<le> i * SECOND" for i j p ms
    using that
  proof (induction "j - i" arbitrary: i p ms)
    case (Suc d)
    then have "[i..<j] = i # [Suc i..<j]" by (simp add: upt_conv_Cons)
    moreover have "d = j - Suc i" using Suc.hyps(2) by simp
    ultimately show ?case
      using Suc.hyps(1) [of "Suc i"] Suc.prems demo_clock_turn [OF Suc.prems, of pps "hd ms"]
      by (cases ms) (simp_all add: ticks_def)
  qed (simp add: ticks_def)
  from this [of "\<lparr>sent_sec = 0, sec_start = 0\<rparr>" 0 2 ms] show ?thesis by (simp add: upt_rec numeral_2_eq_2)
qed

theorem tx_one_correct_witness:
  "\<exists>st'. tx_one demo_cpu (demo_worker [frame_addr 2048]) [7] = Inr (st', True) \<and>
     load_bytes (ts_mem st') (unat (frame_addr 2048)) 43 =
       frame_spec (replicate 6 1) (replicate 6 2) (Ipv4 10 0 0 1) (Ipv4 10 0 0 2) 40000 5201 [7]"
proof -
  have "frame_addr 2048 \<in> set tx_pool_addrs" by (simp add: tx_pool_addrs_def ring_size_le_count)
  then have inv: "tx_inv (demo_worker [frame_addr 2048])" by (intro demo_worker_inv) auto
  have pool: "ts_pool (demo_worker [frame_addr 2048]) = [frame_addr 2048]" by (simp add: demo_worker_def)
  show ?thesis
    using tx_one_correct [OF inv demo_worker_header, of "[7]" demo_cpu] unfolding pool by auto
qed

theorem tx_loop_correct_witness:
  "\<exists>ls. tx_loop demo_cpu (demo_worker [frame_addr 2048]) 0 64 (2 * SECOND) 0 0 demo_turns = Inr ls \<and>
     tx_inv (ls_st ls) \<and> ls_pkts ls = of_nat (length (ls_wire ls)) \<and> length (ls_sent ls) = 2"
  using tx_loop_correct [OF demo_setup, of demo_cpu 0 "2 * SECOND" 0 0]
  by (auto simp: executed_def demo_turns_def demo_turn_def SECOND_def)

theorem tx_loop_sequence_witness:
  "\<exists>ls qs. tx_loop demo_cpu (demo_worker [frame_addr 2048]) 0 64 (2 * SECOND) 0 0 demo_turns = Inr ls \<and>
     ls_wire ls = map (stamped 0 64) qs \<and> sorted_wrt (<) (map unat qs)"
  using tx_loop_sequence [OF demo_setup, of demo_cpu 0 "2 * SECOND" 0 0] by (auto simp: demo_turns_def)


theorem dry_turn_skips_sequence_number_witness:
  "\<exists>ls ls'. tx_start (demo_worker []) 0 64 0 = Inr ls \<and> tx_turn demo_cpu 64 0 (demo_turn 0) ls = Inr ls' \<and>
     ls_wire ls' = [] \<and> ls_seq ls' = 1"
proof -
  obtain ls where ls: "tx_start (demo_worker []) 0 64 0 = Inr ls" "ls_st ls = demo_worker []"
    "length (ls_payload ls) = 64" "ls_wire ls = []" "ls_seq ls = 0"
    by (simp add: tx_start_def)
  let ?k = "drain 0 (demo_worker [])"
  have inv: "tx_inv (demo_worker [])" by (intro demo_worker_inv) simp_all
  have pool: "ts_pool (drain k st) = ts_pool st" for k st by (simp add: drain_def split: prod.splits)
  have kinv: "tx_inv ?k" using kernel_ok_inv(1) [OF drain_kernel_ok inv demo_worker_header] .
  have none: "snd (consume_rx (ts_tx (demo_worker []))) = []"
    using desc_ring.deq_result [of "ts_tx (demo_worker [])"] inv demo_ring_fresh [of "\<lparr>addr = 0, len = 0, options = 0\<rparr>"]
    by (simp add: tx_inv_def) (simp add: demo_worker_def)
  then have "ts_comp ?k = fst (enqueue_batch (demo_ring 0) [])"
    by (cases "consume_rx (ts_tx (demo_worker []))") (simp add: drain_def, simp add: demo_worker_def)
  then have "ring_list (ts_comp ?k) = []"
    using addr_ring.enq_contents [of "demo_ring 0" "[]"] demo_ring_fresh [of "0::u64"] by simp
  moreover have "tn_kernel (demo_turn 0) = drain" by (simp add: demo_turn_def)
  moreover have "ts_pool (demo_worker []) = []" by (simp add: demo_worker_def)
  ultimately have "\<exists>ls'. tx_turn demo_cpu 64 0 (demo_turn 0) ls = Inr ls' \<and> ls_wire ls' = ls_wire ls \<and>
      ls_pkts ls' = ls_pkts ls \<and> ls_trace ls' = ls_trace ls \<and> ls_seq ls' = ls_seq ls + 1"
    using ls pool kinv by (intro dry_turn_skips_sequence_number) (simp_all add: tx_inv_def)
  with ls show ?thesis by auto
qed


text \<open>The first frame of the demonstration run is on the wire at its end.\<close>

lemma ts_pool_drain: "ts_pool (drain k st) = ts_pool st"
  by (simp add: drain_def Let_def split: prod.splits)

lemma drain_out:
  assumes "tx_inv st"
  shows "ts_out (drain k st) = handed st"
  by (rule drain_eq [OF assms, of k]) (simp add: handed_def)

lemma demo_out:
  assumes "tx_loop demo_cpu (demo_worker [frame_addr 2048]) 0 64 (2 * SECOND) 0 0 demo_turns = Inr ls"
  shows "ts_out (ls_st ls) \<noteq> []"
proof -
  let ?st = "demo_worker [frame_addr 2048]"
  have su: "tx_inv ?st" "has_header ?st (replicate 6 1) (replicate 6 2) (Ipv4 10 0 0 1) (Ipv4 10 0 0 2) 40000 5201"
    using demo_setup unfolding worker_setup_def by blast+
  obtain ls0 where ls0: "tx_start ?st 0 64 0 = Inr ls0" "ls_st ls0 = ?st"
    "worker_ok (replicate 6 1) (replicate 6 2) (Ipv4 10 0 0 1) (Ipv4 10 0 0 2) 40000 5201 0 64 ls0"
    using tx_start_ok [OF su, of 64 0 0] by auto
  have kn: "tn_kernel (demo_turn i) = drain" for i by (simp add: demo_turn_def)
  have ok: "kernel_ok (tn_kernel (demo_turn i))" for i by (simp add: kn drain_kernel_ok)
  obtain m ls1 where ls1: "tx_turn demo_cpu 64 0 (demo_turn 0) ls0 = Inr ls1"
    "worker_ok (replicate 6 1) (replicate 6 2) (Ipv4 10 0 0 1) (Ipv4 10 0 0 2) 40000 5201 0 64 ls1"
    "ls_sent ls1 = ls_sent ls0 @ [m]"
    "handed (ls_st ls1) = handed (ls_st ls0) @ map (\<lambda>j. frame_spec (replicate 6 1) (replicate 6 2) (Ipv4 10 0 0 1)
       (Ipv4 10 0 0 2) 40000 5201 (stamped 0 64 (ls_seq ls0 + of_nat j))) [0..<m]"
    using tx_turn_spec [OF ok ls0(3), of 0 demo_cpu 0] by blast
  have "ts_pool (tn_kernel (demo_turn 0) 0 (ls_st ls0)) \<noteq> []"
    by (simp add: kn ts_pool_drain ls0(2)) (simp add: demo_worker_def)
  from tx_turn_progress [OF ok ls0(3) ls1(1) disjI1 [OF this]] have "0 < m" by (simp add: ls1(3))
  then have ne: "handed (ls_st ls1) \<noteq> []" using ls1(4) by auto
  obtain ls2 where ls2: "tx_turn demo_cpu 64 0 (demo_turn 1) ls1 = Inr ls2"
    "prefix (ts_out (tn_kernel (demo_turn 1) 0 (ls_st ls1))) (ts_out (ls_st ls2))"
    using tx_turn_spec [OF ok ls1(2), of 1 demo_cpu 0] by blast
  have "ls = ls2"
    using assms ls0(1) ls1(1) ls2(1) by (simp add: tx_loop_def demo_turns_def demo_turn_def SECOND_def)
  moreover have "tx_inv (ls_st ls1)" using ls1(2) by (simp add: worker_ok_def)
  ultimately show ?thesis using ls2(2) ne by (auto simp: kn drain_out)
qed

end
