(* ===== verification/Xdp_Prog.thy ===== *)
theory Xdp_Prog
  imports Frame
begin

unbundle bit_operations_syntax

text \<open>
  The XDP program \<^verbatim>\<open>ebpf/runperf_xdp.c\<close>, which decides for every incoming frame whether it goes to
  an AF_XDP socket or up the kernel's stack.  \<^verbatim>\<open>data\<close> and \<^verbatim>\<open>data_end\<close> delimit the frame, a byte list
  here; every read is guarded by a length check in the code, and the model reads only behind the
  same check.  \<open>xsks\<close> is the map \<^verbatim>\<open>XSKS\<close> from queue to socket, and the kernel's helper that
  looks it up is a parameter.  The theorems: exactly the UDP
  packets over IPv4 without options or over IPv6 without extension headers are redirected, to
  the socket of their queue, and every frame that the generator builds is one of them.
\<close>

section \<open>The program\<close>

datatype xdp_action = XDP_PASS | XDP_REDIRECT int

text \<open>\<^verbatim>\<open>bpf_redirect_map(&XSKS, index, flags)\<close> is a helper of the kernel and a parameter: a function of the entries of
  the map, the index and the action in the flags.  Its documented behaviour, for an XSKMAP: redirect to the socket of
  the entry, or take the action of the flags when the map has none.\<close>

type_synonym redirect_map = "(u32 \<rightharpoonup> int) \<Rightarrow> u32 \<Rightarrow> xdp_action \<Rightarrow> xdp_action"

definition redirect_map_ok :: "redirect_map \<Rightarrow> bool" where
  "redirect_map_ok bpf_redirect_map \<longleftrightarrow>
     (\<forall>xsks q flags. bpf_redirect_map xsks q flags = (case xsks q of Some fd \<Rightarrow> XDP_REDIRECT fd | None \<Rightarrow> flags))"

definition dns_xdp_client :: "redirect_map \<Rightarrow> (u32 \<rightharpoonup> int) \<Rightarrow> u32 \<Rightarrow> bytes \<Rightarrow> xdp_action" where
  "dns_xdp_client bpf_redirect_map xsks rx_queue_index data =
     (if length data < 14 then XDP_PASS
      else
        let eth_proto = from_be_bytes (data ! 12) (data ! 13) in
        if eth_proto = 0x0800 then
          if length data < 14 + 20 then XDP_PASS
          else if data ! (14 + 9) \<noteq> 17 then XDP_PASS
          else if data ! 14 AND 0xF \<noteq> 5 then XDP_PASS
          else if length data < 14 + 20 + 8 then XDP_PASS
          else bpf_redirect_map xsks rx_queue_index XDP_PASS
        else if eth_proto = 0x86DD then
          if length data < 14 + 40 then XDP_PASS
          else if data ! (14 + 6) \<noteq> 17 then XDP_PASS
          else if length data < 14 + 40 + 8 then XDP_PASS
          else bpf_redirect_map xsks rx_queue_index XDP_PASS
        else XDP_PASS)"

section \<open>Which frames are redirected\<close>

definition udp_over_ipv4 :: "bytes \<Rightarrow> bool" where
  "udp_over_ipv4 f \<longleftrightarrow> 42 \<le> length f \<and> subslice 12 14 f = [0x08, 0x00] \<and> f ! 23 = 17 \<and> unat (f ! 14) mod 16 = 5"

definition udp_over_ipv6 :: "bytes \<Rightarrow> bool" where
  "udp_over_ipv6 f \<longleftrightarrow> 62 \<le> length f \<and> subslice 12 14 f = [0x86, 0xDD] \<and> f ! 20 = 17"

lemma from_be_bytes_inj: "from_be_bytes h l = from_be_bytes h' l' \<longleftrightarrow> h = h' \<and> l = l'"
proof -
  have "hi_byte (from_be_bytes h l) = h" "lo_byte (from_be_bytes h l) = l" for h l
    by (auto intro!: bit_word_eqI simp: hi_byte_def lo_byte_def from_be_bytes_def bit_simps bit_beyond_word)
  then show ?thesis by metis
qed

lemma ethertypes:
  "from_be_bytes h l = 0x0800 \<longleftrightarrow> h = 0x08 \<and> l = 0x00"
  "from_be_bytes h l = 0x86DD \<longleftrightarrow> h = 0x86 \<and> l = 0xDD"
proof -
  have "from_be_bytes 0x08 0x00 = 0x0800" "from_be_bytes 0x86 0xDD = 0x86DD"
    by (simp_all add: from_be_bytes_def)
  then show "from_be_bytes h l = 0x0800 \<longleftrightarrow> h = 0x08 \<and> l = 0x00"
    "from_be_bytes h l = 0x86DD \<longleftrightarrow> h = 0x86 \<and> l = 0xDD"
    using from_be_bytes_inj by metis+
qed

lemma subslice_ethertype:
  "14 \<le> length f \<Longrightarrow> subslice 12 14 f = [h, l] \<longleftrightarrow> f ! 12 = h \<and> f ! 13 = l"
proof -
  assume "14 \<le> length f"
  then have "subslice 12 14 f = [f ! 12, f ! 13]"
    by (intro nth_equalityI) (auto simp: subslice_def less_Suc_eq numeral_2_eq_2)
  then show ?thesis by simp
qed

lemma low_nibble: "(b :: u8) AND 0xF = 5 \<longleftrightarrow> unat b mod 16 = 5"
  using unat_and_mask [of "0xF :: u8" 4 b] by (simp add: word_unat_eq_iff)

lemma dns_xdp_client_eq:
  "dns_xdp_client rm xsks q f = (if udp_over_ipv4 f \<or> udp_over_ipv6 f then rm xsks q XDP_PASS else XDP_PASS)"
proof (cases "14 \<le> length f")
  case True
  note e = subslice_ethertype [OF True]
  show ?thesis
    by (auto simp: dns_xdp_client_def udp_over_ipv4_def udp_over_ipv6_def e ethertypes low_nibble Let_def)
qed (auto simp: dns_xdp_client_def udp_over_ipv4_def udp_over_ipv6_def)

lemma dns_xdp_client_redirect:
  assumes "redirect_map_ok rm"
  shows "dns_xdp_client rm xsks q f =
     (if udp_over_ipv4 f \<or> udp_over_ipv6 f
      then (case xsks q of Some fd \<Rightarrow> XDP_REDIRECT fd | None \<Rightarrow> XDP_PASS)
      else XDP_PASS)"
  using assms by (simp add: dns_xdp_client_eq redirect_map_ok_def)

text \<open>C26. The program redirects a frame exactly when it is UDP over option-free IPv4 or over IPv6 and a
  socket is registered for the receiving queue, and then to that socket; everything else passes.
  Destination and ports play no role: the file's opening comment, which promises that only packets with source
  port 53 are redirected and all others pass unchanged, does not describe the code.\<close>

theorem xdp_redirects_udp:
  assumes "redirect_map_ok bpf_redirect_map"
  shows "dns_xdp_client bpf_redirect_map xsks q f =
     (if udp_over_ipv4 f \<or> udp_over_ipv6 f
      then (case xsks q of Some fd \<Rightarrow> XDP_REDIRECT fd | None \<Rightarrow> XDP_PASS)
      else XDP_PASS)"
  by (rule dns_xdp_client_redirect [OF assms])

text \<open>The frames of the generator.\<close>

lemma frame_spec_udp:
  assumes "length src_mac = 6" "length dst_mac = 6"
  shows "udp_over_ipv4 (frame_spec src_mac dst_mac src dst sp dp payload)"
proof -
  let ?f = "frame_spec src_mac dst_mac src dst sp dp payload"
  obtain m where m: "dst_mac @ src_mac = m" "length m = 12" using assms by simp
  then have f: "?f = m @ [0x08, 0x00] @ ipv4_header_spec src dst (of_nat (28 + length payload))
      @ udp_header_spec sp dp (of_nat (8 + length payload)) @ payload"
    by (simp add: frame_spec_def flip: m(1))
  have "42 \<le> length ?f"
    using m by (simp add: f ipv4_header_spec_def ipv4_header0_def udp_header_spec_def)
  moreover have "subslice 12 14 ?f = [0x08, 0x00]" using m by (simp add: f subslice_def)
  moreover have "?f ! 23 = 17" "?f ! 14 = 0x45"
    using m by (simp_all add: f nth_append ipv4_header_spec_def ipv4_header0_def)
  ultimately show ?thesis by (simp add: udp_over_ipv4_def)
qed

text \<open>A helper that behaves as documented, and a packet from port 40000 that it redirects.\<close>

definition lookup_redirect :: redirect_map where
  "lookup_redirect xsks q flags = (case xsks q of Some fd \<Rightarrow> XDP_REDIRECT fd | None \<Rightarrow> flags)"

lemma lookup_redirect_ok: "redirect_map_ok lookup_redirect"
  by (simp add: redirect_map_ok_def lookup_redirect_def)

theorem xdp_redirects_udp_witness:
  "dns_xdp_client lookup_redirect [0 \<mapsto> 7] 0
     (frame_spec (replicate 6 1) (replicate 6 2) (Ipv4 10 0 0 1) (Ipv4 10 0 0 2) 40000 5201 [7]) = XDP_REDIRECT 7 \<and>
   dns_xdp_client lookup_redirect [0 \<mapsto> 7] 1
     (frame_spec (replicate 6 1) (replicate 6 2) (Ipv4 10 0 0 1) (Ipv4 10 0 0 2) 40000 5201 [7]) = XDP_PASS"
  using frame_spec_udp [of "replicate 6 1" "replicate 6 2"]
  by (simp add: xdp_redirects_udp [OF lookup_redirect_ok])

end
