(* ===== verification/Loader.thy ===== *)
theory Loader
  imports Xdp_Prog
begin

text \<open>
  \<^verbatim>\<open>src/xdp/loader.rs\<close>: loading the XDP program with the \<^verbatim>\<open>aya\<close> library, attaching it, and
  registering sockets in the map \<^verbatim>\<open>XSKS\<close>.  Every call of \<^verbatim>\<open>aya\<close> and \<^verbatim>\<open>setrlimit\<close> is a field of
  the parameter \<open>aya\<close>, which gives its answer; an object file is an abstract \<open>'b\<close>, a program an
  abstract \<open>'p\<close>, a map an abstract \<open>'m\<close>.  The theorems: the copy into aligned storage is the program, driver mode is
  preferred, and a registered socket is where the XDP program sends its queue.
\<close>

section \<open>The code\<close>

datatype attach_mode = DRV_MODE | SKB_MODE

datatype loader_error =
    SetRlimit string
  | BpfProgLoad string
  | SectionNotFound
  | ProgramTypeMismatch string
  | XdpProgLoad string
  | XdpAttach string string
  | XsksMapNotFound
  | XsksNotXskMap string
  | XskMapSet u32 string

record ('b, 'p, 'm) aya =
  aya_setrlimit :: int
  aya_last_error :: string
  aya_ebpf_load :: "bytes \<Rightarrow> string + 'b"
  aya_program_mut :: "'b \<Rightarrow> string \<Rightarrow> 'p option"
  aya_try_into_xdp :: "'p \<Rightarrow> string + 'p"
  aya_prog_load :: "'p \<Rightarrow> string + unit"
  aya_attach :: "'p \<Rightarrow> string \<Rightarrow> attach_mode \<Rightarrow> string + unit"
  aya_map_mut :: "'b \<Rightarrow> string \<Rightarrow> 'm option"
  aya_try_from_map :: "'m \<Rightarrow> string + 'm"
  aya_xsk_set :: "'m \<Rightarrow> u32 \<Rightarrow> int \<Rightarrow> u64 \<Rightarrow> string + unit"

text \<open>The handle: the object file, and what loading has done to the interface (where and in which mode the
  program is attached; the entries of its map).\<close>

record 'b XdpHandle =
  bpf :: 'b
  attached :: "string \<times> attach_mode"
  xsks :: "u32 \<rightharpoonup> int"

definition map_err :: "('e \<Rightarrow> 'f) \<Rightarrow> 'e + 'a \<Rightarrow> 'f + 'a" where
  "map_err f r = (case r of Inl e \<Rightarrow> Inl (f e) | Inr x \<Rightarrow> Inr x)"

definition bind_res :: "'e + 'a \<Rightarrow> ('a \<Rightarrow> 'e + 'b) \<Rightarrow> 'e + 'b" where
  "bind_res r f = (case r of Inl e \<Rightarrow> Inl e | Inr x \<Rightarrow> f x)"

text \<open>\<^verbatim>\<open>div_ceil(8)\<close> words of zeros, the program copied over them, and the bytes read back.\<close>

definition aligned_copy :: "bytes \<Rightarrow> bytes" where
  "aligned_copy prog =
     (let words = (length prog + 7) div 8;
          storage = replicate (8 * words) 0
      in take (length prog) (write_at 0 prog storage))"

definition attach_any :: "('p \<Rightarrow> string \<Rightarrow> attach_mode \<Rightarrow> string + unit) \<Rightarrow> 'p \<Rightarrow> string \<Rightarrow> string + attach_mode" where
  "attach_any attach p iface =
     (case attach p iface DRV_MODE of
        Inr _ \<Rightarrow> Inr DRV_MODE
      | Inl _ \<Rightarrow> (case attach p iface SKB_MODE of Inr _ \<Rightarrow> Inr SKB_MODE | Inl e \<Rightarrow> Inl e))"

definition xdp_load :: "('b, 'p, 'm) aya \<Rightarrow> bytes \<Rightarrow> string \<Rightarrow> loader_error + 'b XdpHandle" where
  "xdp_load a xdp_prog iface =
     (if aya_setrlimit a \<noteq> 0 then Inl (SetRlimit (aya_last_error a))
      else
        bind_res (map_err BpfProgLoad (aya_ebpf_load a (aligned_copy xdp_prog))) (\<lambda>b.
        bind_res (case aya_program_mut a b ''dns_xdp_client'' of None \<Rightarrow> Inl SectionNotFound | Some p \<Rightarrow> Inr p) (\<lambda>p0.
        bind_res (map_err ProgramTypeMismatch (aya_try_into_xdp a p0)) (\<lambda>p.
        bind_res (map_err XdpProgLoad (aya_prog_load a p)) (\<lambda>_.
        bind_res (map_err (XdpAttach iface) (attach_any (aya_attach a) p iface)) (\<lambda>m.
        Inr \<lparr>bpf = b, attached = (iface, m), xsks = Map.empty\<rparr>))))))"

definition register_socket :: "('b, 'p, 'm) aya \<Rightarrow> 'b XdpHandle \<Rightarrow> u32 \<Rightarrow> int \<Rightarrow> loader_error + 'b XdpHandle" where
  "register_socket a h queue_id sock_fd =
     bind_res (case aya_map_mut a (bpf h) ''XSKS'' of None \<Rightarrow> Inl XsksMapNotFound | Some m \<Rightarrow> Inr m) (\<lambda>m0.
     bind_res (map_err XsksNotXskMap (aya_try_from_map a m0)) (\<lambda>m.
     bind_res (map_err (XskMapSet queue_id) (aya_xsk_set a m queue_id sock_fd 0)) (\<lambda>_.
     Inr (h\<lparr>xsks := (xsks h)(queue_id \<mapsto> sock_fd)\<rparr>))))"

section \<open>Properties\<close>

lemma bind_res_Inr: "bind_res r f = Inr y \<longleftrightarrow> (\<exists>x. r = Inr x \<and> f x = Inr y)"
  by (auto simp: bind_res_def split: sum.splits)

lemma bind_res_Inl: "bind_res r f = Inl e \<longleftrightarrow> r = Inl e \<or> (\<exists>x. r = Inr x \<and> f x = Inl e)"
  by (auto simp: bind_res_def split: sum.splits)

lemma map_err_Inr: "map_err f r = Inr y \<longleftrightarrow> r = Inr y"
  by (auto simp: map_err_def split: sum.splits)

lemmas res_iffs = bind_res_Inr bind_res_Inl map_err_Inr

lemma aligned_copy_eq: "aligned_copy prog = prog"
proof -
  have "length prog \<le> 8 * ((length prog + 7) div 8)" by linarith
  then show ?thesis by (simp add: aligned_copy_def write_at_def Let_def)
qed

lemma attach_any_Inr:
  "attach_any attach p iface = Inr m \<Longrightarrow>
     attach p iface m = Inr () \<and> (m = SKB_MODE \<longrightarrow> (\<exists>e. attach p iface DRV_MODE = Inl e))"
  by (cases "attach p iface DRV_MODE"; cases "attach p iface SKB_MODE") (auto simp: attach_any_def)

lemma xdp_load_xsks: "xdp_load a prog iface = Inr h \<Longrightarrow> xsks h = Map.empty"
  by (auto simp: xdp_load_def res_iffs split: if_splits)

text \<open>A successful load attaches the embedded program itself to the requested interface, in driver mode when the
  driver takes it and in generic mode only when it does not, with an empty socket map; without the memory
  limit nothing is loaded.\<close>

lemma xdp_load_correct:
  assumes "xdp_load a prog iface = Inr h"
  shows "aya_setrlimit a = 0 \<and> aya_ebpf_load a prog = Inr (bpf h) \<and> xsks h = Map.empty \<and>
    (\<exists>p0 p m. aya_program_mut a (bpf h) ''dns_xdp_client'' = Some p0 \<and> aya_try_into_xdp a p0 = Inr p \<and>
       attached h = (iface, m) \<and> aya_attach a p iface m = Inr () \<and>
       (m = SKB_MODE \<longrightarrow> (\<exists>e. aya_attach a p iface DRV_MODE = Inl e)))"
  using assms by (fastforce simp: xdp_load_def aligned_copy_eq res_iffs split: if_splits option.splits dest: attach_any_Inr)

definition demo_aya :: "(unit, unit, unit) aya" where
  "demo_aya = \<lparr>aya_setrlimit = 0, aya_last_error = [], aya_ebpf_load = (\<lambda>_. Inr ()), aya_program_mut = (\<lambda>_ _. Some ()),
     aya_try_into_xdp = (\<lambda>_. Inr ()), aya_prog_load = (\<lambda>_. Inr ()),
     aya_attach = (\<lambda>_ _ m. if m = DRV_MODE then Inl ''EOPNOTSUPP'' else Inr ()),
     aya_map_mut = (\<lambda>_ _. Some ()), aya_try_from_map = (\<lambda>_. Inr ()),
     aya_xsk_set = (\<lambda>_ q _ _. if q < 64 then Inr () else Inl ''E2BIG'')\<rparr>"

lemma demo_aya_loads: "xdp_load demo_aya prog iface = Inr \<lparr>bpf = (), attached = (iface, SKB_MODE), xsks = Map.empty\<rparr>"
  by (simp add: xdp_load_def demo_aya_def bind_res_def map_err_def attach_any_def)

lemma register_socket_xsks:
  "register_socket a h q fd = Inr h' \<Longrightarrow> xsks h' = (xsks h)(q \<mapsto> fd) \<and> bpf h' = bpf h \<and> attached h' = attached h"
  by (auto simp: register_socket_def res_iffs)

text \<open>After a socket has been registered for a queue, the XDP program hands every UDP packet of that queue to it,
  and packets of every other queue go where they went before.\<close>

lemma register_socket_redirects:
  assumes "redirect_map_ok rm" "register_socket a h q fd = Inr h'" "udp_over_ipv4 f \<or> udp_over_ipv6 f"
  shows "dns_xdp_client rm (xsks h') q f = XDP_REDIRECT fd \<and>
    (q' \<noteq> q \<longrightarrow> dns_xdp_client rm (xsks h') q' f = dns_xdp_client rm (xsks h) q' f)"
  using register_socket_xsks [OF assms(2)] assms(3) by (simp add: dns_xdp_client_redirect [OF assms(1)])

end
