(* ===== verification/Sink.thy ===== *)
theory Sink
  imports Xsk_Socket Loader Loss Iface
begin

text \<open>
  The AF_XDP sink, \<^verbatim>\<open>src/xdp/sink.rs\<close>: the receive loop \<^verbatim>\<open>rx_loop\<close> (the set-up \<^verbatim>\<open>xdp_udp_sink\<close> is in
  \<open>Xdp_Engine\<close>).  As in
  the generator, the kernel's moves (taking frames from the fill ring, writing packets, publishing
  descriptors) come between the loop's accesses to the rings, and are constrained by
  \<open>kernel_rx_step\<close>.  A received descriptor may point anywhere inside its 4096-byte chunk (the kernel
  leaves headroom), so ownership is counted in chunks.  The theorems: every frame is given back to
  the kernel, none is lost or handed over twice; the counters are exact; a frame of the generator
  is read back as its worker and sequence number.
\<close>

section \<open>The receive loop\<close>

definition HDRS :: nat where "HDRS = 42"

text \<open>\<open>rs_mem\<close> is the content of the UMEM by offset, \<open>rs_descs\<close> the local \<^verbatim>\<open>descs\<close> (empty outside a turn), the
  counters are what this worker added.  \<open>rs_taken\<close>, \<open>rs_frames\<close> and \<open>rs_seen\<close> are history variables: the descriptors handled, the
  frames read through them, and the stream and sequence numbers found in these.  The last two fields are the
  kernel's side of the socket, which the program never touches: the chunks it has taken from the fill ring and not given
  back, and the packets it has delivered through the RX ring.\<close>

record rx_state =
  rs_sock :: XskSocket
  rs_mem :: mem
  rs_descs :: "XdpDesc list"
  rs_last :: "u64 \<rightharpoonup> u64"
  rs_bytes :: u64
  rs_pkts :: u64
  rs_drops :: u64
  rs_taken :: "XdpDesc list"
  rs_frames :: "bytes list"
  rs_seen :: "(u64 \<times> u64) list"
  rs_held :: "nat list"
  rs_in :: "bytes list"

abbreviation rs_rx :: "rx_state \<Rightarrow> DescRing" where
  "rs_rx s \<equiv> xsk_rx (rs_sock s)"

abbreviation rs_fill :: "rx_state \<Rightarrow> AddrRing" where
  "rs_fill s \<equiv> fill (xsk_umem (rs_sock s))"

definition set_rx :: "DescRing \<Rightarrow> rx_state \<Rightarrow> rx_state" where
  "set_rx r s = s\<lparr>rs_sock := (rs_sock s)\<lparr>xsk_rx := r\<rparr>\<rparr>"

definition set_fill :: "AddrRing \<Rightarrow> rx_state \<Rightarrow> rx_state" where
  "set_fill r s = s\<lparr>rs_sock := (rs_sock s)\<lparr>xsk_umem := (xsk_umem (rs_sock s))\<lparr>fill := r\<rparr>\<rparr>\<rparr>"

text \<open>The stream and sequence number of a frame that is long enough to carry them.\<close>

definition frame_ids :: "bytes \<Rightarrow> (u64 \<times> u64) option" where
  "frame_ids frame =
     (if length frame \<ge> HDRS + 16 then
        Some (payload_ids (drop HDRS frame))
      else None)"

definition rx_frame :: "XdpDesc \<Rightarrow> rx_state \<Rightarrow> rx_state" where
  "rx_frame d s =
     (let n = unat (len d);
          frame = read_desc (rs_mem s) d;
          s1 = s\<lparr>rs_bytes := rs_bytes s + of_nat n, rs_pkts := rs_pkts s + 1, rs_taken := rs_taken s @ [d],
            rs_frames := rs_frames s @ [frame]\<rparr>
      in case frame_ids frame of
           None \<Rightarrow> s1
         | Some p \<Rightarrow>
             (case note_seq p (rs_last s1, rs_drops s1) of (last_seq, drops) \<Rightarrow>
                s1\<lparr>rs_last := last_seq, rs_drops := drops, rs_seen := rs_seen s1 @ [p]\<rparr>))"

record rx_env =
  rn_run :: bool
  rn_now :: nat
  rn_kernel :: "nat \<Rightarrow> rx_state \<Rightarrow> rx_state"

text \<open>\<^verbatim>\<open>poll\<close> only waits; its result is not read.\<close>

definition rx_turn :: "(nat \<Rightarrow> rx_state \<Rightarrow> rx_state) \<Rightarrow> rx_state \<Rightarrow> rx_state" where
  "rx_turn kn s =
     (let s0 = kn 0 s in
      case consume_rx (rs_rx s0) of (r, ds) \<Rightarrow>
        if ds = [] then set_rx r s0
        else
          (let s1 = fold rx_frame ds ((set_rx r s0)\<lparr>rs_descs := ds\<rparr>);
               s2 = kn 1 s1
           in (set_fill (fst (enqueue_batch (rs_fill s2) (map addr ds))) s2)\<lparr>rs_descs := []\<rparr>))"

fun rx_loop :: "nat \<Rightarrow> rx_env list \<Rightarrow> rx_state \<Rightarrow> rx_state" where
  "rx_loop deadline [] s = s"
| "rx_loop deadline (e # es) s =
     (if rn_run e \<and> rn_now e < deadline then rx_loop deadline es (rx_turn (rn_kernel e) s) else s)"

definition rx_start :: "XskSocket \<Rightarrow> mem \<Rightarrow> rx_state" where
  "rx_start sock m = \<lparr>rs_sock = sock, rs_mem = m, rs_descs = [], rs_last = Map.empty, rs_bytes = 0,
     rs_pkts = 0, rs_drops = 0, rs_taken = [], rs_frames = [], rs_seen = [], rs_held = [], rs_in = []\<rparr>"

section \<open>Frame ownership\<close>

definition chunk :: "u64 \<Rightarrow> nat" where
  "chunk a = unat a div 4096"

definition desc_in_chunk :: "XdpDesc \<Rightarrow> bool" where
  "desc_in_chunk d \<longleftrightarrow> unat (addr d) mod 4096 + unat (len d) \<le> 4096"

text \<open>All chunks of the RX half, on both sides of the border: offered to the kernel, published, being handled, with the
  kernel.  Every operation of the program and of the kernel must keep this multiset.\<close>

definition rx_chunks :: "rx_state \<Rightarrow> nat list" where
  "rx_chunks s = map chunk (ring_list (rs_fill s)) @ map (\<lambda>d. chunk (addr d)) (ring_list (rs_rx s) @ rs_descs s) @ rs_held s"

definition rx_inv :: "rx_state \<Rightarrow> bool" where
  "rx_inv s \<longleftrightarrow> ring_wf (rs_fill s) \<and> ring_wf (rs_rx s) \<and>
     ring_cap (rs_fill s) = 2048 \<and> ring_cap (rs_rx s) = 2048 \<and>
     distinct (rx_chunks s) \<and> set (rx_chunks s) \<subseteq> {0..<2048} \<and>
     list_all desc_in_chunk (ring_list (rs_rx s) @ rs_descs s)"

text \<open>What AF_XDP promises of the receive path: the kernel takes the first \<open>n\<close> frames of the fill ring, publishes descriptors
  of chunks it holds, each inside its chunk and given back at most once, with the packets it received, and does not write to a
  chunk it has published.\<close>

definition kernel_rx_step :: "rx_state \<Rightarrow> rx_state \<Rightarrow> bool" where
  "kernel_rx_step s s' \<longleftrightarrow>
     (\<exists>fl r m n new held.
        s' = (set_rx r (set_fill fl s))\<lparr>rs_mem := m, rs_held := held, rs_in := rs_in s @ map (read_desc m) new\<rparr> \<and>
        ring_wf fl \<and> ring_cap fl = ring_cap (rs_fill s) \<and> ring_list fl = drop n (ring_list (rs_fill s)) \<and>
        ring_wf r \<and> ring_cap r = ring_cap (rs_rx s) \<and> ring_list r = ring_list (rs_rx s) @ new \<and>
        list_all desc_in_chunk new \<and>
        mset (map (\<lambda>d. chunk (addr d)) new) + mset held = mset (rs_held s) + mset (map chunk (take n (ring_list (rs_fill s)))) \<and>
        (\<forall>x. x div 4096 \<in> chunk ` addr ` set (ring_list (rs_rx s) @ rs_descs s) \<longrightarrow> m x = rs_mem s x))"

text \<open>Keeping the multiset of chunks keeps the invariant.\<close>

lemma rx_inv_mset:
  assumes "rx_inv s" "mset (rx_chunks s') = mset (rx_chunks s)"
    and "ring_wf (rs_fill s')" "ring_cap (rs_fill s') = 2048" "ring_wf (rs_rx s')" "ring_cap (rs_rx s') = 2048"
    and "list_all desc_in_chunk (ring_list (rs_rx s') @ rs_descs s')"
  shows "rx_inv s'"
proof -
  have "distinct (rx_chunks s')" "set (rx_chunks s') = set (rx_chunks s)"
    using assms(1,2) by (metis mset_eq_imp_distinct_iff rx_inv_def, metis mset_eq_setD)
  then show ?thesis using assms by (simp add: rx_inv_def)
qed

lemma read_desc_cong:
  assumes "desc_in_chunk d" "\<And>x. x div 4096 = chunk (addr d) \<Longrightarrow> m x = m' x"
  shows "read_desc m d = read_desc m' d"
proof -
  have "(unat (addr d) + i) div 4096 = chunk (addr d)" if "i < unat (len d)" for i
  proof -
    define x where "x = unat (addr d) mod 4096 + i"
    have "x < 4096" using that assms(1) by (simp add: desc_in_chunk_def x_def)
    moreover have "unat (addr d) + i = x + 4096 * chunk (addr d)"
      using div_mult_mod_eq [of "unat (addr d)" 4096] by (simp add: chunk_def x_def)
    ultimately show ?thesis by simp
  qed
  then show ?thesis using assms(2) by (intro nth_equalityI) (simp_all add: read_desc_def)
qed

text \<open>The packets delivered are those handled and those still in the RX ring.\<close>

definition delivered :: "rx_state \<Rightarrow> bool" where
  "delivered s \<longleftrightarrow> rs_in s = rs_frames s @ map (read_desc (rs_mem s)) (ring_list (rs_rx s))"

lemma kernel_rx_step_inv:
  assumes "kernel_rx_step s s'" "rx_inv s"
  shows "rx_inv s' \<and> mset (rx_chunks s') = mset (rx_chunks s) \<and> (delivered s \<longrightarrow> delivered s') \<and>
    rs_descs s' = rs_descs s \<and> rs_last s' = rs_last s \<and> rs_bytes s' = rs_bytes s \<and>
    rs_pkts s' = rs_pkts s \<and> rs_drops s' = rs_drops s \<and> rs_taken s' = rs_taken s \<and> rs_frames s' = rs_frames s \<and> rs_seen s' = rs_seen s"
proof -
  from assms(1) obtain fl r m n new held
    where s': "s' = (set_rx r (set_fill fl s))\<lparr>rs_mem := m, rs_held := held, rs_in := rs_in s @ map (read_desc m) new\<rparr>"
    and fl: "ring_wf fl" "ring_cap fl = ring_cap (rs_fill s)" "ring_list fl = drop n (ring_list (rs_fill s))"
    and r: "ring_wf r" "ring_cap r = ring_cap (rs_rx s)" "ring_list r = ring_list (rs_rx s) @ new"
    and new: "list_all desc_in_chunk new"
      "mset (map (\<lambda>d. chunk (addr d)) new) + mset held = mset (rs_held s) + mset (map chunk (take n (ring_list (rs_fill s))))"
    and mem: "\<forall>x. x div 4096 \<in> chunk ` addr ` set (ring_list (rs_rx s) @ rs_descs s) \<longrightarrow> m x = rs_mem s x"
    unfolding kernel_rx_step_def by (elim exE conjE) (rule that)
  let ?F = "map chunk (ring_list (rs_fill s))" and ?c = "\<lambda>d. chunk (addr d)"
  have split: "mset (take n ?F) + mset (drop n ?F) = mset ?F" by (metis append_take_drop_id mset_append)
  have "mset (rx_chunks s') = mset (drop n ?F) + mset (map ?c (ring_list (rs_rx s))) + mset (map ?c (rs_descs s)) +
      (mset (map ?c new) + mset held)"
    by (simp add: rx_chunks_def s' set_rx_def set_fill_def fl r drop_map ac_simps)
  also have "\<dots> = (mset (take n ?F) + mset (drop n ?F)) + mset (map ?c (ring_list (rs_rx s))) + mset (map ?c (rs_descs s)) + mset (rs_held s)"
    unfolding new(2) by (simp add: take_map ac_simps)
  also have "\<dots> = mset (rx_chunks s)" unfolding split by (simp add: rx_chunks_def ac_simps)
  finally have ms: "mset (rx_chunks s') = mset (rx_chunks s)" .
  have "read_desc m d = read_desc (rs_mem s) d" if "d \<in> set (ring_list (rs_rx s))" for d
    using that assms(2) mem by (intro read_desc_cong) (auto simp: rx_inv_def list_all_iff)
  then have "delivered s \<longrightarrow> delivered s'"
    by (simp add: delivered_def s' set_rx_def set_fill_def r)
  moreover have "rx_inv s'"
    using assms(2) fl r new(1) by (intro rx_inv_mset [OF assms(2) ms]) (simp_all add: rx_inv_def s' set_rx_def set_fill_def)
  ultimately show ?thesis using ms by (simp add: s' set_rx_def set_fill_def)
qed

lemma rx_chunks_bound:
  assumes "rx_inv s"
  shows "length (ring_list (rs_fill s)) + length (ring_list (rs_rx s)) + length (rs_descs s) \<le> 2048"
proof -
  have "length (rx_chunks s) = card (set (rx_chunks s))" using assms by (simp add: rx_inv_def distinct_card)
  also have "\<dots> \<le> card {0..<2048::nat}" using assms by (intro card_mono) (simp_all add: rx_inv_def)
  finally show ?thesis by (simp add: rx_chunks_def)
qed

section \<open>One turn\<close>

text \<open>What the counters must be, given the descriptors handled, the frames read and the numbers in them.\<close>

definition counted :: "rx_state \<Rightarrow> bool" where
  "counted s \<longleftrightarrow> rs_pkts s = of_nat (length (rs_taken s)) \<and>
     rs_bytes s = of_nat (sum_list (map (\<lambda>d. unat (len d)) (rs_taken s))) \<and>
     map length (rs_frames s) = map (\<lambda>d. unat (len d)) (rs_taken s) \<and>
     rs_seen s = List.map_filter frame_ids (rs_frames s) \<and>
     note_all (rs_seen s) (Map.empty, 0) = (rs_last s, rs_drops s)"

lemma rx_frame_keeps:
  "rs_sock (rx_frame d s) = rs_sock s \<and> rs_held (rx_frame d s) = rs_held s \<and> rs_in (rx_frame d s) = rs_in s \<and>
   rs_mem (rx_frame d s) = rs_mem s \<and> rs_descs (rx_frame d s) = rs_descs s \<and>
   rs_taken (rx_frame d s) = rs_taken s @ [d] \<and>
   rs_frames (rx_frame d s) = rs_frames s @ [read_desc (rs_mem s) d] \<and>
   rs_seen (rx_frame d s) = rs_seen s @
     (case frame_ids (read_desc (rs_mem s) d) of None \<Rightarrow> [] | Some p \<Rightarrow> [p])"
  by (simp add: rx_frame_def Let_def split: option.splits prod.splits)

lemma map_filter_snoc:
  "List.map_filter f (xs @ [x]) = List.map_filter f xs @ (case f x of None \<Rightarrow> [] | Some y \<Rightarrow> [y])"
  by (induction xs) (simp_all add: List.map_filter_simps split: option.splits)

lemma rx_frame_counted: "counted s \<Longrightarrow> counted (rx_frame d s)"
  by (auto simp: counted_def map_filter_snoc rx_frame_def Let_def note_all_snoc split: option.splits prod.splits)

lemma rx_frames_fold:
  "rs_sock (fold rx_frame ds s) = rs_sock s \<and> rs_held (fold rx_frame ds s) = rs_held s \<and> rs_in (fold rx_frame ds s) = rs_in s \<and>
   rs_mem (fold rx_frame ds s) = rs_mem s \<and>
   rs_descs (fold rx_frame ds s) = rs_descs s \<and> rs_taken (fold rx_frame ds s) = rs_taken s @ ds \<and>
   rs_frames (fold rx_frame ds s) = rs_frames s @ map (\<lambda>d. read_desc (rs_mem s) d) ds \<and>
   rs_seen (fold rx_frame ds s) = rs_seen s @
     List.map_filter (\<lambda>d. frame_ids (read_desc (rs_mem s) d)) ds"
  by (induction ds arbitrary: s) (auto simp: rx_frame_keeps List.map_filter_simps split: option.splits)

lemma rx_frames_counted: "counted s \<Longrightarrow> counted (fold rx_frame ds s)"
  by (induction ds arbitrary: s) (simp_all add: rx_frame_counted)

definition rx_kernel_ok :: "(nat \<Rightarrow> rx_state \<Rightarrow> rx_state) \<Rightarrow> bool" where
  "rx_kernel_ok kn \<longleftrightarrow> (\<forall>k s. rx_inv s \<longrightarrow> kernel_rx_step s (kn k s))"

lemma rx_kernel_keeps:
  assumes "rx_kernel_ok kn" "rx_inv s"
  shows "rx_inv (kn k s)" "rs_descs (kn k s) = rs_descs s" "rs_taken (kn k s) = rs_taken s"
    "rs_seen (kn k s) = rs_seen s" "counted s \<Longrightarrow> counted (kn k s)" "rs_frames (kn k s) = rs_frames s"
    "mset (rx_chunks (kn k s)) = mset (rx_chunks s)" "delivered s \<Longrightarrow> delivered (kn k s)"
  using assms kernel_rx_step_inv [of s "kn k s"] by (auto simp: rx_kernel_ok_def counted_def)

text \<open>Taking everything from the RX ring moves the frames to \<^verbatim>\<open>descs\<close>.\<close>

lemma rx_take_inv:
  assumes "rx_inv s" "rs_descs s = []" "consume_rx (rs_rx s) = (r, ds)"
  shows "ds = ring_list (rs_rx s)" "rx_inv ((set_rx r s)\<lparr>rs_descs := ds\<rparr>)" "ring_list r = []"
    "mset (rx_chunks ((set_rx r s)\<lparr>rs_descs := ds\<rparr>)) = mset (rx_chunks s)"
proof -
  have wf: "ring_wf (rs_rx s)" using assms(1) by (simp add: rx_inv_def)
  show ds: "ds = ring_list (rs_rx s)" using desc_ring.deq_result [OF wf] assms(3) by simp
  have r: "ring_wf r" "ring_cap r = ring_cap (rs_rx s)"
    using desc_ring.deq_wf [OF wf] desc_ring.deq_capacity [OF wf] assms(3) by simp_all
  show empty: "ring_list r = []" using desc_ring.deq_contents [OF wf] assms(3) by simp
  show ms: "mset (rx_chunks ((set_rx r s)\<lparr>rs_descs := ds\<rparr>)) = mset (rx_chunks s)"
    using assms(2) ds empty by (simp add: set_rx_def rx_chunks_def)
  show "rx_inv ((set_rx r s)\<lparr>rs_descs := ds\<rparr>)"
    using assms(1,2) ds r empty by (intro rx_inv_mset [OF assms(1) ms]) (simp_all add: rx_inv_def set_rx_def)
qed

text \<open>Putting the frames of \<^verbatim>\<open>descs\<close> back into the fill ring: there is always room for all of them.\<close>

lemma rx_recycle_inv:
  assumes "rx_inv s" "fl = fst (enqueue_batch (rs_fill s) (map addr (rs_descs s)))"
  shows "rx_inv ((set_fill fl s)\<lparr>rs_descs := []\<rparr>)"
    "ring_list fl = ring_list (rs_fill s) @ map addr (rs_descs s)"
    "snd (enqueue_batch (rs_fill s) (map addr (rs_descs s))) = length (rs_descs s)"
    "mset (rx_chunks ((set_fill fl s)\<lparr>rs_descs := []\<rparr>)) = mset (rx_chunks s)"
proof -
  have wf: "ring_wf (rs_fill s)" using assms(1) by (simp add: rx_inv_def)
  have room: "length (ring_list (rs_fill s)) + length (map addr (rs_descs s)) \<le> ring_cap (rs_fill s)"
    using rx_chunks_bound [OF assms(1)] assms(1) by (simp add: rx_inv_def)
  have fl: "ring_wf fl" "ring_cap fl = ring_cap (rs_fill s)"
    using addr_ring.enq_wf [OF wf] addr_ring.enq_capacity [OF wf] by (simp_all add: assms(2))
  show list: "ring_list fl = ring_list (rs_fill s) @ map addr (rs_descs s)"
    using addr_ring.enq_all(2) [OF wf room] by (simp add: assms(2))
  show "snd (enqueue_batch (rs_fill s) (map addr (rs_descs s))) = length (rs_descs s)"
    using addr_ring.enq_all(1) [OF wf room] by simp
  show ms: "mset (rx_chunks ((set_fill fl s)\<lparr>rs_descs := []\<rparr>)) = mset (rx_chunks s)"
    using list by (simp add: rx_chunks_def set_fill_def o_def ac_simps)
  show "rx_inv ((set_fill fl s)\<lparr>rs_descs := []\<rparr>)"
    using assms(1) fl by (intro rx_inv_mset [OF assms(1) ms]) (simp_all add: rx_inv_def set_fill_def)
qed

lemma no_descs: "rs_descs s = [] \<Longrightarrow> s\<lparr>rs_descs := []\<rparr> = s"
  by (cases s) simp

lemma rx_turn_spec:
  assumes "rx_inv s" "rs_descs s = []" "counted s" "rx_kernel_ok kn"
  shows "rx_inv (rx_turn kn s) \<and> rs_descs (rx_turn kn s) = [] \<and> counted (rx_turn kn s) \<and>
    mset (rx_chunks (rx_turn kn s)) = mset (rx_chunks s) \<and> (delivered s \<longrightarrow> delivered (rx_turn kn s)) \<and>
    rs_taken (rx_turn kn s) = rs_taken s @ ring_list (rs_rx (kn 0 s)) \<and>
    rs_frames (rx_turn kn s) = rs_frames s @ map (read_desc (rs_mem (kn 0 s))) (ring_list (rs_rx (kn 0 s))) \<and>
    addr ` set (ring_list (rs_rx (kn 0 s))) \<subseteq> set (ring_list (rs_fill (rx_turn kn s)))"
proof -
  let ?s0 = "kn 0 s"
  note k0 = rx_kernel_keeps [OF assms(4,1), of 0]
  obtain r ds where q: "consume_rx (rs_rx ?s0) = (r, ds)" by fastforce
  define t where "t = (set_rx r ?s0)\<lparr>rs_descs := ds\<rparr>"
  have t: "ds = ring_list (rs_rx ?s0)" "rx_inv t" "ring_list r = []" "mset (rx_chunks t) = mset (rx_chunks s)"
    using rx_take_inv [OF k0(1) _ q] k0(2,7) assms(2) by (simp_all add: t_def)
  have tc: "counted t" "rs_taken t = rs_taken s" "rs_mem t = rs_mem ?s0" "rs_frames t = rs_frames s"
    using k0(3,4,6) k0(5) [OF assms(3)] by (auto simp: t_def set_rx_def counted_def)
  have td: "rs_in t = rs_frames s @ map (read_desc (rs_mem ?s0)) ds" if "delivered s"
    using k0(8) [OF that] k0(6) by (simp add: delivered_def t_def set_rx_def t(1))
  have rt: "rs_rx t = r" by (simp add: t_def set_rx_def)
  show ?thesis
  proof (cases "ds = []")
    case True
    then have "rx_turn kn s = t"
      using q k0(2) assms(2) no_descs [of "set_rx r ?s0"] by (simp add: rx_turn_def t_def set_rx_def Let_def)
    moreover have "delivered s \<longrightarrow> delivered t" using td True t(3) tc(4) by (simp add: delivered_def rt)
    moreover have "rs_descs t = []" using True by (simp add: t_def)
    ultimately show ?thesis
      using t tc True by simp
  next
    case False
    define s1 where "s1 = fold rx_frame ds t"
    note f = rx_frames_fold [of ds t, folded s1_def]
    have chunks: "rx_chunks s1 = rx_chunks t" using f by (simp add: rx_chunks_def)
    have s1: "rx_inv s1" "counted s1" "rs_descs s1 = ds" "rs_taken s1 = rs_taken s @ ds"
      "rs_frames s1 = rs_frames s @ map (read_desc (rs_mem ?s0)) ds"
      using f chunks rx_frames_counted [OF tc(1), of ds] t(2) tc(2-4)
      by (simp_all add: s1_def [symmetric] rx_inv_def) (simp add: t_def)
    have s1d: "delivered s1" if "delivered s"
      using f s1(5) td [OF that] t(3) by (simp add: delivered_def rt)
    define s2 where "s2 = kn 1 s1"
    note k1 = rx_kernel_keeps [OF assms(4) s1(1), of 1, folded s2_def]
    define fl where "fl = fst (enqueue_batch (rs_fill s2) (map addr (rs_descs s2)))"
    note rec = rx_recycle_inv [OF k1(1) fl_def]
    have turn: "rx_turn kn s = (set_fill fl s2)\<lparr>rs_descs := []\<rparr>"
      using q False s1(3) k1(2) by (simp add: rx_turn_def Let_def s1_def s2_def t_def fl_def)
    have "counted (rx_turn kn s)"
      using k1(5) [OF s1(2)] by (auto simp: turn counted_def set_fill_def)
    moreover have "delivered (rx_turn kn s)" if "delivered s"
      using k1(8) [OF s1d [OF that]] by (simp add: turn delivered_def set_fill_def)
    moreover have "mset (rx_chunks (rx_turn kn s)) = mset (rx_chunks s)"
      using rec(4) k1(7) chunks t(4) by (simp add: turn)
    ultimately show ?thesis
      using rec(1,2) k1(2,3,6) s1 t(1) by (auto simp: turn set_fill_def)
  qed
qed

lemma rx_loop_spec:
  assumes "rx_inv s" "rs_descs s = []" "counted s" "\<And>e. e \<in> set es \<Longrightarrow> rx_kernel_ok (rn_kernel e)"
  shows "rx_inv (rx_loop deadline es s) \<and> rs_descs (rx_loop deadline es s) = [] \<and> counted (rx_loop deadline es s) \<and>
    mset (rx_chunks (rx_loop deadline es s)) = mset (rx_chunks s) \<and> (delivered s \<longrightarrow> delivered (rx_loop deadline es s))"
  using assms
proof (induction es arbitrary: s)
  case (Cons e es)
  then show ?case using rx_turn_spec [of s "rn_kernel e"] by auto
qed simp

lemma rx_start_inv:
  assumes "fresh_addr_rings os" "fresh_desc_rings os" "create_xsk_socket os ifindex q zc tr = (tr', Inr sock)"
  shows "rx_inv (rx_start sock m) \<and> rs_descs (rx_start sock m) = [] \<and> counted (rx_start sock m) \<and>
    rx_chunks (rx_start sock m) = [0..<2048] \<and> delivered (rx_start sock m)"
proof -
  have "chunk a = i" if "a = frame_addr i" "i < 4096" for a i
    using that by (simp add: chunk_def unat_frame_addr)
  then have "map chunk rx_addrs = [0..<2048]"
    by (auto simp: rx_addrs_def ring_size_le_count intro!: nth_equalityI)
  then show ?thesis
    using create_xsk_socket_rings [OF assms]
    by (simp add: rx_inv_def rx_start_def rx_chunks_def counted_def note_all_def delivered_def List.map_filter_simps)
qed


section \<open>Properties of the receive loop\<close>

text \<open>C15. One turn of the receive loop, for every kernel that keeps AF_XDP's promises: everything published is handled once,
  in order, and the buffer of every handled packet is back in the fill ring at the end of the turn (the batch is
  never cut short, although the code does not look at how much of it was accepted).\<close>

theorem rx_turn_recycles:
  assumes "rx_inv s" "rs_descs s = []" "counted s" "rx_kernel_ok kn"
  shows "rs_taken (rx_turn kn s) = rs_taken s @ ring_list (rs_rx (kn 0 s)) \<and>
    rs_frames (rx_turn kn s) = rs_frames s @
      map (\<lambda>d. load_bytes (rs_mem (kn 0 s)) (unat (addr d)) (unat (len d))) (ring_list (rs_rx (kn 0 s))) \<and>
    addr ` set (ring_list (rs_rx (kn 0 s))) \<subseteq> set (ring_list (rs_fill (rx_turn kn s))) \<and>
    rx_inv (rx_turn kn s)"
  using rx_turn_spec [OF assms] by (auto simp: read_desc_def)

text \<open>C2. The receive loop from a new socket to the deadline, for every kernel that keeps AF_XDP's promises.  Every buffer stays
  accounted for: those offered to the kernel, published, or with the kernel are the 2048 chunks of the RX half, each once, and
  none is kept back by the program.  The packets delivered are split into those handled, \<open>fs\<close>, in order, and those
  still in the RX ring; the counters are the number of the handled packets and their bytes, and when the stream numbers
  and sequence numbers in them are in order per stream, the loss counter is exactly the number of sequence numbers missing.\<close>

theorem rx_loop_correct:
  assumes "fresh_addr_rings os" "fresh_desc_rings os" "create_xsk_socket os ifindex q zc tr = (tr', Inr sock)"
    and "\<forall>e \<in> set es. rx_kernel_ok (rn_kernel e)"
    and "s = rx_loop deadline es (rx_start sock m)"
  shows "rx_inv s \<and>
    mset (map chunk (ring_list (rs_fill s)) @ map (\<lambda>d. chunk (addr d)) (ring_list (rs_rx s)) @ rs_held s) = mset [0..<2048] \<and>
    (\<exists>fs. rs_in s = fs @ map (read_desc (rs_mem s)) (ring_list (rs_rx s)) \<and>
       rs_pkts s = of_nat (length fs) \<and> rs_bytes s = of_nat (sum_list (map length fs)) \<and>
       (let seen = List.map_filter frame_ids fs in
          in_order seen \<longrightarrow> rs_drops s = of_nat (\<Sum>i \<in> fst ` set seen. card (missing (stream i seen)))))"
proof -
  have s: "rx_inv s" "rs_descs s = []" "counted s" "mset (rx_chunks s) = mset [0..<2048]" "delivered s"
    using rx_loop_spec [of "rx_start sock m" es deadline] rx_start_inv [OF assms(1-3), of m] assms(4,5) by simp_all
  then have "mset (map chunk (ring_list (rs_fill s)) @ map (\<lambda>d. chunk (addr d)) (ring_list (rs_rx s)) @ rs_held s) = mset [0..<2048]"
    by (simp add: rx_chunks_def)
  moreover have "length (rs_taken s) = length (rs_frames s)"
    using s(3) by (metis counted_def length_map)
  ultimately show ?thesis
    using s note_all_drops [of "rs_seen s" 0]
    by (intro conjI exI [of _ "rs_frames s"]) (auto simp: counted_def delivered_def lost_def Let_def)
qed

text \<open>A kernel that does nothing keeps its promises.\<close>

lemma idle_rx_kernel_ok: "rx_kernel_ok (\<lambda>_ s. s)"
  unfolding rx_kernel_ok_def kernel_rx_step_def
proof (intro allI impI)
  fix s
  assume "rx_inv s"
  then show "\<exists>fl r m n new held.
        s = (set_rx r (set_fill fl s))\<lparr>rs_mem := m, rs_held := held, rs_in := rs_in s @ map (read_desc m) new\<rparr> \<and>
        ring_wf fl \<and> ring_cap fl = ring_cap (rs_fill s) \<and> ring_list fl = drop n (ring_list (rs_fill s)) \<and>
        ring_wf r \<and> ring_cap r = ring_cap (rs_rx s) \<and> ring_list r = ring_list (rs_rx s) @ new \<and>
        list_all desc_in_chunk new \<and>
        mset (map (\<lambda>d. chunk (addr d)) new) + mset held = mset (rs_held s) + mset (map chunk (take n (ring_list (rs_fill s)))) \<and>
        (\<forall>x. x div 4096 \<in> chunk ` addr ` set (ring_list (rs_rx s) @ rs_descs s) \<longrightarrow> m x = rs_mem s x)"
    by (intro exI [of _ "rs_fill s"] exI [of _ "rs_rx s"] exI [of _ "rs_mem s"] exI [of _ 0] exI [of _ "[]"]
        exI [of _ "rs_held s"])
      (simp add: rx_inv_def set_rx_def set_fill_def)
qed

text \<open>A kernel that receives one packet \<open>f\<close> into the first frame of the fill ring, at the start of a turn.\<close>

definition receive :: "bytes \<Rightarrow> nat \<Rightarrow> rx_state \<Rightarrow> rx_state" where
  "receive f k s =
     (if k = 0 \<and> length f \<le> 4096 \<and> ring_list (rs_fill s) \<noteq> [] \<and> length (ring_list (rs_rx s)) < 2048 then
        (let a = hd (ring_list (rs_fill s));
             b = a - of_nat (unat a mod 4096);
             fl = (rs_fill s)\<lparr>consumer := consumer (rs_fill s) + 1\<rparr>
         in (set_rx (fst (produce_tx (rs_rx s) [\<lparr>addr = b, len = of_nat (length f), options = 0\<rparr>])) (set_fill fl s))
              \<lparr>rs_mem := store_bytes (rs_mem s) (unat b) f, rs_in := rs_in s @ [f]\<rparr>)
      else s)"

lemma receive_kernel_ok: "rx_kernel_ok (receive f)"
  unfolding rx_kernel_ok_def
proof (intro allI impI)
  fix k s
  assume inv: "rx_inv s"
  show "kernel_rx_step s (receive f k s)"
  proof (cases "k = 0 \<and> length f \<le> 4096 \<and> ring_list (rs_fill s) \<noteq> [] \<and> length (ring_list (rs_rx s)) < 2048")
    case True
    define a where "a = hd (ring_list (rs_fill s))"
    define b where "b = a - of_nat (unat a mod 4096)"
    define d where "d = \<lparr>addr = b, len = of_nat (length f), options = 0\<rparr>"
    define r where "r = fst (produce_tx (rs_rx s) [d])"
    let ?fl = "(rs_fill s)\<lparr>consumer := consumer (rs_fill s) + 1\<rparr>"
    have wf: "ring_wf (rs_fill s)" "ring_wf (rs_rx s)" "ring_cap (rs_rx s) = 2048" using inv by (simp_all add: rx_inv_def)
    have s': "receive f k s = (set_rx r (set_fill ?fl s))\<lparr>rs_mem := store_bytes (rs_mem s) (unat b) f, rs_in := rs_in s @ [f]\<rparr>"
      using True by (simp add: receive_def Let_def r_def d_def b_def a_def)
    have fl: "ring_wf ?fl" "ring_cap ?fl = ring_cap (rs_fill s)" "ring_list ?fl = drop 1 (ring_list (rs_fill s))"
      using consume_one [OF wf(1)] True by (simp_all add: drop_Suc)
    have "length (ring_list (rs_rx s)) + length [d] \<le> ring_cap (rs_rx s)" using True wf(3) by simp
    then have r: "ring_wf r" "ring_cap r = ring_cap (rs_rx s)" "ring_list r = ring_list (rs_rx s) @ [d]"
      using desc_ring.enq_wf [OF wf(2)] desc_ring.enq_capacity [OF wf(2)] desc_ring.enq_all(2) [OF wf(2)]
      by (simp_all add: r_def)
    have "unat a mod 4096 < 2 ^ LENGTH(64)" by (rule less_le_trans [of _ 4096]) simp_all
    then have "unat (of_nat (unat a mod 4096) :: u64) = unat a mod 4096" by (rule unat_of_nat_small)
    then have ub: "unat b = 4096 * (unat a div 4096)"
      by (simp add: b_def unat_sub word_le_nat_alt minus_mod_eq_mult_div)
    then have cb: "chunk b = chunk a" "unat b mod 4096 = 0" by (simp_all add: chunk_def)
    have "unat (of_nat (length f) :: u32) = length f" using True by (intro unat_of_nat_small) simp
    then have d: "desc_in_chunk d" "read_desc (store_bytes (rs_mem s) (unat b) f) d = f"
      using True cb by (simp_all add: desc_in_chunk_def d_def read_desc_def load_store_same)
    have held: "t\<lparr>rs_mem := m, rs_in := i\<rparr> = t\<lparr>rs_mem := m, rs_held := rs_held t, rs_in := i\<rparr>" for t m i
      by (cases t) simp
    have take1: "take 1 (ring_list (rs_fill s)) = [a]" using True by (cases "ring_list (rs_fill s)") (simp_all add: a_def)
    have "chunk a \<notin> chunk ` addr ` set (ring_list (rs_rx s) @ rs_descs s)"
    proof -
      have "a \<in> set (ring_list (rs_fill s))" using True by (simp add: a_def)
      then have "chunk a \<in> set (map chunk (ring_list (rs_fill s)))" by simp
      moreover have "distinct (rx_chunks s)" using inv by (simp add: rx_inv_def)
      ultimately show ?thesis unfolding rx_chunks_def by fastforce
    qed
    moreover have "store_bytes (rs_mem s) (unat b) f x = rs_mem s x" if "x div 4096 \<noteq> chunk a" for x
    proof (rule store_bytes_other)
      have "x div 4096 = chunk a" if "unat b \<le> x" "x < unat b + 4096"
        using that unfolding ub chunk_def by (intro div_nat_eqI) simp_all
      then show "x < unat b \<or> unat b + length f \<le> x" using that True by fastforce
    qed
    ultimately have mem: "store_bytes (rs_mem s) (unat b) f x = rs_mem s x"
      if "x div 4096 \<in> chunk ` addr ` set (ring_list (rs_rx s) @ rs_descs s)" for x
      using that by metis
    show ?thesis
      unfolding kernel_rx_step_def s' held using fl r d mem cb(1) take1
      by (intro exI [of _ ?fl] exI [of _ r] exI [of _ "store_bytes (rs_mem s) (unat b) f"] exI [of _ 1] exI [of _ "[d]"]
          exI [of _ "rs_held s"])
        (simp add: set_rx_def set_fill_def, simp add: d_def)
  next
    case False
    then show ?thesis
      using idle_rx_kernel_ok inv by (auto simp: rx_kernel_ok_def receive_def)
  qed
qed

text \<open>The sink reads the packet that arrived.\<close>

lemma receive_reads:
  assumes "rx_inv s" "length f \<le> 4096" "ring_list (rs_fill s) \<noteq> []" "ring_list (rs_rx s) = []"
  shows "map (read_desc (rs_mem (receive f 0 s))) (ring_list (rs_rx (receive f 0 s))) = [f] \<and> rs_in (receive f 0 s) = rs_in s @ [f]"
proof -
  define b where "b = hd (ring_list (rs_fill s)) - of_nat (unat (hd (ring_list (rs_fill s))) mod 4096)"
  define d where "d = \<lparr>addr = b, len = of_nat (length f), options = 0\<rparr>"
  have wf: "ring_wf (rs_rx s)" "ring_cap (rs_rx s) = 2048" using assms(1) by (simp_all add: rx_inv_def)
  have "length (ring_list (rs_rx s)) + length [d] \<le> ring_cap (rs_rx s)" using wf(2) assms(4) by simp
  then have "ring_list (fst (produce_tx (rs_rx s) [d])) = [d]" using desc_ring.enq_all(2) [OF wf(1)] assms(4) by simp
  moreover have "unat (of_nat (length f) :: u32) = length f" using assms(2) by (intro unat_of_nat_small) simp
  ultimately show ?thesis
    using assms by (simp add: receive_def Let_def d_def b_def set_rx_def set_fill_def load_store_same read_desc_def)
qed

theorem rx_turn_recycles_witness:
  "\<exists>tr' sock. create_xsk_socket good_os 2 0 True [] = (tr', Inr sock) \<and>
     rx_inv (rx_turn (receive [1, 2, 3]) (rx_start sock (\<lambda>_. 0)))"
proof -
  obtain tr' sock where run: "create_xsk_socket good_os 2 0 True [] = (tr', Inr sock)"
    using good_os_creates by blast
  show ?thesis
    using run rx_turn_recycles [OF _ _ _ receive_kernel_ok] rx_start_inv [OF good_os_fresh run] by blast
qed

theorem rx_loop_correct_witness:
  "\<exists>tr' sock s. create_xsk_socket good_os 2 0 True [] = (tr', Inr sock) \<and>
     s = rx_loop 5 [\<lparr>rn_run = True, rn_now = 1, rn_kernel = receive [1, 2, 3]\<rparr>] (rx_start sock (\<lambda>_. 0)) \<and>
     rx_inv s \<and> length (ring_list (rs_fill s)) + length (ring_list (rs_rx s)) + length (rs_held s) = 2048"
proof -
  obtain tr' sock where run: "create_xsk_socket good_os 2 0 True [] = (tr', Inr sock)"
    using good_os_creates by blast
  let ?es = "[\<lparr>rn_run = True, rn_now = 1, rn_kernel = receive [1, 2, 3]\<rparr>]"
  let ?s = "rx_loop 5 ?es (rx_start sock (\<lambda>_. 0))"
  have "\<forall>e \<in> set ?es. rx_kernel_ok (rn_kernel e)" using receive_kernel_ok by simp
  note all = rx_loop_correct [OF good_os_fresh run this refl, of 5 "\<lambda>_. 0"]
  have "length (ring_list (rs_fill ?s)) + length (ring_list (rs_rx ?s)) + length (rs_held ?s) = 2048"
    using arg_cong [OF conjunct1 [OF conjunct2 [OF all]], of size] unfolding size_mset by simp
  with run conjunct1 [OF all] show ?thesis by blast
qed

text \<open>A frame with a long enough payload is read back as the first two words of the payload.\<close>

lemma frame_ids_frame_spec:
  assumes "length sm = 6" "length dm = 6" "16 \<le> length p"
  shows "frame_ids (frame_spec sm dm si di sp dp p) = Some (payload_ids p)"
  using assms frame_spec_parts(2) [OF assms(1,2), of si di sp dp p]
  by (simp add: frame_ids_def HDRS_def)

end
