(* ===== verification/Xdp_Engine.thy ===== *)
theory Xdp_Engine
  imports Tx_Gen Sink
begin

text \<open>
  The entry points of the AF_XDP datapath: \<^verbatim>\<open>xdp_udp_blast\<close> (\<^verbatim>\<open>src/xdp/gen.rs\<close>) and \<^verbatim>\<open>xdp_udp_sink\<close>
  (\<^verbatim>\<open>src/xdp/sink.rs\<close>), which look up the interface, open one socket per queue and run one worker
  per socket.  Workers share nothing but the counters, so the model runs each on its own schedule and
  adds up.  The theorems: what a successful set-up establishes for the workers, which descriptors are open
  after a failed one, and that each queue's packets reach the worker of that queue.
\<close>

section \<open>Set-up shared by both\<close>

text \<open>\<^verbatim>\<open>(cpus.len() as u32).min(queues).max(1)\<close>.\<close>

definition worker_count :: "nat list \<Rightarrow> u32 \<Rightarrow> u32" where
  "worker_count cpus queues = max (min (of_nat (length cpus)) (max queues 1)) 1"

definition queue_ids :: "u32 \<Rightarrow> u32 list" where
  "queue_ids workers = map of_nat [0..<unat workers]"

text \<open>The CPU of worker \<open>w\<close>: \<^verbatim>\<open>cpus[w % cpus.len()]\<close>.\<close>

definition worker_cpu :: "nat list \<Rightarrow> nat \<Rightarrow> nat may_panic" where
  "worker_cpu cpus w = (if cpus = [] then Inl RemainderByZero else Inr (cpus ! (w mod length cpus)))"

section \<open>The generator\<close>

record gen_host =
  gh_nametoindex :: "string \<Rightarrow> u32"
  gh_ifaddrs :: "ifaddr list option"
  gh_fs :: sysfs
  gh_arp :: "nat \<Rightarrow> string option"
  gh_os :: os
  gh_mem :: "u32 \<Rightarrow> mem"

datatype gen_error =
    GenNoIface string
  | GenNoIpv4
  | GenNoMac
  | GenNoArp
  | GenXdp xdp_error

definition open_tx_socket :: "os \<Rightarrow> u32 \<Rightarrow> u32 \<Rightarrow> bool \<Rightarrow> (xdp_error, XskSocket) eio" where
  "open_tx_socket os ifidx q try_zc =
     (if try_zc then or_elseE (create_xsk_socket os ifidx q True) (create_xsk_socket os ifidx q False)
      else create_xsk_socket os ifidx q False)"

text \<open>\<open>gh_mem q\<close> is what the new area of queue \<open>q\<close> holds.  The socket is forgotten, not dropped, and the states
  made before a failure have no \<^verbatim>\<open>Drop\<close>: nothing is closed.\<close>

definition tx_state_of :: "gen_host \<Rightarrow> FrameHeader \<Rightarrow> u32 \<Rightarrow> u32 \<Rightarrow> XskSocket \<Rightarrow> TxState" where
  "tx_state_of g hdr ifidx q sock =
     (case extract_tx sock of (_, txr, cm, pool) \<Rightarrow>
        \<lparr>ts_fd = xsk_fd sock, ts_tx = txr, ts_comp = cm, ts_pool = pool, ts_hdr = hdr,
         ts_sa = \<lparr>sxdp_family = of_int AF_XDP, sxdp_flags = 0, sxdp_ifindex = ifidx, sxdp_queue_id = q,
                  sxdp_shared_umem_fd = 0\<rparr>,
         ts_area = ptr_at (xsk_umem sock) 0, ts_mem = gh_mem g q,
         ts_queue = [], ts_sent = [], ts_out = []\<rparr>)"

fun tx_states :: "gen_host \<Rightarrow> FrameHeader \<Rightarrow> u32 \<Rightarrow> bool \<Rightarrow> u32 list \<Rightarrow> TxState list \<Rightarrow> (gen_error, TxState list) eio" where
  "tx_states g hdr ifidx try_zc [] sts = retE sts"
| "tx_states g hdr ifidx try_zc (q # qs) sts = (\<lambda>tr.
     case open_tx_socket (gh_os g) ifidx q try_zc tr of
       (tr1, Inl e) \<Rightarrow> (tr1, Inl (GenXdp e))
     | (tr1, Inr sock) \<Rightarrow> tx_states g hdr ifidx try_zc qs (sts @ [tx_state_of g hdr ifidx q sock]) tr1)"

record tx_job =
  tj_worker :: nat
  tj_state :: TxState
  tj_cpu :: "nat may_panic"
  tj_payload_len :: nat
  tj_pps :: u64

definition tx_jobs :: "nat list \<Rightarrow> nat \<Rightarrow> u64 \<Rightarrow> TxState list \<Rightarrow> tx_job list" where
  "tx_jobs cpus payload_len pps sts =
     map (\<lambda>(w, st). \<lparr>tj_worker = w, tj_state = st, tj_cpu = worker_cpu cpus w,
                    tj_payload_len = payload_len, tj_pps = pps\<rparr>) (enumerate 0 sts)"

definition blast_header :: "gen_host \<Rightarrow> string \<Rightarrow> Ipv4Addr \<Rightarrow> u16 \<Rightarrow> gen_error + FrameHeader" where
  "blast_header g iface dst_ip dst_port =
     (case local_ipv4 (gh_ifaddrs g) iface of None \<Rightarrow> Inl GenNoIpv4
      | Some src_ip \<Rightarrow> (case local_mac (read_file (gh_fs g)) iface of None \<Rightarrow> Inl GenNoMac
      | Some src_mac \<Rightarrow> (case resolve_server_mac (gh_arp g) dst_ip of (_, _, None) \<Rightarrow> Inl GenNoArp
      | (_, _, Some dst_mac) \<Rightarrow> Inr (frame_header_new src_mac dst_mac src_ip dst_ip 40000 dst_port))))"

text \<open>\<open>armed\<close>: the build has the feature \<^verbatim>\<open>xdp\<close> and \<^verbatim>\<open>XdpHandle::load\<close> succeeded.\<close>

definition xdp_udp_blast :: "gen_host \<Rightarrow> bool \<Rightarrow> string \<Rightarrow> Ipv4Addr \<Rightarrow> u16 \<Rightarrow> nat \<Rightarrow> u64 \<Rightarrow> nat list \<Rightarrow>
    (gen_error, tx_job list) eio" where
  "xdp_udp_blast g armed iface dst_ip dst_port payload_len target_pps cpus = (\<lambda>tr.
     case iface_index (gh_nametoindex g) iface of None \<Rightarrow> (tr, Inl (GenNoIface iface))
     | Some ifidx \<Rightarrow> (case blast_header g iface dst_ip dst_port of Inl e \<Rightarrow> (tr, Inl e)
     | Inr hdr \<Rightarrow>
        (let workers = worker_count cpus (get_rx_queue_count (gh_fs g) iface)
         in bindE (tx_states g hdr ifidx armed (queue_ids workers) []) (\<lambda>sts.
              let pps = (if target_pps = 0 then 0 else max (target_pps div ucast workers) 1)
              in retE (tx_jobs cpus (max payload_len 16) pps sts)) tr)))"

text \<open>A worker thread: \<^verbatim>\<open>pin_to_cpu\<close>, then the loop.  A panic in it ends the process
  (\<^verbatim>\<open>panic = "abort"\<close> in the release profile), the value \<^const>\<open>Inl\<close> here.\<close>

definition run_job :: "cpu_features \<Rightarrow> (nat \<Rightarrow> bool may_panic) \<Rightarrow> nat \<Rightarrow> nat \<Rightarrow> turn list \<Rightarrow> tx_job \<Rightarrow> loop_state may_panic" where
  "run_job c pin deadline now tns j =
     (case tj_cpu j of Inl p \<Rightarrow> Inl p
      | Inr cpu \<Rightarrow> (case pin cpu of Inl p \<Rightarrow> Inl p
      | Inr _ \<Rightarrow> tx_loop c (tj_state j) (tj_worker j) (tj_payload_len j) deadline (tj_pps j) now tns))"

section \<open>The sink\<close>

datatype sink_error =
    SinkNoIface string
  | SinkLoader loader_error
  | SinkXdp xdp_error

definition drop_socks :: "XskSocket list \<Rightarrow> trace \<Rightarrow> trace" where
  "drop_socks socks tr = fold xsk_drop socks tr"

fun sink_socks :: "('b, 'p, 'm) aya \<Rightarrow> os \<Rightarrow> u32 \<Rightarrow> u32 list \<Rightarrow> 'b XdpHandle \<Rightarrow> XskSocket list \<Rightarrow>
    (sink_error, 'b XdpHandle \<times> XskSocket list) eio" where
  "sink_socks a os ifidx [] h socks = retE (h, socks)"
| "sink_socks a os ifidx (q # qs) h socks = (\<lambda>tr.
     case or_elseE (create_xsk_socket os ifidx q True) (create_xsk_socket os ifidx q False) tr of
       (tr1, Inl e) \<Rightarrow> (drop_socks socks tr1, Inl (SinkXdp e))
     | (tr1, Inr sock) \<Rightarrow>
         (case register_socket a h q (xsk_fd sock) of
            Inl e \<Rightarrow> (drop_socks socks (xsk_drop sock tr1), Inl (SinkLoader e))
          | Inr h' \<Rightarrow> sink_socks a os ifidx qs h' (socks @ [sock]) tr1))"

definition xdp_udp_sink :: "('b, 'p, 'm) aya \<Rightarrow> bytes \<Rightarrow> os \<Rightarrow> (string \<Rightarrow> u32) \<Rightarrow> sysfs \<Rightarrow> string \<Rightarrow> nat list \<Rightarrow>
    (sink_error, 'b XdpHandle \<times> XskSocket list) eio" where
  "xdp_udp_sink a prog os nametoindex fs iface cpus = (\<lambda>tr.
     case iface_index nametoindex iface of None \<Rightarrow> (tr, Inl (SinkNoIface iface))
     | Some ifidx \<Rightarrow> (case xdp_load a prog iface of Inl e \<Rightarrow> (tr, Inl (SinkLoader e))
     | Inr h \<Rightarrow>
         sink_socks a os ifidx (queue_ids (worker_count cpus (get_rx_queue_count fs iface))) h [] tr))"

text \<open>The deadline of the sink's workers, and a worker thread.\<close>

definition sink_deadline :: "nat \<Rightarrow> nat \<Rightarrow> nat" where
  "sink_deadline now duration = now + max duration 1 * SECOND"

definition run_sink_worker :: "(nat \<Rightarrow> bool may_panic) \<Rightarrow> nat list \<Rightarrow> nat \<Rightarrow> rx_env list \<Rightarrow> mem \<Rightarrow> nat \<Rightarrow> XskSocket \<Rightarrow>
    rx_state may_panic" where
  "run_sink_worker pin cpus deadline es m w sock =
     (case worker_cpu cpus w of Inl p \<Rightarrow> Inl p
      | Inr cpu \<Rightarrow> (case pin cpu of Inl p \<Rightarrow> Inl p
      | Inr _ \<Rightarrow> Inr (rx_loop deadline es (rx_start sock m))))"

section \<open>Lemmas\<close>

lemma LENGTH_32_64: "LENGTH(32) \<le> LENGTH(64)"
  by simp

lemma unat_worker_count:
  "unat (worker_count cpus queues) = max (min (unat (of_nat (length cpus) :: u32)) (max (unat queues) 1)) 1"
  by (auto simp: worker_count_def max_def min_def word_le_nat_alt)

lemma queue_ids_nth: "i < unat w \<Longrightarrow> queue_ids w ! i = of_nat i"
  by (simp add: queue_ids_def)

lemma length_queue_ids [simp]: "length (queue_ids w) = unat w"
  by (simp add: queue_ids_def)

lemma distinct_queue_ids: "distinct (queue_ids w)"
proof -
  have "inj_on (of_nat :: nat \<Rightarrow> u32) {0..<unat w}"
  proof (rule inj_onI)
    fix i j
    assume "i \<in> {0..<unat w}" "j \<in> {0..<unat w}" "(of_nat i :: u32) = of_nat j"
    then have "i < unat w" "j < unat w" "unat (of_nat i :: u32) = unat (of_nat j :: u32)" by simp_all
    moreover have "unat w < 2 ^ LENGTH(32)" by (rule unat_lt_pow)
    ultimately have "i < 2 ^ LENGTH(32)" "j < 2 ^ LENGTH(32)" "unat (of_nat i :: u32) = unat (of_nat j :: u32)"
      by linarith+
    then show "i = j" by (simp add: unat_of_nat_small)
  qed
  then show ?thesis by (simp add: queue_ids_def distinct_map)
qed

text \<open>Every worker has at least one queue and a CPU, unless there are no CPUs at all.\<close>

lemma worker_cpu_in: "cpus \<noteq> [] \<Longrightarrow> \<exists>c \<in> set cpus. worker_cpu cpus w = Inr c"
  by (auto simp: worker_cpu_def intro!: nth_mem)

lemma parse_mac_length: "parse_mac s = Some m \<Longrightarrow> length m = 6"
proof -
  assume "parse_mac s = Some m"
  moreover have "those xs = Some ys \<Longrightarrow> length ys = length xs" for xs :: "u8 option list" and ys
    by (induction xs arbitrary: ys) (auto split: option.splits)
  ultimately show ?thesis by (fastforce simp: parse_mac_def Let_def split: if_splits)
qed

lemma arp_scan_length: "arp_scan t ls = Some m \<Longrightarrow> length m = 6"
  by (induction t ls rule: arp_scan.induct) (auto split: list.splits if_splits dest: parse_mac_length)

lemma lookup_arp_length: "lookup_arp f ip = Some m \<Longrightarrow> length m = 6"
  by (auto simp: lookup_arp_def split: option.splits dest: arp_scan_length)

lemma resolve_server_mac_length: "snd (snd (resolve_server_mac arp ip)) = Some m \<Longrightarrow> length m = 6"
  by (auto simp: resolve_server_mac_def arp_retry_looks Let_def split: option.splits if_splits dest: lookup_arp_length)

lemma open_tx_socket_Inr:
  assumes "open_tx_socket os ifidx q zc tr = (tr', Inr sock)"
  obtains tr1 z where "create_xsk_socket os ifidx q z tr1 = (tr', Inr sock)"
  using assms by (auto simp: open_tx_socket_def or_elseE_def split: if_splits prod.splits sum.splits)

text \<open>A worker's state before its first turn: on queue \<open>q\<close>, with header \<open>hdr\<close>, all TX frames free and nothing handed to
  the kernel.\<close>

definition fresh_worker :: "TxState \<Rightarrow> FrameHeader \<Rightarrow> u32 \<Rightarrow> bool" where
  "fresh_worker st hdr q \<longleftrightarrow> tx_inv st \<and> ts_hdr st = hdr \<and> ts_pool st = tx_pool_addrs \<and> tx_frames st = tx_pool_addrs \<and>
     handed st = [] \<and> sxdp_queue_id (ts_sa st) = q"

lemma tx_state_of_ready:
  assumes "fresh_addr_rings (gh_os g)" "fresh_desc_rings (gh_os g)"
    and "open_tx_socket (gh_os g) ifidx q zc tr = (tr', Inr sock)"
  shows "fresh_worker (tx_state_of g hdr ifidx q sock) hdr q"
proof -
  obtain tr1 z where "create_xsk_socket (gh_os g) ifidx q z tr1 = (tr', Inr sock)"
    using assms(3) by (rule open_tx_socket_Inr)
  from create_xsk_socket_rings [OF assms(1,2) this] show ?thesis
    using distinct_frames
    by (simp add: fresh_worker_def tx_state_of_def extract_tx_def tx_inv_def tx_frames_def handed_def pending_def)
qed

lemma tx_states_ready:
  assumes "fresh_addr_rings (gh_os g)" "fresh_desc_rings (gh_os g)"
    and "tx_states g hdr ifidx zc qs sts tr = (tr', Inr sts')"
  shows "\<exists>new. sts' = sts @ new \<and> length new = length qs \<and> (\<forall>i < length qs. fresh_worker (new ! i) hdr (qs ! i))"
  using assms(3)
proof (induction qs arbitrary: sts tr)
  case (Cons q qs)
  from Cons.prems obtain tr1 sock where sock: "open_tx_socket (gh_os g) ifidx q zc tr = (tr1, Inr sock)"
    and rest: "tx_states g hdr ifidx zc qs (sts @ [tx_state_of g hdr ifidx q sock]) tr1 = (tr', Inr sts')"
    by (auto split: prod.splits sum.splits)
  from Cons.IH [OF rest] obtain new where new: "sts' = sts @ [tx_state_of g hdr ifidx q sock] @ new" "length new = length qs"
    "\<forall>i < length qs. fresh_worker (new ! i) hdr (qs ! i)" by auto
  show ?case
    using new tx_state_of_ready [OF assms(1,2) sock, of hdr]
    by (intro exI [of _ "tx_state_of g hdr ifidx q sock # new"]) (auto simp: nth_Cons split: nat.splits)
qed (simp add: retE_def)

lemma tx_states_length: "tx_states g hdr ifidx zc qs sts tr = (tr', Inr sts') \<Longrightarrow> length sts' = length sts + length qs"
  by (induction qs arbitrary: sts tr) (auto simp: retE_def split: prod.splits sum.splits)

lemma blast_header_Inr:
  assumes "blast_header g iface dst_ip dst_port = Inr hdr"
  obtains sm dm si where "length sm = 6" "length dm = 6" "local_ipv4 (gh_ifaddrs g) iface = Some si"
    "local_mac (read_file (gh_fs g)) iface = Some sm" "snd (snd (resolve_server_mac (gh_arp g) dst_ip)) = Some dm"
    "hdr = frame_header_new sm dm si dst_ip 40000 dst_port"
proof -
  from assms obtain si sm dm where h: "local_ipv4 (gh_ifaddrs g) iface = Some si"
    "local_mac (read_file (gh_fs g)) iface = Some sm" "snd (snd (resolve_server_mac (gh_arp g) dst_ip)) = Some dm"
    "hdr = frame_header_new sm dm si dst_ip 40000 dst_port"
    by (auto simp: blast_header_def split: option.splits prod.splits)
  have "length sm = 6"
    using h(2) parse_mac_length by (auto simp: local_mac_def split: option.splits)
  moreover have "length dm = 6"
    using resolve_server_mac_length h(3) by blast
  ultimately show thesis using h that by blast
qed



section \<open>The sink's sockets and descriptors\<close>

lemma xsk_drop_fds: "open_fds (xsk_drop s tr) = open_fds tr - {#xsk_fd s#}"
  by (simp add: xsk_drop_def umem_drop_def sys_close_def sys_munmap_def)

lemma drop_socks_fds: "open_fds (drop_socks socks tr) = open_fds tr - mset (map xsk_fd socks)"
  unfolding drop_socks_def by (induction socks arbitrary: tr) (simp_all add: xsk_drop_fds)

lemma create_xsk_socket_fd:
  assumes "create_xsk_socket os ifx q zc tr = (tr', Inr s)"
  shows "open_fds tr' = add_mset (xsk_fd s) (open_fds tr)"
proof -
  from assms obtain tr1 tr2 u pool where "umem_new os (xsk_fd s) tr1 = (tr2, Inr (u, pool))"
    "xsk_finish os (xsk_fd s) u pool ifx q zc tr2 = (tr', Inr s)" "open_fds tr1 = add_mset (xsk_fd s) (open_fds tr)"
    by (rule create_xsk_socket_Inr)
  then show ?thesis using umem_new_Inr xsk_finish_Inr by metis
qed

text \<open>\<open>opens M tr tr'\<close>: between the two traces the descriptors \<open>M\<close> were opened and kept, together with exactly those of
  the sockets that were refused their second request for ring offsets, which \<^const>\<open>create_xsk_socket\<close> loses.\<close>

definition opens :: "int multiset \<Rightarrow> trace \<Rightarrow> trace \<Rightarrow> bool" where
  "opens M tr tr' \<longleftrightarrow> (\<exists>L. refused_second tr' = refused_second tr + L \<and> open_fds tr' = open_fds tr + M + L)"

lemma opens_refl: "opens {#} tr tr"
  by (simp add: opens_def)

lemma opens_trans: "opens M tr tr1 \<Longrightarrow> opens N tr1 tr2 \<Longrightarrow> opens (M + N) tr tr2"
  unfolding opens_def by (elim exE conjE) (rule exI, rule conjI, simp add: add.assoc, simp add: ac_simps)

lemma refused_second_drop: "refused_second (xsk_drop s tr) = refused_second tr"
  by (simp add: refused_second_def xsk_drop_def umem_drop_def sys_close_def sys_munmap_def)

lemma refused_second_drop_socks: "refused_second (drop_socks socks tr) = refused_second tr"
  unfolding drop_socks_def by (induction socks arbitrary: tr) (simp_all add: refused_second_drop)

lemma opens_drop_socks: "opens (mset (map xsk_fd socks)) tr tr' \<Longrightarrow> opens {#} tr (drop_socks socks tr')"
  by (auto simp: opens_def drop_socks_fds refused_second_drop_socks)

definition made_fds :: "'e + XskSocket \<Rightarrow> int multiset" where
  "made_fds r = (case r of Inl _ \<Rightarrow> {#} | Inr s \<Rightarrow> {#xsk_fd s#})"

lemma create_xsk_socket_refused:
  assumes "create_xsk_socket os ifx q zc tr = (tr', Inr s)"
  shows "refused_second tr' = refused_second tr"
proof -
  from assms obtain tr1 tr2 u pool where steps: "umem_new os (xsk_fd s) tr1 = (tr2, Inr (u, pool))"
    "xsk_finish os (xsk_fd s) u pool ifx q zc tr2 = (tr', Inr s)" "0 \<le> xsk_fd s"
    "snd (offsets_state tr1) = snd (offsets_state tr)"
    by (rule create_xsk_socket_Inr)
  have fd: "xsk_fd s \<noteq> -1" using steps(3) by simp
  have "snd (offsets_state tr2) = snd (offsets_state tr1)"
    using umem_new_Inr [OF steps(1)] fd by (auto simp: history_def)
  moreover have "snd (offsets_state tr') = snd (offsets_state tr2)"
    using xsk_finish_Inr [OF steps(2)] fd by blast
  ultimately show ?thesis using steps(4) by (simp add: refused_second_def)
qed

lemma create_xsk_socket_opens:
  assumes "create_xsk_socket os ifx q zc tr = (tr', r)"
  shows "opens (made_fds r) tr tr'"
proof (cases r)
  case (Inl e)
  then show ?thesis using create_xsk_socket_Inl assms by (fastforce simp: opens_def made_fds_def)
next
  case (Inr s)
  then show ?thesis
    using create_xsk_socket_fd create_xsk_socket_refused assms by (fastforce simp: opens_def made_fds_def)
qed

lemma or_else_opens:
  assumes "or_elseE (create_xsk_socket os ifx q True) (create_xsk_socket os ifx q False) tr = (tr', r)"
  shows "opens (made_fds r) tr tr'"
proof -
  obtain tr1 r1 where one: "create_xsk_socket os ifx q True tr = (tr1, r1)" by fastforce
  note o1 = create_xsk_socket_opens [OF one]
  show ?thesis
  proof (cases r1)
    case (Inl e)
    with assms one have "create_xsk_socket os ifx q False tr1 = (tr', r)" by (simp add: or_elseE_def)
    from opens_trans [OF o1 create_xsk_socket_opens [OF this]] Inl show ?thesis by (simp add: made_fds_def)
  next
    case (Inr s)
    with assms one o1 show ?thesis by (simp add: or_elseE_def)
  qed
qed

lemma open_tx_socket_opens: "open_tx_socket os ifidx q zc tr = (tr', r) \<Longrightarrow> opens (made_fds r) tr tr'"
  by (auto simp: open_tx_socket_def intro: or_else_opens create_xsk_socket_opens split: if_splits)

lemma sink_socks_opens:
  assumes "sink_socks a os ifidx qs h socks tr = (tr', r)" "opens (mset (map xsk_fd socks)) tr0 tr"
  shows "opens (case r of Inl _ \<Rightarrow> {#} | Inr (h', socks') \<Rightarrow> mset (map xsk_fd socks')) tr0 tr'"
  using assms
proof (induction qs arbitrary: h socks tr)
  case (Cons q qs)
  obtain tr1 r1 where one: "or_elseE (create_xsk_socket os ifidx q True) (create_xsk_socket os ifidx q False) tr = (tr1, r1)"
    by fastforce
  note o = opens_trans [OF Cons.prems(2) or_else_opens [OF one]]
  show ?case
  proof (cases r1)
    case (Inl e)
    with Cons.prems one have "tr' = drop_socks socks tr1" "isl r" by auto
    with o Inl show ?thesis by (cases r) (simp_all add: made_fds_def opens_drop_socks)
  next
    case (Inr s)
    then have o': "opens (mset (map xsk_fd (socks @ [s]))) tr0 tr1" using o by (simp add: made_fds_def)
    show ?thesis
    proof (cases "register_socket a h q (xsk_fd s)")
      case (Inl e)
      with Inr Cons.prems one have "tr' = drop_socks (s # socks) tr1" "isl r" by (auto simp: drop_socks_def)
      moreover have "opens (mset (map xsk_fd (s # socks))) tr0 tr1" using o' by simp
      ultimately show ?thesis using opens_drop_socks by (cases r) auto
    next
      case r: (Inr h')
      with Cons.prems(1) Inr one have "sink_socks a os ifidx qs h' (socks @ [s]) tr1 = (tr', r)" by simp
      from Cons.IH [OF this o'] show ?thesis .
    qed
  qed
qed (auto simp: retE_def)


lemma sink_socks_registered:
  assumes "sink_socks a os ifidx qs h socks tr = (tr', Inr (h', socks'))" "distinct qs"
  shows "\<exists>new. socks' = socks @ new \<and> length new = length qs \<and>
    (\<forall>i < length qs. xsks h' (qs ! i) = Some (xsk_fd (new ! i)) \<and>
       (\<exists>zc tr1 tr2. create_xsk_socket os ifidx (qs ! i) zc tr1 = (tr2, Inr (new ! i)))) \<and>
    (\<forall>q. q \<notin> set qs \<longrightarrow> xsks h' q = xsks h q)"
  using assms
proof (induction qs arbitrary: h socks tr)
  case (Cons q qs)
  from Cons.prems(1) obtain tr1 s h1 where
    one: "or_elseE (create_xsk_socket os ifidx q True) (create_xsk_socket os ifidx q False) tr = (tr1, Inr s)"
    and reg: "register_socket a h q (xsk_fd s) = Inr h1"
    and rest: "sink_socks a os ifidx qs h1 (socks @ [s]) tr1 = (tr', Inr (h', socks'))"
    by (auto split: prod.splits sum.splits)
  have made: "\<exists>zc tr1 tr2. create_xsk_socket os ifidx q zc tr1 = (tr2, Inr s)"
    using one by (auto simp: or_elseE_def split: prod.splits sum.splits)
  from Cons.IH [OF rest] Cons.prems(2) obtain new where new: "socks' = socks @ [s] @ new" "length new = length qs"
    "\<forall>i < length qs. xsks h' (qs ! i) = Some (xsk_fd (new ! i)) \<and>
       (\<exists>zc tr1 tr2. create_xsk_socket os ifidx (qs ! i) zc tr1 = (tr2, Inr (new ! i)))"
    "\<forall>q. q \<notin> set qs \<longrightarrow> xsks h' q = xsks h1 q" by auto
  have q: "xsks h' q = Some (xsk_fd s)" "\<And>q'. q' \<noteq> q \<Longrightarrow> xsks h1 q' = xsks h q'"
    using new(4) Cons.prems(2) register_socket_xsks [OF reg] by auto
  show ?case
    using new q made
    by (intro exI [of _ "s # new"]) (auto simp: nth_Cons split: nat.splits)
qed (auto simp: retE_def)

lemma sink_redirects:
  assumes "redirect_map_ok rm" "xdp_udp_sink a prog os nti fs iface cpus tr = (tr', Inr (h, socks))"
    and "udp_over_ipv4 f \<or> udp_over_ipv6 f"
  shows "length socks = unat (worker_count cpus (get_rx_queue_count fs iface)) \<and>
    (\<forall>w < length socks. dns_xdp_client rm (xsks h) (of_nat w) f = XDP_REDIRECT (xsk_fd (socks ! w)) \<and>
       (\<exists>ifidx zc tr1 tr2. create_xsk_socket os ifidx (of_nat w) zc tr1 = (tr2, Inr (socks ! w)))) \<and>
    (\<forall>q. length socks \<le> unat q \<longrightarrow> dns_xdp_client rm (xsks h) q f = XDP_PASS)"
proof -
  let ?W = "worker_count cpus (get_rx_queue_count fs iface)"
  from assms(2) obtain ifidx h0 where load: "xdp_load a prog iface = Inr h0"
    and run: "sink_socks a os ifidx (queue_ids ?W) h0 [] tr = (tr', Inr (h, socks))"
    by (auto simp: xdp_udp_sink_def split: option.splits sum.splits)
  note h0 = xdp_load_xsks [OF load]
  from sink_socks_registered [OF run distinct_queue_ids] have s: "length socks = unat ?W"
    "\<forall>i < unat ?W. xsks h (queue_ids ?W ! i) = Some (xsk_fd (socks ! i)) \<and>
       (\<exists>zc tr1 tr2. create_xsk_socket os ifidx (queue_ids ?W ! i) zc tr1 = (tr2, Inr (socks ! i)))"
    "\<forall>q. q \<notin> set (queue_ids ?W) \<longrightarrow> xsks h q = None"
    by (auto simp: h0)
  have "q \<notin> set (queue_ids ?W)" if "unat ?W \<le> unat q" for q
  proof -
    have "unat (of_nat i :: u32) = i" if "i < unat ?W" for i
      using that unat_lt_pow [of ?W] by (intro unat_of_nat_small) linarith
    with that show ?thesis by (fastforce simp: queue_ids_def)
  qed
  then have none: "dns_xdp_client rm (xsks h) q f = XDP_PASS" if "length socks \<le> unat q" for q
    using that s by (simp add: dns_xdp_client_redirect [OF assms(1)])
  have "dns_xdp_client rm (xsks h) (of_nat w) f = XDP_REDIRECT (xsk_fd (socks ! w)) \<and>
       (\<exists>ifidx zc tr1 tr2. create_xsk_socket os ifidx (of_nat w) zc tr1 = (tr2, Inr (socks ! w)))" if "w < length socks" for w
    using that s(1) s(2) [rule_format, of w] assms(3) by (auto simp: dns_xdp_client_redirect [OF assms(1)] queue_ids_nth)
  with none s(1) show ?thesis by blast
qed

text \<open>C10. Delivery.  After a successful set-up of the sink, every UDP packet that arrives on queue \<open>w\<close> (for each worker
  \<open>w\<close>) is redirected by the XDP program to the socket of worker \<open>w\<close>, which was created for that queue; queues without a
  worker keep going to the kernel's stack.  This holds for every port: the XDP program's opening comment promises it
  for source port 53 only.\<close>

theorem sink_delivers:
  assumes "redirect_map_ok rm" "xdp_udp_sink a prog os nti fs iface cpus tr = (tr', Inr (h, socks))"
    and "udp_over_ipv4 f \<or> udp_over_ipv6 f"
  shows "length socks = unat (worker_count cpus (get_rx_queue_count fs iface)) \<and>
    (\<forall>w < length socks. dns_xdp_client rm (xsks h) (of_nat w) f = XDP_REDIRECT (xsk_fd (socks ! w)) \<and>
       (\<exists>ifidx zc tr1 tr2. create_xsk_socket os ifidx (of_nat w) zc tr1 = (tr2, Inr (socks ! w)))) \<and>
    (\<forall>q. length socks \<le> unat q \<longrightarrow> dns_xdp_client rm (xsks h) q f = XDP_PASS)"
  by (rule sink_redirects [OF assms])

text \<open>C23. The sink's descriptors.  Whatever goes wrong in setting up the sink (interface, program, socket, registration), the
  sockets already made are closed; on success exactly the sockets of the workers are open, and dropping them at the end
  of the run closes them all.  The only descriptors that stay (\<open>L\<close>) are those of the sockets that the kernel refused
  the second request for the ring offsets, whether the fallback to copy mode then succeeded or not.\<close>

theorem sink_descriptors:
  assumes "xdp_udp_sink a prog os nti fs iface cpus tr = (tr', r)"
  shows "\<exists>L. refused_second tr' = refused_second tr + L \<and>
    (case r of Inl _ \<Rightarrow> open_fds tr' = open_fds tr + L
     | Inr (h, socks) \<Rightarrow> open_fds tr' = open_fds tr + mset (map xsk_fd socks) + L \<and>
         open_fds (drop_socks socks tr') = open_fds tr + L)"
proof -
  consider "tr' = tr" "isl r"
    | ifidx h0 qs where "sink_socks a os ifidx qs h0 [] tr = (tr', r)"
    using assms by (auto simp: xdp_udp_sink_def split: option.splits sum.splits)
  then have "opens (case r of Inl _ \<Rightarrow> {#} | Inr (h', socks') \<Rightarrow> mset (map xsk_fd socks')) tr tr'"
  proof cases
    case 1
    then show ?thesis by (cases r) (simp_all add: opens_refl)
  next
    case 2
    from sink_socks_opens [OF 2] show ?thesis by (simp add: opens_refl)
  qed
  then show ?thesis by (auto simp: opens_def drop_socks_fds split: sum.splits)
qed


text \<open>Each socket of the generator stays open: on success one per worker, on failure those made before it.\<close>

lemma fd_tx_state_of: "ts_fd (tx_state_of g hdr ifidx q s) = xsk_fd s"
  by (simp add: tx_state_of_def extract_tx_def)

lemma tx_states_opens:
  assumes "tx_states g hdr ifidx zc qs sts tr = (tr', Inr sts')" "opens (mset (map ts_fd sts)) tr0 tr"
  shows "opens (mset (map ts_fd sts')) tr0 tr'"
  using assms
proof (induction qs arbitrary: sts tr)
  case (Cons q qs)
  from Cons.prems(1) obtain tr1 s where one: "open_tx_socket (gh_os g) ifidx q zc tr = (tr1, Inr s)"
    and rest: "tx_states g hdr ifidx zc qs (sts @ [tx_state_of g hdr ifidx q s]) tr1 = (tr', Inr sts')"
    by (auto split: prod.splits sum.splits)
  have "opens (mset (map ts_fd (sts @ [tx_state_of g hdr ifidx q s]))) tr0 tr1"
    using opens_trans [OF Cons.prems(2) open_tx_socket_opens [OF one]] by (simp add: made_fds_def fd_tx_state_of)
  from Cons.IH [OF rest this] show ?case .
qed (auto simp: retE_def)

text \<open>Where a failed set-up stopped.\<close>

lemma tx_states_Inl:
  assumes "tx_states g hdr ifidx zc qs sts tr = (tr', Inl e)"
  shows "\<exists>k tr1 sts' e'. k < length qs \<and> e = GenXdp e' \<and> length sts' = length sts + k \<and>
    tx_states g hdr ifidx zc (take k qs) sts tr = (tr1, Inr sts') \<and>
    open_tx_socket (gh_os g) ifidx (qs ! k) zc tr1 = (tr', Inl e')"
  using assms
proof (induction qs arbitrary: sts tr)
  case (Cons q qs)
  obtain tr1 r1 where one: "open_tx_socket (gh_os g) ifidx q zc tr = (tr1, r1)" by fastforce
  show ?case
  proof (cases r1)
    case (Inl e')
    with Cons.prems one show ?thesis by (intro exI [of _ 0] exI [of _ tr] exI [of _ sts] exI [of _ e']) (auto simp: retE_def)
  next
    case (Inr s)
    with Cons.prems one have "tx_states g hdr ifidx zc qs (sts @ [tx_state_of g hdr ifidx q s]) tr1 = (tr', Inl e)" by simp
    from Cons.IH [OF this] obtain k tr2 sts' e' where k: "k < length qs" "e = GenXdp e'"
      "length sts' = Suc (length sts + k)"
      "tx_states g hdr ifidx zc (take k qs) (sts @ [tx_state_of g hdr ifidx q s]) tr1 = (tr2, Inr sts')"
      "open_tx_socket (gh_os g) ifidx (qs ! k) zc tr2 = (tr', Inl e')" by auto
    then show ?thesis
      using one Inr by (intro exI [of _ "Suc k"] exI [of _ tr2] exI [of _ sts'] exI [of _ e']) simp
  qed
qed (simp add: retE_def)

lemma tx_jobs_fds: "map (\<lambda>j. ts_fd (tj_state j)) (tx_jobs cpus n pps sts) = map ts_fd sts"
  by (rule nth_equalityI) (simp_all add: tx_jobs_def nth_enumerate_eq)

text \<open>C24. The generator's descriptors.  On success one socket per worker is open.  When the socket of queue \<open>k\<close> cannot be
  created, the sockets of all earlier queues (\<open>sts\<close>, the states made for them) stay open, since they were forgotten on
  purpose and the worker states do not close them.  In both cases the descriptors of the sockets that were refused their
  second request for ring offsets (\<open>L\<close>) stay as well.  A failure before the first socket does nothing.\<close>

theorem blast_descriptors:
  assumes "xdp_udp_blast g armed iface dst_ip dst_port payload_len target_pps cpus tr = (tr', r)"
  shows "\<exists>L. refused_second tr' = refused_second tr + L \<and>
    (case r of
       Inr jobs \<Rightarrow> open_fds tr' = open_fds tr + mset (map (\<lambda>j. ts_fd (tj_state j)) jobs) + L \<and>
         length jobs = unat (worker_count cpus (get_rx_queue_count (gh_fs g) iface))
     | Inl (GenXdp e) \<Rightarrow> (\<exists>ifidx hdr k tr1 sts.
         iface_index (gh_nametoindex g) iface = Some ifidx \<and> blast_header g iface dst_ip dst_port = Inr hdr \<and>
         k < unat (worker_count cpus (get_rx_queue_count (gh_fs g) iface)) \<and> length sts = k \<and>
         tx_states g hdr ifidx armed (map of_nat [0..<k]) [] tr = (tr1, Inr sts) \<and>
         open_tx_socket (gh_os g) ifidx (of_nat k) armed tr1 = (tr', Inl e) \<and>
         open_fds tr' = open_fds tr + mset (map ts_fd sts) + L)
     | Inl _ \<Rightarrow> tr' = tr)"
proof -
  let ?W = "worker_count cpus (get_rx_queue_count (gh_fs g) iface)"
  from assms consider (none) "tr' = tr" "isl r" "\<nexists>e. r = Inl (GenXdp e)"
    | (fail) ifidx hdr e where "iface_index (gh_nametoindex g) iface = Some ifidx"
        "blast_header g iface dst_ip dst_port = Inr hdr"
        "tx_states g hdr ifidx armed (queue_ids ?W) [] tr = (tr', Inl e)" "r = Inl e"
    | (ok) ifidx hdr sts jobs where "tx_states g hdr ifidx armed (queue_ids ?W) [] tr = (tr', Inr sts)" "r = Inr jobs"
        "map (\<lambda>j. ts_fd (tj_state j)) jobs = map ts_fd sts"
    using tx_jobs_fds
    by (cases r) (auto simp: xdp_udp_blast_def blast_header_def Let_def bindE_Inr bindE_Inl retE_def
        split: option.splits sum.splits prod.splits)
  then show ?thesis
  proof cases
    case none
    then show ?thesis by (intro exI [of _ "{#}"]) (auto split: sum.splits gen_error.splits)
  next
    case fail
    from tx_states_Inl [OF fail(3)] obtain k tr1 sts e' where k: "k < unat ?W" "e = GenXdp e'" "length sts = k"
      "tx_states g hdr ifidx armed (take k (queue_ids ?W)) [] tr = (tr1, Inr sts)"
      "open_tx_socket (gh_os g) ifidx (of_nat k) armed tr1 = (tr', Inl e')" by (auto simp: queue_ids_nth)
    have qs: "take k (queue_ids ?W) = map of_nat [0..<k]" using k(1) by (simp add: queue_ids_def take_map)
    have "opens (mset (map ts_fd sts)) tr tr'"
      using opens_trans [OF tx_states_opens [OF k(4)] open_tx_socket_opens [OF k(5)]] by (simp add: opens_refl made_fds_def)
    with fail k qs show ?thesis by (auto simp: opens_def)
  next
    case ok
    have "opens (mset (map ts_fd sts)) tr tr'" using tx_states_opens [OF ok(1)] by (simp add: opens_refl)
    moreover have "length jobs = unat ?W"
      using tx_states_length [OF ok(1)] arg_cong [OF ok(3), of length] by simp
    ultimately show ?thesis by (simp add: opens_def ok(2) ok(3) [symmetric] flip: mset_map)
  qed
qed


section \<open>A host to run on\<close>

lemma good_os_always: "\<exists>tr' s. create_xsk_socket good_os ifx q zc tr = (tr', Inr s)"
  by (simp add: create_xsk_socket_def xsk_finish_def get_rx_tx_offsets_def bind_xsk_def
      mmap_desc_ring_def demo_simps)

definition demo_fs :: sysfs where
  "demo_fs = \<lparr>read_file = (\<lambda>p. if p = ''/sys/class/net/eth0/address'' then Some (show_mac [2, 0, 0, 0, 0, 1] @ [newline]) else None),
     read_dir = (\<lambda>_. None), path_exists = (\<lambda>_. True), read_link = (\<lambda>_. None)\<rparr>"

definition demo_host :: gen_host where
  "demo_host = \<lparr>gh_nametoindex = (\<lambda>_. 2),
     gh_ifaddrs = Some [\<lparr>ifa_name = Some ''eth0'', ifa_addr = Some (2, 0x0100000a), ifa_netmask = None\<rparr>],
     gh_fs = demo_fs,
     gh_arp = (\<lambda>_. Some (unlines (''IP address'' # map arp_line [(Ipv4 10 0 0 2, True, [2, 0, 0, 0, 0, 2])]))),
     gh_os = good_os, gh_mem = (\<lambda>_ _. 0)\<rparr>"

lemma demo_rx_queues: "get_rx_queue_count demo_fs iface = 1"
  by (simp add: get_rx_queue_count_def queue_count_def demo_fs_def)

lemma demo_workers: "queue_ids (worker_count [0] (get_rx_queue_count demo_fs iface)) = [0]"
  by (simp add: demo_rx_queues worker_count_def queue_ids_def)

lemma demo_mac: "local_mac (read_file demo_fs) ''eth0'' = Some [2, 0, 0, 0, 0, 1]"
proof -
  have "trim (show_mac [2, 0, 0, 0, 0, 1] @ [newline]) = show_mac [2, 0, 0, 0, 0, 1]"
    using show_mac_no_space [of _ "[2, 0, 0, 0, 0, 1]"]
    by (intro trim_append_space show_mac_not_Nil) (auto simp: newline_def is_whitespace_def)
  then show ?thesis
    using parse_show_mac [of "[2, 0, 0, 0, 0, 1]"] by (simp add: local_mac_def demo_fs_def)
qed

lemma demo_arp: "lookup_arp (gh_arp demo_host k) (Ipv4 10 0 0 2) = Some [2, 0, 0, 0, 0, 2]"
proof -
  let ?es = "[(Ipv4 10 0 0 2, True, [2, 0, 0, 0, 0, 2])] :: (Ipv4Addr \<times> bool \<times> bytes) list"
  have "lines (unlines (''IP address'' # map arp_line ?es)) = ''IP address'' # map arp_line ?es"
    using arp_line_no_newline by (intro lines_unlines) (auto simp: newline_def)
  moreover have "arp_scan (show_ipv4 (Ipv4 10 0 0 2)) (map arp_line ?es) = Some [2, 0, 0, 0, 0, 2]"
    by (subst arp_scan_table) auto
  ultimately show ?thesis by (simp add: lookup_arp_def demo_host_def)
qed

lemma refused_second_Nil [simp]: "refused_second [] = {#}"
  by (simp add: refused_second_def offsets_state_def)

lemma demo_blast:
  "\<exists>tr' jobs. xdp_udp_blast demo_host False ''eth0'' (Ipv4 10 0 0 2) 5201 64 1000 [0] [] = (tr', Inr jobs) \<and> refused_second tr' = {#}"
proof -
  have "resolve_server_mac (gh_arp demo_host) (Ipv4 10 0 0 2) = (1, False, Some [2, 0, 0, 0, 0, 2])"
    by (simp add: resolve_server_mac_def demo_arp)
  moreover have "local_ipv4 (gh_ifaddrs demo_host) ''eth0'' = Some (ipv4_of_u32 (swap_bytes 0x0100000a))"
    by (simp add: demo_host_def local_ipv4_def AF_INET_def)
  moreover have "gh_fs demo_host = demo_fs" "gh_os demo_host = good_os" "iface_index (gh_nametoindex demo_host) ''eth0'' = Some 2"
    by (simp_all add: demo_host_def iface_index_def)
  moreover obtain tr' s where made: "create_xsk_socket good_os 2 0 False [] = (tr', Inr s)" using good_os_always by blast
  moreover have "refused_second tr' = {#}" using create_xsk_socket_refused [OF made] by simp
  ultimately show ?thesis
    by (simp add: xdp_udp_blast_def blast_header_def demo_mac demo_workers open_tx_socket_def bindE_def retE_def)
qed


theorem blast_descriptors_witness:
  "\<exists>tr' jobs M. xdp_udp_blast demo_host False ''eth0'' (Ipv4 10 0 0 2) 5201 64 1000 [0] [] = (tr', Inr jobs) \<and>
     open_fds tr' = M \<and> M = mset (map (\<lambda>j. ts_fd (tj_state j)) jobs)"
proof -
  obtain tr' jobs where run: "xdp_udp_blast demo_host False ''eth0'' (Ipv4 10 0 0 2) 5201 64 1000 [0] [] = (tr', Inr jobs)"
    and "refused_second tr' = {#}" using demo_blast by blast
  with blast_descriptors [OF run] show ?thesis by (auto simp: open_fds_def)
qed

lemma demo_sink:
  "\<exists>tr' h socks. xdp_udp_sink demo_aya [] good_os (\<lambda>_. 2) demo_fs ''eth0'' [0] [] = (tr', Inr (h, socks)) \<and> refused_second tr' = {#}"
proof -
  obtain tr' s where made: "create_xsk_socket good_os 2 0 True [] = (tr', Inr s)" using good_os_always by blast
  from made create_xsk_socket_refused [OF made] show ?thesis
    by (simp add: xdp_udp_sink_def demo_aya_loads demo_workers iface_index_def or_elseE_def register_socket_def
        bind_res_def map_err_def) (simp add: demo_aya_def retE_def)
qed

theorem sink_delivers_witness:
  "\<exists>tr' h socks. xdp_udp_sink demo_aya [] good_os (\<lambda>_. 2) demo_fs ''eth0'' [0] [] = (tr', Inr (h, socks)) \<and>
     dns_xdp_client lookup_redirect (xsks h) 0 (frame_spec (replicate 6 1) (replicate 6 2) (Ipv4 10 0 0 1) (Ipv4 10 0 0 2) 40000 5201 [7])
       = XDP_REDIRECT (xsk_fd (socks ! 0))"
proof -
  obtain tr' h socks where run: "xdp_udp_sink demo_aya [] good_os (\<lambda>_. 2) demo_fs ''eth0'' [0] [] = (tr', Inr (h, socks))"
    using demo_sink by blast
  have u: "udp_over_ipv4 (frame_spec (replicate 6 1) (replicate 6 2) (Ipv4 10 0 0 1) (Ipv4 10 0 0 2) 40000 5201 [7])"
    by (rule frame_spec_udp) simp_all
  have "unat (worker_count [0] (get_rx_queue_count demo_fs ''eth0'')) = 1"
    by (simp add: demo_rx_queues worker_count_def)
  then show ?thesis
    using run sink_delivers [OF lookup_redirect_ok run disjI1 [OF u]] by (intro exI conjI) (assumption, fastforce)
qed

theorem sink_descriptors_witness:
  "\<exists>tr' h socks. xdp_udp_sink demo_aya [] good_os (\<lambda>_. 2) demo_fs ''eth0'' [0] [] = (tr', Inr (h, socks)) \<and>
     open_fds (drop_socks socks tr') = {#}"
proof -
  obtain tr' h socks where run: "xdp_udp_sink demo_aya [] good_os (\<lambda>_. 2) demo_fs ''eth0'' [0] [] = (tr', Inr (h, socks))"
    and none: "refused_second tr' = {#}" using demo_sink by blast
  from sink_descriptors [OF run] none have "open_fds (drop_socks socks tr') = {#}" by (auto simp: open_fds_def)
  with run show ?thesis by blast
qed


end
