(* ===== verification/Net_Engine.thy ===== *)
theory Net_Engine
  imports Os_Model Loss Pacing Affinity Frame
begin

unbundle bit_operations_syntax

text \<open>
  The socket engines of \<^verbatim>\<open>src/net.rs\<close>: counters and the once-a-second reporter, the REUSEPORT
  sockets, the TCP server and client, the UDP client (\<^verbatim>\<open>sendmmsg\<close>) and the UDP server
  (\<^verbatim>\<open>recvmmsg\<close>).  The results of reads, writes, sends and receives come from a schedule, one entry per
  turn of a loop; name resolution is a parameter.  Rates and percentages, floating point, are
  not modelled.  The theorems: no descriptor is left behind by a failed socket set-up, what the clients put
  on the wire, exact counters, loss as the server sees it.
\<close>

section \<open>Counters and reporter\<close>

definition BATCH :: nat where "BATCH = 64"
definition HDR :: nat where "HDR = 16"

record Counters =
  c_bytes :: u64
  c_packets :: u64
  c_drops :: u64

record reporter =
  last_b :: u64
  last_p :: u64
  last_d :: u64
  rep_t :: u64

text \<open>What one line of the report is computed from: the second, the bytes of the interval and, for UDP, its
  packets and drops.\<close>

record report_line =
  rl_t :: u64
  rl_bytes :: u64
  rl_udp :: "(u64 \<times> u64) option"

definition reporter_start :: reporter where
  "reporter_start = \<lparr>last_b = 0, last_p = 0, last_d = 0, rep_t = 0\<rparr>"

definition reporter_tick :: "bool \<Rightarrow> Counters \<Rightarrow> reporter \<Rightarrow> reporter \<times> report_line" where
  "reporter_tick udp c r =
     (let b = c_bytes c; p = c_packets c; t = rep_t r + 1 in
      if udp then
        (let d = c_drops c; dp = d - last_d r; rx = p - last_p r
         in (\<lparr>last_b = b, last_p = p, last_d = d, rep_t = t\<rparr>,
             \<lparr>rl_t = t, rl_bytes = b - last_b r, rl_udp = Some (rx, dp)\<rparr>))
      else
        (\<lparr>last_b = b, last_p = p, last_d = last_d r, rep_t = t\<rparr>,
         \<lparr>rl_t = t, rl_bytes = b - last_b r, rl_udp = None\<rparr>))"

text \<open>The reporter over the counter values it finds each second.\<close>

fun reports :: "bool \<Rightarrow> Counters list \<Rightarrow> reporter \<Rightarrow> report_line list" where
  "reports udp [] r = []"
| "reports udp (c # cs) r = (case reporter_tick udp c r of (r', l) \<Rightarrow> l # reports udp cs r')"

section \<open>Sockets\<close>

text \<open>The result of \<^verbatim>\<open>pin\<close> is the CPU that the thread is bound to, if the list has one and the kernel agreed.\<close>

definition pin :: "(nat \<Rightarrow> bool may_panic) \<Rightarrow> nat list \<Rightarrow> nat \<Rightarrow> nat option may_panic" where
  "pin pin_cpu cpus i =
     (if cpus \<noteq> [] then
        (let cpu = cpus ! (i mod length cpus) in
         case pin_cpu cpu of Inl p \<Rightarrow> Inl p | Inr ok \<Rightarrow> Inr (if ok then Some cpu else None))
      else Inr None)"

text \<open>The results of a group of threads.  The release profile has \<^verbatim>\<open>panic = "abort"\<close>: a panic in any thread ends the process, and
  \<^verbatim>\<open>join\<close> is reached only when there was none.  When several threads would panic, the first of the list is named.\<close>

fun join_all :: "'a may_panic list \<Rightarrow> 'a list may_panic" where
  "join_all [] = Inr []"
| "join_all (Inl p # rs) = Inl p"
| "join_all (Inr x # rs) = (case join_all rs of Inl p \<Rightarrow> Inl p | Inr xs \<Rightarrow> Inr (x # xs))"

definition SOCK_BUF :: int where "SOCK_BUF = 8 * 1024 * 1024"

definition SOL_SOCKET :: int where "SOL_SOCKET = 1"
definition SO_REUSEADDR :: int where "SO_REUSEADDR = 2"
definition SO_RCVBUF :: int where "SO_RCVBUF = 8"
definition SO_REUSEPORT :: int where "SO_REUSEPORT = 15"
definition PF_INET :: int where "PF_INET = 2"
definition SOCK_STREAM :: int where "SOCK_STREAM = 1"
definition SOCK_DGRAM :: int where "SOCK_DGRAM = 2"

definition set_opt_int :: "os \<Rightarrow> int \<Rightarrow> int \<Rightarrow> int \<Rightarrow> int \<Rightarrow> trace \<Rightarrow> trace" where
  "set_opt_int os fd level opt v tr = fst (sys_setsockopt os fd level opt (OptInt v) tr)"

datatype SocketAddr = SockV4 Ipv4Addr u16 | SockV6

datatype io_error = ResolveError string | NeedIpv4 | OsError string

text \<open>\<^verbatim>\<open>v4.port().to_be()\<close> on a little-endian host; \<^verbatim>\<open>u32::from_ne_bytes(v4.ip().octets())\<close> likewise.\<close>

definition to_be16 :: "u16 \<Rightarrow> u16" where
  "to_be16 w = from_be_bytes (lo_byte w) (hi_byte w)"

definition from_ne_bytes :: "bytes \<Rightarrow> u32" where
  "from_ne_bytes bs = foldr (\<lambda>b acc. ucast b OR push_bit 8 acc) bs 0"

fun first_v4 :: "SocketAddr list \<Rightarrow> (Ipv4Addr \<times> u16) option" where
  "first_v4 [] = None"
| "first_v4 (SockV4 ip port # rest) = Some (ip, port)"
| "first_v4 (SockV6 # rest) = first_v4 rest"

definition sockaddr_v4 :: "(string \<Rightarrow> string + SocketAddr list) \<Rightarrow> string \<Rightarrow> io_error + sockaddr_in" where
  "sockaddr_v4 resolve a =
     (case resolve a of
        Inl e \<Rightarrow> Inl (ResolveError e)
      | Inr l \<Rightarrow> (case first_v4 l of
                    None \<Rightarrow> Inl NeedIpv4
                  | Some (ip, port) \<Rightarrow>
                      Inr \<lparr>sin_family = of_int PF_INET, sin_port = to_be16 port, sin_addr = from_ne_bytes (octets ip)\<rparr>))"

definition reuseport_tcp_listener :: "os \<Rightarrow> (string \<Rightarrow> string + SocketAddr list) \<Rightarrow> string \<Rightarrow> (io_error, int) eio" where
  "reuseport_tcp_listener os resolve a = (\<lambda>tr.
     case sockaddr_v4 resolve a of Inl e \<Rightarrow> (tr, Inl e)
     | Inr sa \<Rightarrow>
       (case sys_socket os PF_INET SOCK_STREAM tr of (tr1, fd) \<Rightarrow>
          if fd < 0 then (tr1, Inl (OsError (os_last_error os tr1)))
          else
            let tr2 = set_opt_int os fd SOL_SOCKET SO_REUSEADDR 1 tr1;
                tr3 = set_opt_int os fd SOL_SOCKET SO_REUSEPORT 1 tr2
            in (case sys_bind os fd (SaIn sa) tr3 of (tr4, rc) \<Rightarrow>
                 if rc < 0 then (sys_close fd tr4, Inl (OsError (os_last_error os tr4)))
                 else (case sys_listen os fd 1024 tr4 of (tr5, rc2) \<Rightarrow>
                   if rc2 < 0 then (sys_close fd tr5, Inl (OsError (os_last_error os tr5)))
                   else (tr5, Inr fd)))))"

definition reuseport_udp_socket :: "os \<Rightarrow> (string \<Rightarrow> string + SocketAddr list) \<Rightarrow> string \<Rightarrow> (io_error, int) eio" where
  "reuseport_udp_socket os resolve a = (\<lambda>tr.
     case sockaddr_v4 resolve a of Inl e \<Rightarrow> (tr, Inl e)
     | Inr sa \<Rightarrow>
       (case sys_socket os PF_INET SOCK_DGRAM tr of (tr1, fd) \<Rightarrow>
          if fd < 0 then (tr1, Inl (OsError (os_last_error os tr1)))
          else
            let tr2 = set_opt_int os fd SOL_SOCKET SO_REUSEADDR 1 tr1;
                tr3 = set_opt_int os fd SOL_SOCKET SO_REUSEPORT 1 tr2;
                tr4 = set_opt_int os fd SOL_SOCKET SO_RCVBUF SOCK_BUF tr3
            in (case sys_bind os fd (SaIn sa) tr4 of (tr5, rc) \<Rightarrow>
                 if rc < 0 then (sys_close fd tr5, Inl (OsError (os_last_error os tr5)))
                 else (tr5, Inr fd))))"

text \<open>One socket per worker; a failure returns at once, and the sockets made before are held by their detached
  threads.\<close>

fun open_workers :: "(io_error, int) eio \<Rightarrow> nat \<Rightarrow> int list \<Rightarrow> (io_error, int list) eio" where
  "open_workers mk 0 fds = retE fds"
| "open_workers mk (Suc n) fds = bindE mk (\<lambda>fd. open_workers mk n (fds @ [fd]))"

definition server_workers :: "nat list \<Rightarrow> nat" where
  "server_workers cpus = max (length cpus) 1"

section \<open>TCP\<close>

text \<open>Results of \<^verbatim>\<open>read\<close> and \<^verbatim>\<open>write\<close>: the number of bytes, or an error.\<close>

type_synonym io_count = "nat option"

fun tcp_reader :: "io_count list \<Rightarrow> u64 \<Rightarrow> u64" where
  "tcp_reader [] b = b"
| "tcp_reader (None # rs) b = b"
| "tcp_reader (Some n # rs) b = (if n = 0 then b else tcp_reader rs (b + of_nat n))"

text \<open>The accept loops of all listeners together, in the order of their accepts: listener \<open>w\<close> gets a connection or an error, which
  is skipped.  The counter \<^verbatim>\<open>next\<close>, shared by all listeners, numbers the connections.  The result pairs each connection
  with its number.\<close>

fun tcp_accepts :: "(nat \<times> 'c option) list \<Rightarrow> u64 \<Rightarrow> ('c \<times> u64) list" where
  "tcp_accepts [] next = []"
| "tcp_accepts ((w, None) # evs) next = tcp_accepts evs next"
| "tcp_accepts ((w, Some s) # evs) next = (s, next) # tcp_accepts evs (next + 1)"

text \<open>The thread of a connection: pinned by its number, then the read loop.  The result is its CPU and what it added to
  the byte counter.\<close>

definition tcp_connection :: "(nat \<Rightarrow> bool may_panic) \<Rightarrow> nat list \<Rightarrow> u64 \<Rightarrow> io_count list \<Rightarrow> (nat option \<times> u64) may_panic" where
  "tcp_connection pin_cpu cpus rcpu rs =
     (case pin pin_cpu cpus (unat rcpu) of Inl p \<Rightarrow> Inl p | Inr cpu \<Rightarrow> Inr (cpu, tcp_reader rs 0))"

text \<open>All reader threads; a connection is given by what its reads return.\<close>

definition tcp_readers :: "(nat \<Rightarrow> bool may_panic) \<Rightarrow> nat list \<Rightarrow> (nat \<times> io_count list option) list \<Rightarrow> (nat option \<times> u64) list may_panic" where
  "tcp_readers pin_cpu cpus evs = join_all (map (\<lambda>(rs, rcpu). tcp_connection pin_cpu cpus rcpu rs) (tcp_accepts evs 0))"

definition tcp_server :: "os \<Rightarrow> (string \<Rightarrow> string + SocketAddr list) \<Rightarrow> string \<Rightarrow> nat list \<Rightarrow> (io_error, int list) eio" where
  "tcp_server os resolve a cpus = open_workers (reuseport_tcp_listener os resolve a) (server_workers cpus) []"

fun tcp_writer :: "nat \<Rightarrow> (nat \<times> io_count) list \<Rightarrow> u64 \<Rightarrow> u64" where
  "tcp_writer deadline [] b = b"
| "tcp_writer deadline ((now, r) # rs) b =
     (if now < deadline then
        (case r of None \<Rightarrow> b | Some n \<Rightarrow> if n = 0 then b else tcp_writer deadline rs (b + of_nat n))
      else b)"

text \<open>A client thread: its start is delayed by 25 ms per stream; a failed connect ends it.\<close>

definition tcp_stagger :: "nat \<Rightarrow> u64" where
  "tcp_stagger t = (if t > 0 then of_nat t * 25 else 0)"

definition tcp_stream :: "(nat \<Rightarrow> bool may_panic) \<Rightarrow> nat list \<Rightarrow> nat \<Rightarrow> bool \<Rightarrow> nat \<Rightarrow> (nat \<times> io_count) list \<Rightarrow> u64 may_panic" where
  "tcp_stream pin_cpu cpus t connected deadline rs =
     (case pin pin_cpu cpus t of Inl p \<Rightarrow> Inl p
      | Inr _ \<Rightarrow> Inr (if connected then tcp_writer deadline rs 0 else 0))"

record Summary =
  s_bytes :: u64
  s_packets :: u64

text \<open>All streams add to one counter; \<open>conn t\<close> and \<open>io t\<close> are what happens to stream \<open>t\<close>.\<close>

definition tcp_client :: "(nat \<Rightarrow> bool may_panic) \<Rightarrow> nat list \<Rightarrow> nat \<Rightarrow> nat \<Rightarrow> (nat \<Rightarrow> bool) \<Rightarrow> (nat \<Rightarrow> (nat \<times> io_count) list) \<Rightarrow>
    Summary may_panic" where
  "tcp_client pin_cpu cpus threads deadline conn io =
     (case join_all (map (\<lambda>t. tcp_stream pin_cpu cpus t (conn t) deadline (io t)) [0..<threads]) of
        Inl p \<Rightarrow> Inl p
      | Inr bs \<Rightarrow> Inr \<lparr>s_bytes = sum_list bs, s_packets = 0\<rparr>)"

section \<open>UDP client\<close>

text \<open>A turn of the send loop: the clock at the deadline check, what \<^verbatim>\<open>sendmmsg\<close> returned, the pacer's clock.\<close>

record send_turn =
  st_now :: nat
  st_ret :: int
  st_el :: nat
  st_restart :: nat

text \<open>The variables of a client thread.  \<open>uc_wire\<close> and \<open>uc_sent\<close> are history variables: the datagrams sent (\<^verbatim>\<open>sendmmsg\<close> sends
  the first messages of its vector), and how many in each turn.\<close>

record udp_client_state =
  uc_bufs :: "bytes list"
  uc_seq :: u64
  uc_pacer :: pacer
  uc_packets :: u64
  uc_bytes :: u64
  uc_wire :: "bytes list"
  uc_sent :: "nat list"

definition udp_start :: "nat \<Rightarrow> nat \<Rightarrow> nat \<Rightarrow> udp_client_state" where
  "udp_start t n now =
     \<lparr>uc_bufs = replicate BATCH (write_at 0 (to_le_bytes (of_nat t)) (replicate n 0)), uc_seq = 0,
      uc_pacer = \<lparr>sent_sec = 0, sec_start = now\<rparr>, uc_packets = 0, uc_bytes = 0, uc_wire = [], uc_sent = []\<rparr>"

fun stamp_bufs :: "u64 \<Rightarrow> bytes list \<Rightarrow> bytes list \<times> u64" where
  "stamp_bufs q [] = ([], q)"
| "stamp_bufs q (b # bs) =
     (case stamp_bufs (q + 1) bs of (bs', q') \<Rightarrow> (write_at 8 (to_le_bytes q) b # bs', q'))"

definition udp_turn :: "nat \<Rightarrow> u64 \<Rightarrow> send_turn \<Rightarrow> udp_client_state \<Rightarrow> udp_client_state" where
  "udp_turn n pps st s =
     (case stamp_bufs (uc_seq s) (uc_bufs s) of (bufs, seq) \<Rightarrow>
        let m = nat (st_ret st);
            s1 = s\<lparr>uc_bufs := bufs, uc_seq := seq\<rparr>;
            s2 = (if st_ret st > 0 then
                    s1\<lparr>uc_packets := uc_packets s1 + of_nat m,
                       uc_bytes := uc_bytes s1 + of_nat m * of_nat n,
                       uc_pacer := (uc_pacer s1)\<lparr>sent_sec := sent_sec (uc_pacer s1) + of_nat m\<rparr>\<rparr>
                  else s1)
        in s2\<lparr>uc_pacer := fst (pace pps (st_el st) (st_restart st) (uc_pacer s2)),
              uc_wire := uc_wire s2 @ take m bufs, uc_sent := uc_sent s2 @ [m]\<rparr>)"

fun udp_turns :: "nat \<Rightarrow> nat \<Rightarrow> u64 \<Rightarrow> send_turn list \<Rightarrow> udp_client_state \<Rightarrow> udp_client_state" where
  "udp_turns n deadline pps [] s = s"
| "udp_turns n deadline pps (st # sts) s =
     (if st_now st < deadline then udp_turns n deadline pps sts (udp_turn n pps st s) else s)"

text \<open>A client thread; \<open>ready\<close>: the socket could be bound and connected.\<close>

definition udp_stream :: "(nat \<Rightarrow> bool may_panic) \<Rightarrow> nat list \<Rightarrow> nat \<Rightarrow> bool \<Rightarrow> nat \<Rightarrow> nat \<Rightarrow> u64 \<Rightarrow> nat \<Rightarrow> send_turn list \<Rightarrow>
    udp_client_state option may_panic" where
  "udp_stream pin_cpu cpus t ready n deadline pps now sts =
     (case pin pin_cpu cpus t of Inl p \<Rightarrow> Inl p
      | Inr _ \<Rightarrow> Inr (if ready then Some (udp_turns n deadline pps sts (udp_start t n now)) else None))"

definition udp_client :: "(nat \<Rightarrow> bool may_panic) \<Rightarrow> nat list \<Rightarrow> nat \<Rightarrow> nat \<Rightarrow> u64 \<Rightarrow> nat \<Rightarrow> nat \<Rightarrow> (nat \<Rightarrow> bool) \<Rightarrow>
    (nat \<Rightarrow> send_turn list) \<Rightarrow> Summary may_panic" where
  "udp_client pin_cpu cpus threads len0 target_pps deadline now ready io =
     (let n = max len0 HDR in
      case pps_per target_pps (of_nat threads) of
        Inl p \<Rightarrow> Inl p
      | Inr pps \<Rightarrow>
          (case join_all (map (\<lambda>t. udp_stream pin_cpu cpus t (ready t) n deadline pps now (io t)) [0..<threads]) of
             Inl p \<Rightarrow> Inl p
           | Inr res \<Rightarrow>
               (let part = (\<lambda>f. sum_list (map (\<lambda>r. case r of Some s \<Rightarrow> f s | None \<Rightarrow> 0) res))
                in Inr \<lparr>s_bytes = part uc_bytes, s_packets = part uc_packets\<rparr>)))"

section \<open>UDP server\<close>

text \<open>A worker's variables; \<open>us_seen\<close> is a history variable.  The result of \<^verbatim>\<open>recvmmsg\<close> is the list of datagrams that arrived
  (none stands for a result that is not positive): datagram \<open>i\<close> goes to buffer \<open>i\<close>, cut to its size, and \<^verbatim>\<open>msg_len\<close> is
  what was written.\<close>

record udp_server_state =
  us_bufs :: "bytes list"
  us_last :: "u64 \<rightharpoonup> u64"
  us_counters :: Counters
  us_seen :: "(u64 \<times> u64) list"

definition us_start :: "nat \<Rightarrow> udp_server_state" where
  "us_start n = \<lparr>us_bufs = replicate BATCH (replicate (max n 2048) 0), us_last = Map.empty,
     us_counters = \<lparr>c_bytes = 0, c_packets = 0, c_drops = 0\<rparr>, us_seen = []\<rparr>"

definition recv_into :: "bytes \<Rightarrow> bytes \<Rightarrow> bytes \<times> nat" where
  "recv_into b m = (write_at 0 (take (length b) m) b, min (length b) (length m))"

definition us_message :: "bytes \<times> nat \<Rightarrow> udp_server_state \<Rightarrow> udp_server_state" where
  "us_message r s =
     (case r of (b, n) \<Rightarrow>
        let c = us_counters s;
            s1 = s\<lparr>us_counters := c\<lparr>c_bytes := c_bytes c + of_nat n, c_packets := c_packets c + 1\<rparr>\<rparr>
        in if n \<ge> HDR then
             (case note_seq (payload_ids b) (us_last s1, c_drops (us_counters s1)) of (last_seq, drops) \<Rightarrow>
                s1\<lparr>us_last := last_seq, us_counters := (us_counters s1)\<lparr>c_drops := drops\<rparr>,
                   us_seen := us_seen s1 @ [payload_ids b]\<rparr>)
           else s1)"

definition us_turn :: "bytes list \<Rightarrow> udp_server_state \<Rightarrow> udp_server_state" where
  "us_turn ms s =
     (if ms = [] then s
      else
        let rs = map2 recv_into (us_bufs s) ms
        in fold us_message rs (s\<lparr>us_bufs := map fst rs @ drop (length ms) (us_bufs s)\<rparr>))"

definition udp_server_worker :: "nat \<Rightarrow> bytes list list \<Rightarrow> udp_server_state" where
  "udp_server_worker n mss = fold us_turn mss (us_start n)"

definition udp_server :: "os \<Rightarrow> (string \<Rightarrow> string + SocketAddr list) \<Rightarrow> string \<Rightarrow> nat list \<Rightarrow> (io_error, int list) eio" where
  "udp_server os resolve a cpus = open_workers (reuseport_udp_socket os resolve a) (server_workers cpus) []"

text \<open>The thread of worker \<open>w\<close>.\<close>

definition udp_server_thread :: "(nat \<Rightarrow> bool may_panic) \<Rightarrow> nat list \<Rightarrow> nat \<Rightarrow> nat \<Rightarrow> bytes list list \<Rightarrow> udp_server_state may_panic" where
  "udp_server_thread pin_cpu cpus len0 w mss =
     (case pin pin_cpu cpus w of Inl p \<Rightarrow> Inl p | Inr _ \<Rightarrow> Inr (udp_server_worker (max len0 HDR) mss))"

section \<open>Reporter and sockets: properties\<close>

lemma reports_telescope:
  "sum_list (map rl_bytes (reports udp cs r)) = (if cs = [] then 0 else c_bytes (last cs) - last_b r)"
proof (induction cs arbitrary: r)
  case (Cons c cs)
  obtain r' l where t: "reporter_tick udp c r = (r', l)" by fastforce
  then have "last_b r' = c_bytes c" "rl_bytes l = c_bytes c - last_b r"
    by (auto simp: reporter_tick_def Let_def split: if_splits)
  with Cons [of r'] t show ?case by simp
qed simp

lemma reports_udp_telescope:
  "map rl_udp (reports True cs r) = map Some xs \<Longrightarrow> cs \<noteq> [] \<Longrightarrow>
     sum_list (map fst xs) = c_packets (last cs) - last_p r \<and> sum_list (map snd xs) = c_drops (last cs) - last_d r"
proof (induction cs arbitrary: r xs)
  case (Cons c cs)
  obtain r' l where t: "reporter_tick True c r = (r', l)" by fastforce
  then have r': "last_p r' = c_packets c" "last_d r' = c_drops c" "rl_udp l = Some (c_packets c - last_p r, c_drops c - last_d r)"
    by (auto simp: reporter_tick_def Let_def)
  obtain x xs' where xs: "xs = x # xs'" "rl_udp l = Some x" "map rl_udp (reports True cs r') = map Some xs'"
    using Cons.prems(1) t by (cases xs) auto
  show ?case
  proof (cases "cs = []")
    case True
    with xs r' show ?thesis by auto
  next
    case False
    from Cons.IH [OF xs(3) False] xs r' False show ?thesis by auto
  qed
qed simp

text \<open>The per-second reports leave nothing out and count nothing twice: the bytes, packets and drops of the intervals
  add up to the counters at the last report (in the counters' 64-bit arithmetic), and the seconds are numbered from one.\<close>

lemma reports_add_up:
  assumes "cs \<noteq> []" "length cs < 2 ^ 64"
  shows "sum_list (map rl_bytes (reports udp cs reporter_start)) = c_bytes (last cs) \<and>
    map (unat \<circ> rl_t) (reports udp cs reporter_start) = [1..<Suc (length cs)] \<and>
    (\<exists>xs. map rl_udp (reports True cs reporter_start) = map Some xs \<and>
       sum_list (map fst xs) = c_packets (last cs) \<and> sum_list (map snd xs) = c_drops (last cs))"
proof -
  have times: "unat (rep_t r) + length cs < 2 ^ 64 \<Longrightarrow>
      map (unat \<circ> rl_t) (reports udp cs r) = [Suc (unat (rep_t r))..<Suc (unat (rep_t r) + length cs)]" for cs and r
  proof (induction cs arbitrary: r)
    case (Cons c cs)
    obtain r' l where t: "reporter_tick udp c r = (r', l)" by fastforce
    have "unat (rep_t r + 1) = Suc (unat (rep_t r))" using Cons.prems by (subst unat_add_small) simp_all
    then have "unat (rep_t r') = Suc (unat (rep_t r))" "unat (rl_t l) = Suc (unat (rep_t r))"
      using t by (auto simp: reporter_tick_def Let_def split: if_splits)
    with Cons.IH [of r'] Cons.prems t show ?case by (simp add: upt_conv_Cons del: upt_Suc)
  qed simp
  have "\<exists>xs. map rl_udp (reports True cs r) = map Some xs" for cs r
  proof (induction cs arbitrary: r)
    case (Cons c cs)
    obtain r' l where t: "reporter_tick True c r = (r', l)" by fastforce
    then have "\<exists>x. rl_udp l = Some x" by (auto simp: reporter_tick_def Let_def)
    with Cons [of r'] t show ?case by (auto intro: exI [of _ "_ # _"])
  qed simp
  then obtain xs where "map rl_udp (reports True cs reporter_start) = map Some xs" by blast
  with reports_udp_telescope [OF this assms(1)] reports_telescope [of udp cs reporter_start] times [of reporter_start cs] assms
  show ?thesis by (auto simp: reporter_start_def)
qed

text \<open>The address as the kernel reads it: port and octets in network order, whatever the host's.\<close>

lemma sockaddr_v4_bytes:
  assumes "sockaddr_v4 resolve a = Inr sa"
  shows "\<exists>ip port. first_v4 (case resolve a of Inr l \<Rightarrow> l | Inl _ \<Rightarrow> []) = Some (ip, port) \<and> sin_family sa = 2 \<and>
    [lo_byte (sin_port sa), hi_byte (sin_port sa)] = [hi_byte port, lo_byte port] \<and>
    map (\<lambda>i. ucast (drop_bit (8 * i) (sin_addr sa))) [0..<4] = octets ip"
proof -
  obtain l ip port where l: "resolve a = Inr l" "first_v4 l = Some (ip, port)"
    "sa = \<lparr>sin_family = 2, sin_port = to_be16 port, sin_addr = from_ne_bytes (octets ip)\<rparr>"
    using assms by (auto simp: sockaddr_v4_def PF_INET_def split: sum.splits option.splits)
  have "lo_byte (to_be16 port) = hi_byte port" "hi_byte (to_be16 port) = lo_byte port"
    by (auto intro!: bit_word_eqI simp: to_be16_def hi_byte_def lo_byte_def from_be_bytes_def bit_simps bit_beyond_word)
  moreover have "map (\<lambda>i. ucast (drop_bit (8 * i) (from_ne_bytes (octets ip)))) [0..<4] = octets ip"
  proof (cases ip)
    case (Ipv4 x1 x2 x3 x4)
    have "(ucast (from_ne_bytes [x1, x2, x3, x4]) :: u8) = x1"
      "(ucast (drop_bit 8 (from_ne_bytes [x1, x2, x3, x4])) :: u8) = x2"
      "(ucast (drop_bit 16 (from_ne_bytes [x1, x2, x3, x4])) :: u8) = x3"
      "(ucast (drop_bit 24 (from_ne_bytes [x1, x2, x3, x4])) :: u8) = x4"
      by (auto intro!: bit_word_eqI simp: from_ne_bytes_def bit_simps bit_beyond_word)
    then show ?thesis by (simp add: Ipv4 upt_rec)
  qed
  ultimately show ?thesis using l by simp
qed

lemma set_opt_int_fds [simp]: "open_fds (set_opt_int os fd level opt v tr) = open_fds tr"
  by (simp add: set_opt_int_def sys_setsockopt_def Let_def)

lemma reuseport_tcp_fds:
  assumes "reuseport_tcp_listener os resolve a tr = (tr', r)"
  shows "open_fds tr' = (case r of Inl _ \<Rightarrow> open_fds tr | Inr fd \<Rightarrow> add_mset fd (open_fds tr))"
  using assms
  by (auto simp: reuseport_tcp_listener_def sys_socket_def sys_bind_def sys_listen_def sys_close_def Let_def
      split: sum.splits if_splits)

lemma reuseport_udp_fds:
  assumes "reuseport_udp_socket os resolve a tr = (tr', r)"
  shows "open_fds tr' = (case r of Inl _ \<Rightarrow> open_fds tr | Inr fd \<Rightarrow> add_mset fd (open_fds tr))"
  using assms
  by (auto simp: reuseport_udp_socket_def sys_socket_def sys_bind_def sys_close_def Let_def
      split: sum.splits if_splits)

text \<open>A constructor of sockets that leaves nothing behind when it fails.\<close>

locale socket_maker =
  fixes mk :: "(io_error, int) eio"
  assumes mk_fds: "mk tr = (tr', r) \<Longrightarrow>
    open_fds tr' = (case r of Inl _ \<Rightarrow> open_fds tr | Inr fd \<Rightarrow> add_mset fd (open_fds tr))"
begin

lemma open_workers_fds:
  "open_workers mk n fds tr = (tr', r) \<Longrightarrow>
     \<exists>M. open_fds tr' = open_fds tr + M \<and>
       (case r of Inl _ \<Rightarrow> size M < n | Inr fds' \<Rightarrow> mset fds' = mset fds + M \<and> size M = n)"
proof (induction n arbitrary: fds tr)
  case 0
  then show ?case by (auto simp: retE_def)
next
  case (Suc n)
  obtain tr1 r1 where one: "mk tr = (tr1, r1)" by fastforce
  show ?case
  proof (cases r1)
    case (Inl e)
    with Suc.prems one mk_fds [OF one] show ?thesis by (intro exI [of _ "{#}"]) (auto simp: bindE_def)
  next
    case (Inr fd)
    with Suc.prems one have "open_workers mk n (fds @ [fd]) tr1 = (tr', r)" by (simp add: bindE_def)
    from Suc.IH [OF this] obtain M where "open_fds tr' = open_fds tr1 + M"
      "case r of Inl _ \<Rightarrow> size M < n | Inr fds' \<Rightarrow> mset fds' = mset (fds @ [fd]) + M \<and> size M = n" by blast
    with mk_fds [OF one] Inr show ?thesis
      by (intro exI [of _ "add_mset fd M"]) (auto split: sum.splits)
  qed
qed

end

interpretation tcp_maker: socket_maker "reuseport_tcp_listener os resolve a" for os resolve a
  by unfold_locales (rule reuseport_tcp_fds)

interpretation udp_maker: socket_maker "reuseport_udp_socket os resolve a" for os resolve a
  by unfold_locales (rule reuseport_udp_fds)

text \<open>C25. Opening the server's sockets: a failed attempt closes its own descriptor, for the TCP listener and for the UDP
  socket; a server that starts holds exactly one descriptor per worker, at least one; a server that fails holds fewer
  than that.\<close>

theorem server_descriptors:
  assumes "(tcp_server os resolve a cpus tr = (tr', r)) \<or> (udp_server os resolve a cpus tr = (tr', r))"
  shows "\<exists>M. open_fds tr' = open_fds tr + M \<and>
    (case r of Inl _ \<Rightarrow> size M < max (length cpus) 1 | Inr fds \<Rightarrow> M = mset fds \<and> length fds = max (length cpus) 1)"
proof -
  have "\<exists>M. open_fds tr' = open_fds tr + M \<and>
      (case r of Inl _ \<Rightarrow> size M < server_workers cpus | Inr fds \<Rightarrow> mset fds = mset [] + M \<and> size M = server_workers cpus)"
    using assms tcp_maker.open_workers_fds [of os resolve a "server_workers cpus" "[]" tr tr' r]
      udp_maker.open_workers_fds [of os resolve a "server_workers cpus" "[]" tr tr' r]
    by (auto simp: tcp_server_def udp_server_def)
  then show ?thesis
    by (auto simp: server_workers_def split: sum.splits)
qed


text \<open>An operating system that grants everything, for the sockets of this theory.\<close>

definition easy_os :: os where
  "easy_os = \<lparr>os_pagesize = 4096, os_socket = (\<lambda>tr _ _. int (length tr) + 3), os_setsockopt = (\<lambda>_ _ _ _ _. 0),
     os_get_offsets = (\<lambda>_ _. None), os_mmap = (\<lambda>_ _ _ _. None), os_bind = (\<lambda>_ _ _. 0), os_listen = (\<lambda>_ _ _. 0),
     os_last_error = (\<lambda>_. []), os_addr_cells = (\<lambda>_ _ _. (0, 0, 0, [])), os_desc_cells = (\<lambda>_ _ _. (0, 0, 0, []))\<rparr>"

theorem server_descriptors_witness:
  "\<exists>tr' fds. tcp_server easy_os (\<lambda>_. Inr [SockV6, SockV4 (Ipv4 0 0 0 0) 5201]) ''any:5201'' [0, 1] [] = (tr', Inr fds) \<and>
     length fds = 2 \<and> open_fds tr' = mset fds"
proof -
  let ?r = "\<lambda>_. Inr [SockV6, SockV4 (Ipv4 0 0 0 0) 5201] :: string + SocketAddr list"
  have "\<exists>fds. snd (tcp_server easy_os ?r ''any:5201'' [0, 1] []) = Inr fds"
    by (simp add: tcp_server_def server_workers_def numeral_2_eq_2 bindE_def retE_def reuseport_tcp_listener_def sockaddr_v4_def
        sys_socket_def sys_bind_def sys_listen_def set_opt_int_def easy_os_def Let_def)
  then obtain tr' fds where run: "tcp_server easy_os ?r ''any:5201'' [0, 1] [] = (tr', Inr fds)"
    by (metis prod.collapse)
  from server_descriptors [OF disjI1 [OF run]] run show ?thesis by (auto simp: open_fds_def)
qed

section \<open>TCP: properties\<close>

text \<open>The transfers that count: up to the first error, end of stream or, for the writer, the deadline.\<close>

definition transferred :: "io_count list \<Rightarrow> nat" where
  "transferred rs = sum_list (map the (takeWhile (\<lambda>r. r \<noteq> None \<and> r \<noteq> Some 0) rs))"

lemma tcp_reader_transferred: "tcp_reader rs b = b + of_nat (transferred rs)"
  by (induction rs b rule: tcp_reader.induct) (simp_all add: transferred_def add.assoc)

lemma tcp_writer_transferred:
  "tcp_writer deadline rs b = b + of_nat (transferred (map snd (takeWhile (\<lambda>r. fst r < deadline) rs)))"
  by (induction deadline rs b rule: tcp_writer.induct) (auto simp: transferred_def add.assoc split: option.splits)

lemma round_robin_count:
  assumes "0 < n" "i < n"
  shows "length (filter (\<lambda>k. k mod n = i) [0..<N]) = N div n + (if i < N mod n then 1 else 0)"
proof (induction N)
  case (Suc N)
  have "N mod n < n" using assms by simp
  then show ?case using Suc assms by (auto simp: mod_Suc div_Suc)
qed simp

lemma tcp_accepts_numbers:
  "unat q + length evs < 2 ^ 64 \<Longrightarrow>
     map (unat \<circ> snd) (tcp_accepts evs q) = [unat q..<unat q + length (tcp_accepts evs q)] \<and>
     length (tcp_accepts evs q) \<le> length evs \<and> map fst (tcp_accepts evs q) = List.map_filter snd evs"
proof (induction evs q rule: tcp_accepts.induct)
  case (2 w evs q)
  then show ?case by (simp add: List.map_filter_simps)
next
  case (3 w s evs q)
  have q: "unat (q + 1) = Suc (unat q)" using "3.prems" by (subst unat_add_small) simp_all
  let ?m = "length (tcp_accepts evs (q + 1))"
  have "unat q # [unat (q + 1)..<unat (q + 1) + ?m] = [unat q..<unat q + Suc ?m]"
    unfolding q by (simp add: upt_conv_Cons del: upt_Suc)
  with 3 q show ?case by (simp add: List.map_filter_simps del: upt_Suc)
qed (simp add: List.map_filter_simps)

lemma join_all_map_Inr: "join_all (map (\<lambda>x. Inr (f x)) xs) = Inr (map f xs)"
  by (induction xs) simp_all

lemma join_all_Inl: "join_all rs = Inl p \<Longrightarrow> Inl p \<in> set rs"
  by (induction rs rule: join_all.induct) (auto split: sum.splits)

lemma join_all_panics: "Inl p \<in> set rs \<Longrightarrow> \<exists>p'. join_all rs = Inl p'"
  by (induction rs rule: join_all.induct) (auto split: sum.splits)

lemma pin_round_robin:
  assumes "cpus \<noteq> []" "\<forall>c \<in> set cpus. pin_cpu c = Inr True"
  shows "pin pin_cpu cpus i = Inr (Some (cpus ! (i mod length cpus)))"
  using assms by (simp add: pin_def Let_def)

text \<open>C31. The TCP server spreads its readers evenly, whichever listeners the connections come in on: every accepted
  connection gets a reader thread that counts what it reads, and with \<open>n\<close> different CPUs that threads can be bound to, the
  number of reader threads bound to the \<open>i\<close>-th CPU of the list is the number of connections divided by \<open>n\<close>, with the
  remainder on the first CPUs.\<close>

theorem tcp_readers_balanced:
  assumes "length evs < 2 ^ 64" "distinct cpus" "i < length cpus" "\<forall>c \<in> set cpus. pin_cpu c = Inr True"
  shows "\<exists>ths. tcp_readers pin_cpu cpus evs = Inr ths \<and>
    map snd ths = map (\<lambda>rs. of_nat (transferred rs)) (List.map_filter snd evs) \<and>
    length (filter (\<lambda>th. fst th = Some (cpus ! i)) ths) =
      length ths div length cpus + (if i < length ths mod length cpus then 1 else 0)"
proof -
  let ?n = "length cpus" and ?acc = "tcp_accepts evs 0"
  have ne: "cpus \<noteq> []" using assms(3) by auto
  define ths where "ths = map (\<lambda>(rs, q). (Some (cpus ! (unat q mod ?n)), of_nat (transferred rs) :: u64)) ?acc"
  have run: "tcp_readers pin_cpu cpus evs = Inr ths"
    unfolding tcp_readers_def ths_def join_all_map_Inr [symmetric]
    by (intro arg_cong [where f = join_all] map_cong refl)
      (simp add: tcp_connection_def pin_round_robin [OF ne assms(4)] tcp_reader_transferred split: prod.splits)
  note acc = tcp_accepts_numbers [of 0 evs]
  have "map fst ?acc = List.map_filter snd evs" using acc assms(1) by simp
  moreover have "map snd ths = map (\<lambda>rs. of_nat (transferred rs)) (map fst ?acc)" by (simp add: ths_def case_prod_unfold)
  moreover have "length (filter (\<lambda>th. fst th = Some (cpus ! i)) ths) =
      length ths div ?n + (if i < length ths mod ?n then 1 else 0)"
  proof -
    have "cpus ! (k mod ?n) = cpus ! i \<longleftrightarrow> k mod ?n = i" for k
      using assms(2,3) ne by (intro nth_eq_iff_index_eq) simp_all
    then have "length (filter (\<lambda>th. fst th = Some (cpus ! i)) ths) = length (filter (\<lambda>k. k mod ?n = i) (map (unat \<circ> snd) ?acc))"
      by (simp add: ths_def filter_map o_def case_prod_unfold)
    also have "\<dots> = length (filter (\<lambda>k. k mod ?n = i) [0..<length ths])"
      using acc assms(1) by (simp only: ths_def length_map) simp
    also have "\<dots> = length ths div ?n + (if i < length ths mod ?n then 1 else 0)"
      using round_robin_count [OF _ assms(3)] ne by simp
    finally show ?thesis .
  qed
  ultimately show ?thesis using run by metis
qed

theorem tcp_readers_balanced_witness:
  "\<exists>ths. tcp_readers (\<lambda>_. Inr True) [4, 6] [(1, Some [Some 5, Some 0]), (1, None), (1, Some []), (1, Some [Some 7])] = Inr ths \<and>
     map snd ths = [5, 0, 7] \<and> length (filter (\<lambda>th. fst th = Some 4) ths) = 2"
proof -
  let ?evs = "[(1, Some [Some 5, Some 0]), (1, None), (1, Some []), (1, Some [Some 7])] :: (nat \<times> io_count list option) list"
  have prem: "length ?evs < 2 ^ 64" "distinct [4::nat, 6]" "0 < length [4::nat, 6]" "\<forall>c \<in> set [4::nat, 6]. Inr True = (Inr True :: bool may_panic)"
    by simp_all
  obtain ths where ths: "tcp_readers (\<lambda>_. Inr True) [4, 6] ?evs = Inr ths"
    "map snd ths = map (\<lambda>rs. of_nat (transferred rs)) (List.map_filter snd ?evs)"
    "length (filter (\<lambda>th. fst th = Some ([4, 6] ! 0)) ths) = length ths div length [4::nat, 6] + (if 0 < length ths mod length [4::nat, 6] then 1 else 0)"
    using tcp_readers_balanced [OF prem] by (elim exE conjE) (rule that)
  have bytes: "map snd ths = [5, 0, 7]" unfolding ths(2) by (simp add: List.map_filter_simps transferred_def)
  have len: "length ths = 3" using arg_cong [OF bytes, where f = length] unfolding length_map by simp
  have "length (filter (\<lambda>th. fst th = Some 4) ths) = 2" using ths(3) unfolding len by (simp add: div_Suc mod_Suc numeral_3_eq_3 numeral_2_eq_2)
  from ths(1) bytes this show ?thesis by (intro exI conjI)
qed

text \<open>C32. The summary of the TCP client.  When no thread panics in pinning itself (a CPU number beyond the size of the kernel's set),
  the byte counter is exactly what the streams transferred before their first error, their end or the deadline, added up
  over the client's threads; a thread that cannot connect adds nothing.  When a thread panics, the process ends and
  there is no summary.\<close>

theorem tcp_client_bytes:
  "((\<forall>t < threads. \<exists>c. pin pin_cpu cpus t = Inr c) \<longrightarrow>
      tcp_client pin_cpu cpus threads deadline conn io = Inr
        \<lparr>s_bytes = of_nat (\<Sum>t \<in> {t. t < threads \<and> conn t}. transferred (map snd (takeWhile (\<lambda>r. fst r < deadline) (io t)))),
         s_packets = 0\<rparr>) \<and>
   ((\<exists>t < threads. \<exists>p. pin pin_cpu cpus t = Inl p) \<longrightarrow>
      (\<exists>t p. t < threads \<and> pin pin_cpu cpus t = Inl p \<and> tcp_client pin_cpu cpus threads deadline conn io = Inl p))"
proof (intro conjI impI)
  let ?f = "\<lambda>t. if conn t then transferred (map snd (takeWhile (\<lambda>r. fst r < deadline) (io t))) else 0"
  let ?run = "map (\<lambda>t. tcp_stream pin_cpu cpus t (conn t) deadline (io t)) [0..<threads]"
  {
    assume pins: "\<forall>t < threads. \<exists>c. pin pin_cpu cpus t = Inr c"
    have "?run = map (\<lambda>t. Inr (of_nat (?f t))) [0..<threads]"
      using pins by (intro map_cong refl) (auto simp: tcp_stream_def tcp_writer_transferred split: sum.splits)
    then have "join_all ?run = Inr (map (\<lambda>t. of_nat (?f t)) [0..<threads])" by (simp only: join_all_map_Inr)
    moreover have "(\<Sum>t \<leftarrow> [0..<threads]. of_nat (?f t) :: u64) = of_nat (\<Sum>t \<leftarrow> [0..<threads]. ?f t)"
      by (induction threads) simp_all
    moreover have "(\<Sum>t \<leftarrow> [0..<threads]. ?f t) = (\<Sum>t \<in> {0..<threads}. ?f t)"
      by (simp add: interv_sum_list_conv_sum_set_nat)
    moreover have "\<dots> = (\<Sum>t \<in> {t. t < threads \<and> conn t}. transferred (map snd (takeWhile (\<lambda>r. fst r < deadline) (io t))))"
      by (rule sum.mono_neutral_cong_right) auto
    ultimately show "tcp_client pin_cpu cpus threads deadline conn io = Inr
        \<lparr>s_bytes = of_nat (\<Sum>t \<in> {t. t < threads \<and> conn t}. transferred (map snd (takeWhile (\<lambda>r. fst r < deadline) (io t)))),
         s_packets = 0\<rparr>"
      by (simp add: tcp_client_def)
  }
  assume "\<exists>t < threads. \<exists>p. pin pin_cpu cpus t = Inl p"
  then obtain t p where "t < threads" "pin pin_cpu cpus t = Inl p" by blast
  then have "Inl p \<in> set ?run" by (auto simp: tcp_stream_def image_iff intro!: bexI [of _ t])
  from join_all_panics [OF this] obtain p' where p': "join_all ?run = Inl p'" by blast
  from join_all_Inl [OF this] obtain t' where "t' < threads" "pin pin_cpu cpus t' = Inl p'"
    by (auto simp: tcp_stream_def split: sum.splits)
  with p' show "\<exists>t p. t < threads \<and> pin pin_cpu cpus t = Inl p \<and> tcp_client pin_cpu cpus threads deadline conn io = Inl p"
    by (auto simp: tcp_client_def)
qed

theorem tcp_client_bytes_witness:
  "tcp_client (\<lambda>_. Inr True) [4, 6] 2 10 (\<lambda>t. t = 1) (\<lambda>_. [(1, Some 100), (2, Some 50), (11, Some 7)]) = Inr \<lparr>s_bytes = 150, s_packets = 0\<rparr> \<and>
   tcp_client (\<lambda>c. if c < 1024 then Inr True else Inl IndexOutOfBounds) [4, 5000] 2 10 (\<lambda>_. True) (\<lambda>_. [(1, Some 100)]) = Inl IndexOutOfBounds"
proof -
  have "{t. t < 2 \<and> t = (1::nat)} = {1}" by auto
  then have one: "tcp_client (\<lambda>_. Inr True) [4, 6] 2 10 (\<lambda>t. t = 1) (\<lambda>_. [(1, Some 100), (2, Some 50), (11, Some 7)]) = Inr \<lparr>s_bytes = 150, s_packets = 0\<rparr>"
    using conjunct1 [OF tcp_client_bytes [of 2 "\<lambda>_. Inr True" "[4, 6]" 10 "\<lambda>t. t = 1" "\<lambda>_. [(1, Some 100), (2, Some 50), (11, Some 7)]"]]
    by (simp add: pin_def Let_def transferred_def)
  let ?pin = "\<lambda>c. if c < 1024 then Inr True else Inl IndexOutOfBounds"
  have "pin ?pin [4, 5000] 1 = Inl IndexOutOfBounds" "pin ?pin [4, 5000] 0 = Inr (Some 4)" by (simp_all add: pin_def)
  moreover have "t < 2 \<Longrightarrow> t = 0 \<or> t = 1" for t :: nat by linarith
  ultimately have "tcp_client ?pin [4, 5000] 2 10 (\<lambda>_. True) (\<lambda>_. [(1, Some 100)]) = Inl IndexOutOfBounds"
    using conjunct2 [OF tcp_client_bytes [of 2 ?pin "[4, 5000]" 10 "\<lambda>_. True" "\<lambda>_. [(1, Some 100)]"]] by fastforce
  with one show ?thesis by blast
qed


section \<open>UDP client: properties\<close>

definition buf_ok :: "nat \<Rightarrow> nat \<Rightarrow> bytes \<Rightarrow> bool" where
  "buf_ok t n b \<longleftrightarrow> length b = n \<and> 16 \<le> n \<and> take 8 b = to_le_bytes (of_nat t) \<and> drop 16 b = replicate (n - 16) 0"

lemma buf_stamp:
  assumes "buf_ok t n b"
  shows "write_at 8 (to_le_bytes q) b = stamped t n q" "buf_ok t n (stamped t n q)"
  using assms by (simp_all add: buf_ok_def write_at_def stamped_def)

lemma stamp_bufs_eq:
  assumes "list_all (buf_ok t n) bs"
  shows "stamp_bufs q bs = (map (\<lambda>j. stamped t n (q + of_nat j)) [0..<length bs], q + of_nat (length bs))"
  using assms
proof (induction bs arbitrary: q)
  case (Cons b bs)
  have "map (\<lambda>j. stamped t n (q + of_nat j)) [0..<Suc (length bs)] =
      stamped t n q # map (\<lambda>j. stamped t n (q + 1 + of_nat j)) [0..<length bs]"
    by (simp add: upt_conv_Cons map_Suc_upt [symmetric] add.assoc o_def del: upt_Suc)
  with Cons show ?case by (simp add: buf_stamp(1) del: upt_Suc)
qed simp

text \<open>What \<^verbatim>\<open>sendmmsg\<close> may return: an error, or at most the number of messages.\<close>

definition rets_ok :: "send_turn list \<Rightarrow> bool" where
  "rets_ok sts = list_all (\<lambda>st. st_ret st \<le> int BATCH) sts"

definition udp_executed :: "nat \<Rightarrow> send_turn list \<Rightarrow> send_turn list" where
  "udp_executed deadline = takeWhile (\<lambda>st. st_now st < deadline)"

definition udp_ticks :: "send_turn list \<Rightarrow> tick list" where
  "udp_ticks sts = map (\<lambda>st. \<lparr>tk_now = st_now st, tk_sent = nat (st_ret st), tk_el = st_el st, tk_restart = st_restart st\<rparr>) sts"

text \<open>The sequence numbers on the wire: each turn takes \<^verbatim>\<open>BATCH\<close> numbers and sends the first ones.\<close>

fun batch_seqs :: "u64 \<Rightarrow> nat list \<Rightarrow> u64 list" where
  "batch_seqs q [] = []"
| "batch_seqs q (m # ms) = map (\<lambda>j. q + of_nat j) [0..<m] @ batch_seqs (q + of_nat BATCH) ms"

definition client_ok :: "nat \<Rightarrow> nat \<Rightarrow> udp_client_state \<Rightarrow> bool" where
  "client_ok t n s \<longleftrightarrow> length (uc_bufs s) = BATCH \<and> list_all (buf_ok t n) (uc_bufs s)"

lemma udp_turn_spec:
  assumes "client_ok t n s" "st_ret st \<le> int BATCH"
  shows "client_ok t n (udp_turn n pps st s) \<and>
    uc_seq (udp_turn n pps st s) = uc_seq s + of_nat BATCH \<and>
    uc_wire (udp_turn n pps st s) = uc_wire s @ map (\<lambda>j. stamped t n (uc_seq s + of_nat j)) [0..<nat (st_ret st)] \<and>
    uc_packets (udp_turn n pps st s) = uc_packets s + of_nat (nat (st_ret st)) \<and>
    uc_bytes (udp_turn n pps st s) = uc_bytes s + of_nat (nat (st_ret st)) * of_nat n \<and>
    uc_sent (udp_turn n pps st s) = uc_sent s @ [nat (st_ret st)] \<and>
    uc_pacer (udp_turn n pps st s) = paced_turn pps
      \<lparr>tk_now = st_now st, tk_sent = nat (st_ret st), tk_el = st_el st, tk_restart = st_restart st\<rparr> (uc_pacer s)"
proof -
  have bufs: "stamp_bufs (uc_seq s) (uc_bufs s) =
      (map (\<lambda>j. stamped t n (uc_seq s + of_nat j)) [0..<BATCH], uc_seq s + of_nat BATCH)"
    using assms(1) stamp_bufs_eq [of t n "uc_bufs s" "uc_seq s"] by (simp add: client_ok_def)
  have n16: "buf_ok t n (hd (uc_bufs s))"
    using assms(1) by (cases "uc_bufs s") (auto simp: client_ok_def BATCH_def)
  have "take (nat (st_ret st)) [0..<BATCH] = [0..<nat (st_ret st)]" using assms(2) by (simp add: min_def)
  then show ?thesis
    using buf_stamp(2) [OF n16]
    by (auto simp: udp_turn_def bufs Let_def client_ok_def list_all_iff paced_turn_def take_map)
qed

lemma udp_turns_spec:
  assumes "client_ok t n s" "rets_ok sts"
  shows "let s' = udp_turns n deadline pps sts s; ms = map (\<lambda>st. nat (st_ret st)) (udp_executed deadline sts) in
    client_ok t n s' \<and> uc_wire s' = uc_wire s @ map (stamped t n) (batch_seqs (uc_seq s) ms) \<and>
    uc_packets s' = uc_packets s + of_nat (sum_list ms) \<and>
    uc_bytes s' = uc_bytes s + of_nat (sum_list ms) * of_nat n \<and>
    uc_seq s' = uc_seq s + of_nat (BATCH * length ms) \<and>
    paced pps deadline (udp_ticks (udp_executed deadline sts)) (uc_pacer s) 0 = (uc_pacer s', sum_list ms)"
  using assms
proof (induction sts arbitrary: s)
  case (Cons st sts)
  show ?case
  proof (cases "st_now st < deadline")
    case True
    have "st_ret st \<le> int BATCH" "rets_ok sts" using Cons.prems(2) by (simp_all add: rets_ok_def)
    note one = udp_turn_spec [OF Cons.prems(1) this(1), of pps]
    show ?thesis
      using True one Cons.IH [OF _ \<open>rets_ok sts\<close>, of "udp_turn n pps st s"]
        paced_shift [of pps deadline "udp_ticks (udp_executed deadline sts)" "uc_pacer (udp_turn n pps st s)" "nat (st_ret st)"]
      by (simp add: Let_def udp_executed_def udp_ticks_def algebra_simps o_def)
  next
    case False
    then show ?thesis using Cons.prems by (simp add: udp_executed_def udp_ticks_def)
  qed
qed (simp add: udp_executed_def udp_ticks_def)

lemma udp_start_ok: "16 \<le> n \<Longrightarrow> client_ok t n (udp_start t n now)"
  by (simp add: client_ok_def udp_start_def buf_ok_def write_at_def list_all_iff)


lemma udp_start_fields [simp]:
  "uc_wire (udp_start t n now) = []" "uc_packets (udp_start t n now) = 0" "uc_bytes (udp_start t n now) = 0"
  "uc_seq (udp_start t n now) = 0" "uc_pacer (udp_start t n now) = \<lparr>sent_sec = 0, sec_start = now\<rparr>"
  by (simp_all add: udp_start_def)

text \<open>C9. A UDP client thread, whatever \<^verbatim>\<open>sendmmsg\<close> returns: its packet counter is the number of datagrams sent and its byte
  counter that many payloads; every datagram carries the thread's number and its sequence number, and in turn \<open>i\<close>
  the numbers are \<open>64 i, 64 i + 1, \<dots>\<close>, as many as were sent.  So a short send leaves a gap for the receiver.\<close>

theorem udp_client_wire:
  assumes "16 \<le> n" "rets_ok sts"
  shows "let s = udp_turns n deadline pps sts (udp_start t n now);
             ms = map (\<lambda>st. nat (st_ret st)) (udp_executed deadline sts) in
    uc_wire s = map (stamped t n) (concat (map (\<lambda>(i, m). map (\<lambda>j. of_nat (64 * i + j)) [0..<m]) (enumerate 0 ms))) \<and>
    uc_packets s = of_nat (length (uc_wire s)) \<and> uc_bytes s = uc_packets s * of_nat n"
proof -
  have seqs: "batch_seqs (of_nat (64 * k)) ms =
      concat (map (\<lambda>(i, m). map (\<lambda>j. of_nat (64 * i + j)) [0..<m]) (enumerate k ms))" for k ms
  proof (induction ms arbitrary: k)
    case (Cons m ms)
    have "(of_nat (64 * k) :: u64) + of_nat BATCH = of_nat (64 * Suc k)" by (simp add: BATCH_def)
    then show ?case using Cons [of "Suc k"] by (simp only: batch_seqs.simps enumerate_simps list.map concat.simps prod.case of_nat_add)
  qed simp
  have len: "length (batch_seqs q ms) = sum_list ms" for q ms
    by (induction ms arbitrary: q) simp_all
  show ?thesis
    using udp_turns_spec [OF udp_start_ok [OF assms(1), of t now] assms(2), where deadline = deadline and pps = pps] seqs [of 0] len [of 0]
    by (simp add: Let_def)
qed

theorem udp_client_wire_witness:
  "uc_wire (udp_turns 16 10 0 [\<lparr>st_now = 1, st_ret = 1, st_el = 1, st_restart = 1\<rparr>, \<lparr>st_now = 2, st_ret = 2, st_el = 2, st_restart = 2\<rparr>]
     (udp_start 3 16 0)) = [stamped 3 16 0, stamped 3 16 64, stamped 3 16 65]"
  using udp_client_wire [of 16 "[\<lparr>st_now = 1, st_ret = 1, st_el = 1, st_restart = 1\<rparr>, \<lparr>st_now = 2, st_ret = 2, st_el = 2, st_restart = 2\<rparr>]"
      10 0 3 0]
  by (simp add: Let_def rets_ok_def BATCH_def udp_executed_def upt_rec)



text \<open>Asking for a rate with no threads makes the UDP client panic with a division by zero, before any thread starts.\<close>

lemma udp_client_zero_threads:
  assumes "target_pps \<noteq> 0"
  shows "udp_client pin_cpu cpus 0 n target_pps deadline now ready io = Inl DivisionByZero"
  using assms by (simp add: udp_client_def pps_per_def)

section \<open>UDP server: properties\<close>

definition server_inv :: "nat \<Rightarrow> bytes list \<Rightarrow> udp_server_state \<Rightarrow> bool" where
  "server_inv sz msgs s \<longleftrightarrow>
     length (us_bufs s) = BATCH \<and> list_all (\<lambda>b. length b = sz) (us_bufs s) \<and>
     c_packets (us_counters s) = of_nat (length msgs) \<and>
     c_bytes (us_counters s) = of_nat (sum_list (map (\<lambda>m. min sz (length m)) msgs)) \<and>
     us_seen s = map payload_ids (filter (\<lambda>m. 16 \<le> length m) msgs) \<and>
     note_all (us_seen s) (Map.empty, 0) = (us_last s, c_drops (us_counters s))"

lemma recv_into_spec:
  assumes "16 \<le> length b" "recv_into b m = (b', k)"
  shows "length b' = length b" "k = min (length b) (length m)" "16 \<le> length m \<Longrightarrow> payload_ids b' = payload_ids m"
proof -
  have b': "b' = take (length b) m @ drop (length (take (length b) m)) b" "k = min (length b) (length m)"
    using assms(2) by (simp_all add: recv_into_def write_at_def)
  then show "length b' = length b" "k = min (length b) (length m)" by simp_all
  assume "16 \<le> length m"
  then have "subslice 0 8 b' = subslice 0 8 m" "subslice 8 16 b' = subslice 8 16 m"
    using assms(1) by (auto simp: b' subslice_def drop_take min_def)
  then show "payload_ids b' = payload_ids m" by (simp add: payload_ids_def)
qed

lemma us_message_inv:
  assumes "server_inv sz msgs s" "16 \<le> sz" "length b = sz"
  shows "server_inv sz (msgs @ [m]) (us_message (recv_into b m) s)"
    "us_bufs (us_message (recv_into b m) s) = us_bufs s"
proof -
  obtain b' k where r: "recv_into b m = (b', k)" by fastforce
  have sp: "k = min sz (length m)" "16 \<le> length m \<Longrightarrow> payload_ids b' = payload_ids m"
    using recv_into_spec [of b m b' k] r assms by simp_all
  have k16: "HDR \<le> k \<longleftrightarrow> 16 \<le> length m" using sp(1) assms(2) by (auto simp: HDR_def)
  show "server_inv sz (msgs @ [m]) (us_message (recv_into b m) s)"
    using assms(1) sp k16
    by (auto simp: r server_inv_def us_message_def Let_def note_all_snoc split: prod.splits)
  show "us_bufs (us_message (recv_into b m) s) = us_bufs s"
    by (simp add: r us_message_def Let_def split: prod.splits)
qed

lemma us_messages_inv:
  assumes "server_inv sz msgs s" "16 \<le> sz" "list_all (\<lambda>b. length b = sz) bs" "length ms \<le> length bs"
  shows "server_inv sz (msgs @ ms) (fold us_message (map2 recv_into bs ms) s)"
  using assms
proof (induction ms arbitrary: msgs s bs)
  case (Cons m ms)
  obtain b bs' where bs: "bs = b # bs'" using Cons.prems(4) by (cases bs) auto
  have "server_inv sz (msgs @ [m]) (us_message (recv_into b m) s)"
    using us_message_inv(1) [OF Cons.prems(1,2)] Cons.prems(3) by (simp add: bs)
  from Cons.IH [OF this] Cons.prems bs show ?case by simp
qed simp

lemma us_turn_inv:
  assumes "server_inv sz msgs s" "16 \<le> sz" "length ms \<le> BATCH"
  shows "server_inv sz (msgs @ ms) (us_turn ms s)"
proof (cases "ms = []")
  case True
  then show ?thesis using assms(1) by (simp add: us_turn_def)
next
  case False
  let ?rs = "map2 recv_into (us_bufs s) ms"
  let ?s = "s\<lparr>us_bufs := map fst ?rs @ drop (length ms) (us_bufs s)\<rparr>"
  have bufs: "length (us_bufs s) = BATCH" "list_all (\<lambda>b. length b = sz) (us_bufs s)"
    using assms(1) by (simp_all add: server_inv_def)
  have "length (fst (recv_into b m)) = sz" if "length b = sz" for b m
    using that assms(2) recv_into_spec(1) [of b m] by (metis prod.collapse)
  then have "list_all (\<lambda>b. length b = sz) (map fst ?rs @ drop (length ms) (us_bufs s))"
    using bufs(2) by (auto simp: list_all_iff dest: set_zip_leftD in_set_dropD)
  then have "server_inv sz msgs ?s"
    using assms(1,3) bufs unfolding server_inv_def by auto
  from us_messages_inv [OF this assms(2) bufs(2), of ms] assms(3) bufs(1) False show ?thesis
    by (simp add: us_turn_def Let_def)
qed

lemma us_start_inv: "server_inv (max n 2048) [] (us_start n)"
  by (simp add: server_inv_def us_start_def note_all_def list_all_iff)

lemma udp_server_worker_inv:
  assumes "list_all (\<lambda>ms. length ms \<le> BATCH) mss"
  shows "server_inv (max n 2048) (concat mss) (udp_server_worker n mss)"
proof -
  have "server_inv (max n 2048) (msgs @ concat mss) (fold us_turn mss s)" if "server_inv (max n 2048) msgs s" for msgs s
    using assms that
  proof (induction mss arbitrary: msgs s)
    case (Cons ms mss)
    have "server_inv (max n 2048) (msgs @ ms) (us_turn ms s)"
      using us_turn_inv [OF Cons.prems(2)] Cons.prems(1) by simp
    from Cons.IH [OF _ this] Cons.prems show ?case by simp
  qed simp
  from this [OF us_start_inv] show ?thesis by (simp add: udp_server_worker_def)
qed

text \<open>C8. A UDP server worker, however the datagrams are split into batches: it counts every datagram, and its bytes up to the
  buffer size; it reads stream and sequence number of every datagram of at least 16 bytes and of no other; and
  when each stream arrives in order, the drops are exactly the missing numbers.\<close>

theorem udp_server_exact:
  assumes "list_all (\<lambda>ms. length ms \<le> 64) mss"
  shows "let s = udp_server_worker n mss; seen = map payload_ids (filter (\<lambda>m. 16 \<le> length m) (concat mss)) in
    c_packets (us_counters s) = of_nat (length (concat mss)) \<and>
    c_bytes (us_counters s) = of_nat (sum_list (map (\<lambda>m. min (max n 2048) (length m)) (concat mss))) \<and>
    (in_order seen \<longrightarrow> c_drops (us_counters s) = of_nat (\<Sum>i \<in> fst ` set seen. card (missing (stream i seen))))"
proof -
  have inv: "server_inv (max n 2048) (concat mss) (udp_server_worker n mss)"
    using assms by (intro udp_server_worker_inv) (simp add: BATCH_def)
  show ?thesis
    using inv note_all_drops [of "us_seen (udp_server_worker n mss)" 0]
    unfolding server_inv_def Let_def lost_def by auto
qed

theorem udp_server_exact_witness:
  "c_drops (us_counters (udp_server_worker 1400 [[stamped 1 16 0], [stamped 1 16 2, [7]]])) = 1"
proof -
  have ids: "payload_ids (stamped (Suc 0) 16 q) = (1, q)" for q using payload_ids_stamped [of 1 16 q "[]"] by simp
  let ?mss = "[[stamped 1 16 0], [stamped 1 16 2, [7]]]"
  have seen: "map payload_ids (filter (\<lambda>m. 16 \<le> length m) (concat ?mss)) = [(1, 0), (1, 2)]"
    by (simp add: ids)
  have "in_order [(1, 0), (1, 2)]" by (simp add: in_order_def stream_def)
  moreover have "missing [0, 2] = {1}" by (auto simp: missing_def)
  ultimately show ?thesis
    using udp_server_exact [of ?mss 1400, unfolded Let_def seen] by (simp add: stream_def)
qed


section \<open>Client and server together\<close>

fun nat_batches :: "nat \<Rightarrow> nat list \<Rightarrow> nat list" where
  "nat_batches q [] = []"
| "nat_batches q (m # ms) = [q..<q + m] @ nat_batches (q + BATCH) ms"

lemma nat_batches_range:
  assumes "list_all (\<lambda>m. m \<le> BATCH) ms"
  shows "sorted_wrt (<) (nat_batches q ms) \<and> (\<forall>x \<in> set (nat_batches q ms). q \<le> x \<and> x < q + BATCH * length ms)"
  using assms
proof (induction ms arbitrary: q)
  case (Cons m ms)
  have rest: "q + BATCH \<le> x" "x < q + BATCH + BATCH * length ms" if "x \<in> set (nat_batches (q + BATCH) ms)" for x
    using that Cons.IH [of "q + BATCH"] Cons.prems by auto
  have "q \<le> x \<and> x < q + BATCH * length (m # ms)" if "x \<in> set (nat_batches q (m # ms))" for x
    using that Cons.prems rest [of x] by auto
  moreover have "sorted_wrt (<) (nat_batches q (m # ms))"
    using Cons.IH [of "q + BATCH"] Cons.prems by (fastforce simp: sorted_wrt_append dest: rest)
  ultimately show ?case by blast
qed simp

lemma batch_seqs_nat:
  assumes "list_all (\<lambda>m. m \<le> BATCH) ms" "unat q + BATCH * length ms < 2 ^ 64"
  shows "map unat (batch_seqs q ms) = nat_batches (unat q) ms"
  using assms
proof (induction ms arbitrary: q)
  case (Cons m ms)
  have add: "unat (q + of_nat j) = unat q + j" if "j \<le> BATCH" for j
    using Cons.prems(2) that by (subst unat_add_small) (simp_all add: unat_of_nat_small)
  have "map unat (map (\<lambda>j. q + of_nat j) [0..<m]) = [unat q..<unat q + m]"
    using Cons.prems(1) by (intro nth_equalityI) (simp_all add: add)
  moreover have "map unat (batch_seqs (q + of_nat BATCH) ms) = nat_batches (unat q + BATCH) ms"
    using Cons.IH [of "q + of_nat BATCH"] Cons.prems by (simp add: add)
  ultimately show ?case by simp
qed simp

lemma length_nat_batches: "length (nat_batches q ms) = sum_list ms"
  by (induction ms arbitrary: q) simp_all

lemma nat_batches_full: "(\<And>m. m \<in> set ms \<Longrightarrow> m = BATCH) \<Longrightarrow> nat_batches q ms = [q..<q + BATCH * length ms]"
proof (induction ms arbitrary: q)
  case (Cons m ms)
  then have "m = BATCH" by simp
  with Cons show ?case using upt_add_eq_append [of q "q + BATCH" "BATCH * length ms"] by (simp add: add.assoc)
qed simp

lemma map_unat_upt:
  assumes "map unat qs = [0..<k]" "qs \<noteq> []"
  shows "unat (hd qs) = 0 \<and> unat (last qs) + 1 = length qs"
proof -
  have len: "length qs = k" using arg_cong [OF assms(1), of length] by simp
  have nth: "unat (qs ! i) = i" if "i < k" for i
    using arg_cong [OF assms(1), of "\<lambda>xs. xs ! i"] that len by simp
  have "0 < k" using len assms(2) by auto
  then show ?thesis using nth [of 0] nth [of "k - 1"] len assms(2) by (simp add: hd_conv_nth last_conv_nth)
qed

text \<open>C34. A lossless network between one client thread and a server worker: if the worker receives every datagram of the thread,
  in order and in whatever batches, it counts exactly the client's packets, and its loss counter is the number of
  sequence numbers between the first and the last that the client itself did not send.  So it is zero when every
  \<^verbatim>\<open>sendmmsg\<close> took the whole batch, while the part of a batch that the client's own kernel refused is reported as loss
  on the network as soon as a later datagram goes out.\<close>

theorem udp_lossless_delivery:
  assumes "16 \<le> n" "rets_ok sts" "64 * length sts < 2 ^ 64"
    and "s = udp_turns n deadline pps sts (udp_start t n now)" "uc_wire s \<noteq> []"
    and "list_all (\<lambda>ms. length ms \<le> 64) mss" "concat mss = uc_wire s" "r = udp_server_worker n mss"
  shows "c_packets (us_counters r) = uc_packets s \<and> c_bytes (us_counters r) = uc_bytes s \<and>
    (\<exists>qs. uc_wire s = map (stamped t n) qs \<and> sorted_wrt (<) (map unat qs) \<and>
       c_drops (us_counters r) = of_nat (unat (last qs) - unat (hd qs) + 1 - length qs)) \<and>
    ((\<forall>st \<in> set (udp_executed deadline sts). st_ret st = 64) \<longrightarrow> c_drops (us_counters r) = 0)"
proof -
  define ms where "ms = map (\<lambda>st. nat (st_ret st)) (udp_executed deadline sts)"
  define qs where "qs = batch_seqs 0 ms"
  have run: "uc_wire s = map (stamped t n) qs" "uc_packets s = of_nat (sum_list ms)"
    "uc_bytes s = of_nat (sum_list ms) * of_nat n"
    using udp_turns_spec [OF udp_start_ok [OF assms(1), of t now] assms(2), where deadline = deadline and pps = pps]
    by (simp_all add: assms(4) ms_def qs_def Let_def)
  have le: "list_all (\<lambda>m. m \<le> BATCH) ms"
    using assms(2) by (auto simp: ms_def udp_executed_def rets_ok_def list_all_iff dest!: set_takeWhileD)
  have "length ms \<le> length sts" by (simp add: ms_def udp_executed_def length_takeWhile_le)
  then have nat: "map unat qs = nat_batches 0 ms"
    unfolding qs_def using batch_seqs_nat [OF le, of 0] assms(3) by (simp add: BATCH_def)
  have sorted: "sorted_wrt (<) (map unat qs)" using nat_batches_range [OF le, of 0] by (simp add: nat)
  have len: "length qs = sum_list ms" using arg_cong [OF nat, of length] by (simp add: length_nat_batches)
  have qs: "qs \<noteq> []" using assms(5) run(1) by auto
  have inv: "server_inv (max n 2048) (uc_wire s) r"
    using udp_server_worker_inv [of mss n] assms(6-8) by (simp add: BATCH_def)
  have seen: "us_seen r = map (Pair (of_nat t)) qs"
    using inv assms(1) payload_ids_stamped [of t n _ "[]"] unfolding server_inv_def run(1) by (simp add: filter_map o_def)
  have drops: "c_drops (us_counters r) = of_nat (unat (last qs) - unat (hd qs) + 1 - length qs)"
  proof -
    have "note_all (us_seen r) (Map.empty, 0) = (us_last r, c_drops (us_counters r))"
      using inv unfolding server_inv_def by blast
    then show ?thesis using single_stream_drops [OF sorted qs, of "of_nat t" 0] by (simp add: seen)
  qed
  have counts: "c_packets (us_counters r) = uc_packets s" "c_bytes (us_counters r) = uc_bytes s"
    using inv assms(1) len unfolding server_inv_def run by (simp_all add: o_def sum_list_triv)
  have "c_drops (us_counters r) = 0" if full: "\<forall>st \<in> set (udp_executed deadline sts). st_ret st = 64"
  proof -
    have "map unat qs = [0..<BATCH * length ms]"
      unfolding nat using nat_batches_full [of ms 0] full by (auto simp: ms_def BATCH_def)
    from map_unat_upt [OF this qs] show ?thesis by (simp add: drops)
  qed
  then show ?thesis using counts drops sorted run(1) by (intro conjI exI [of _ qs] impI)
qed


theorem udp_lossless_delivery_witness:
  "c_packets (us_counters (udp_server_worker 16 [[stamped 3 16 0, stamped 3 16 64], [stamped 3 16 65]])) = 3 \<and>
   c_drops (us_counters (udp_server_worker 16 [[stamped 3 16 0, stamped 3 16 64], [stamped 3 16 65]])) = 63"
proof -
  let ?sts = "[\<lparr>st_now = 1, st_ret = 1, st_el = 1, st_restart = 1\<rparr>, \<lparr>st_now = 2, st_ret = 2, st_el = 2, st_restart = 2\<rparr>]"
  define s where "s = udp_turns 16 10 0 ?sts (udp_start 3 16 0)"
  let ?mss = "[[stamped 3 16 0, stamped 3 16 64], [stamped 3 16 65]]"
  have ok: "rets_ok ?sts" by (simp add: rets_ok_def BATCH_def)
  have run: "uc_wire s = [stamped 3 16 0, stamped 3 16 64, stamped 3 16 65]" "uc_packets s = 3"
    using udp_turns_spec [OF udp_start_ok [of 16 3 0] ok, where deadline = 10 and pps = 0]
    by (simp_all add: s_def Let_def udp_executed_def upt_rec BATCH_def)
  have ids: "payload_ids (stamped 3 16 q) = (3, q)" for q using payload_ids_stamped [of 3 16 q "[]"] by simp
  have prem: "(16::nat) \<le> 16" "64 * length ?sts < 2 ^ 64" "uc_wire s \<noteq> []" "list_all (\<lambda>ms. length ms \<le> 64) ?mss" "concat ?mss = uc_wire s"
    by (simp_all add: run)
  note all = udp_lossless_delivery [OF prem(1) ok prem(2) s_def prem(3-5) refl]
  obtain qs where qs: "uc_wire s = map (stamped 3 16) qs"
      "c_drops (us_counters (udp_server_worker 16 ?mss)) = of_nat (unat (last qs) - unat (hd qs) + 1 - length qs)"
    using all by (elim exE conjE) (rule that)
  moreover have "c_packets (us_counters (udp_server_worker 16 ?mss)) = 3" using conjunct1 [OF all] unfolding run .
  moreover have "qs = [0, 64, 65]"
    using arg_cong [OF qs(1), of "map (snd \<circ> payload_ids)"] unfolding run by (simp add: ids o_def)
  ultimately show ?thesis by simp
qed

end
