(* ===== verification/Cli.thy ===== *)
theory Cli
  imports Net_Engine Iface
begin

text \<open>
  The command line, \<^verbatim>\<open>src/main.rs\<close>: option parsing, the memory guard, the choice of the engine with its
  arguments, and the summary.  \<^verbatim>\<open>main\<close> is modelled up to the call of an engine (\<open>main_plan\<close>), which the other
  theories model, and after it (\<open>print_summary\<close>, \<open>blast_summary\<close>, \<open>sink_summary\<close>, \<open>exit_code\<close>).  Files, affinity mask
  and the build's features are a parameter; floating-point numbers come in formatted.  The theorems:
  option values, the address syntax, there is always a CPU to run on, what the memory guard
  guarantees and where it does not.
\<close>

section \<open>Options\<close>

fun flag :: "string list \<Rightarrow> string \<Rightarrow> string option" where
  "flag [] name = None"
| "flag (a # as) name = (if a = name then (case as of [] \<Rightarrow> None | v # _ \<Rightarrow> Some v) else flag as name)"

definition has :: "string list \<Rightarrow> string \<Rightarrow> bool" where
  "has args name \<longleftrightarrow> list_ex (\<lambda>a. a = name) args"

text \<open>\<^verbatim>\<open>flag(..).and_then(|s| s.parse().ok()).unwrap_or(d)\<close> for a 64-bit number.\<close>

definition num_flag :: "string list \<Rightarrow> string \<Rightarrow> u64 \<Rightarrow> u64" where
  "num_flag args name d =
     (case Option.bind (flag args name) parse_u64 of Some n \<Rightarrow> of_nat n | None \<Rightarrow> d)"

text \<open>\<^verbatim>\<open>SocketAddrV4::from_str\<close>: four decimal octets of at most three digits and without leading zeros, a colon, a
  decimal port.\<close>

definition parse_octet :: "string \<Rightarrow> u8 option" where
  "parse_octet s =
     (if s = [] \<or> length s > 3 \<or> (length s > 1 \<and> hd s = CHR ''0'') then None
      else (case digits_value 10 0 s of Some v \<Rightarrow> if v < 256 then Some (of_nat v) else None | None \<Rightarrow> None))"

definition parse_port :: "string \<Rightarrow> u16 option" where
  "parse_port s =
     (if s = [] then None
      else (case digits_value 10 0 s of Some v \<Rightarrow> if v < 65536 then Some (of_nat v) else None | None \<Rightarrow> None))"

definition parse_sockaddr_v4 :: "string \<Rightarrow> (Ipv4Addr \<times> u16) option" where
  "parse_sockaddr_v4 s =
     (case split_on CHR '':'' s of
        [ip, port] \<Rightarrow>
          (case map parse_octet (split_on CHR ''.'' ip) of
             [Some a, Some b, Some c, Some d] \<Rightarrow> map_option (Pair (Ipv4 a b c d)) (parse_port port)
           | _ \<Rightarrow> None)
      | _ \<Rightarrow> None)"

section \<open>The memory guard\<close>

fun meminfo_scan :: "string list \<Rightarrow> u64 option" where
  "meminfo_scan [] = None"
| "meminfo_scan (line # rest) =
     (case strip_prefix ''MemAvailable:'' line of
        Some r \<Rightarrow>
          (case split_whitespace r of
             [] \<Rightarrow> None
           | w # _ \<Rightarrow> map_option (\<lambda>kb. of_nat kb * 1024) (parse_u64 w))
      | None \<Rightarrow> meminfo_scan rest)"

definition mem_available_bytes :: "string option \<Rightarrow> u64 option" where
  "mem_available_bytes meminfo = (case meminfo of None \<Rightarrow> None | Some s \<Rightarrow> meminfo_scan (lines s))"

definition oom_cap :: "string option \<Rightarrow> u64" where
  "oom_cap meminfo = (case mem_available_bytes meminfo of Some m \<Rightarrow> m div 4 | None \<Rightarrow> push_bit 30 1)"

text \<open>Whether the program goes on.\<close>

definition oom_guard :: "string option \<Rightarrow> u64 \<Rightarrow> bool" where
  "oom_guard meminfo planned \<longleftrightarrow> \<not> planned > oom_cap meminfo"

section \<open>Choosing an engine\<close>

record cli_host =
  ch_meminfo :: "string option"
  ch_read_file :: "string \<Rightarrow> string option"
  ch_affinity :: "(nat \<Rightarrow> bool) option"
  ch_xdp :: bool

datatype plan =
    Usage
  | Version
  | Fail string
  | RunSink string u64 "nat list"
  | RunUdpServer string u64 "nat list"
  | RunTcpServer string "nat list"
  | RunBlast string Ipv4Addr u16 u64 u64 u64 "nat list" bool
  | RunUdpClient string u64 u64 u64 u64 "nat list" bool
  | RunTcpClient string u64 u64 "nat list" bool

definition main_cpus :: "cli_host \<Rightarrow> string list \<Rightarrow> nat list" where
  "main_cpus h args =
     (let explicit = resolve_cpus (ch_read_file h) (flag args ''--cpus'') (Option.bind (flag args ''--numa'') parse_usize)
      in if explicit = [] then online_cpus (ch_affinity h) else explicit)"

definition server_plan :: "cli_host \<Rightarrow> string list \<Rightarrow> plan" where
  "server_plan h args =
     (let udp = has args ''--udp''; n = num_flag args ''--len'' 1400; cpus = main_cpus h args;
          bind = (case flag args ''--bind'' of Some b \<Rightarrow> b | None \<Rightarrow> ''0.0.0.0:5201'') in
      if has args ''--xdp'' then
        (if ch_xdp h then
           (case flag args ''--iface'' of None \<Rightarrow> Usage
            | Some iface \<Rightarrow> RunSink iface (num_flag args ''--duration'' 3600) cpus)
         else Fail ''--xdp sink requires a build with --features xdp'')
      else if udp \<and> \<not> oom_guard (ch_meminfo h) (64 * max n 2048) then Fail ''oom''
      else if udp then RunUdpServer bind n cpus
      else RunTcpServer bind cpus)"

definition planned_bytes :: "bool \<Rightarrow> u64 \<Rightarrow> u64 \<Rightarrow> u64" where
  "planned_bytes udp threads n = (if udp then threads * 64 * n else threads * 256 * 1024)"

definition client_plan :: "cli_host \<Rightarrow> string list \<Rightarrow> plan" where
  "client_plan h args =
     (let udp = has args ''--udp''; n = num_flag args ''--len'' 1400; cpus = main_cpus h args in
      case flag args ''--connect'' of None \<Rightarrow> Usage
      | Some connect \<Rightarrow>
         (let duration = num_flag args ''--duration'' 10;
              threads = num_flag args ''--threads'' (if udp then of_nat (length cpus) else 1);
              target_pps = num_flag args ''--target-pps'' 0;
              json = has args ''--json'' in
          if has args ''--xdp'' then
            (case flag args ''--iface'' of None \<Rightarrow> Usage
             | Some iface \<Rightarrow>
                (case parse_sockaddr_v4 connect of None \<Rightarrow> Fail ''--xdp --connect needs IPv4 HOST:PORT''
                 | Some (ip, port) \<Rightarrow> RunBlast iface ip port n duration target_pps cpus json))
          else if \<not> oom_guard (ch_meminfo h) (planned_bytes udp threads n) then Fail ''oom''
          else if udp then RunUdpClient connect threads duration n target_pps cpus json
          else RunTcpClient connect threads duration cpus json))"

definition main_plan :: "cli_host \<Rightarrow> string list \<Rightarrow> plan" where
  "main_plan h args =
     (if args = [] then Usage
      else if list_ex (\<lambda>a. a = ''--version'' \<or> a = ''-V'') args then Version
      else if list_ex (\<lambda>a. a = ''--help'' \<or> a = ''-h'') args then Usage
      else if hd args = ''server'' then server_plan h args
      else if hd args = ''client'' then client_plan h args
      else Usage)"

section \<open>After the engine\<close>

text \<open>The summary.  \<open>secs\<close>, \<open>gbps3\<close>, \<open>gbps4\<close> and \<open>mpps4\<close> are the formatted floating-point numbers; \<open>Rule\<close> is the line of
  box-drawing characters.\<close>

datatype out_line = Rule | Line string

definition print_summary :: "string \<Rightarrow> string \<Rightarrow> string \<Rightarrow> string \<Rightarrow> Summary \<Rightarrow> bool \<Rightarrow> bool \<Rightarrow> out_line list" where
  "print_summary secs gbps3 gbps4 mpps4 s udp json =
     (let q = CHR 0x22; num = (\<lambda>w :: u64. show_nat (unat w));
          key = (\<lambda>k. [q] @ k @ [q] @ '':'')
      in if json then
           (if udp then
              [Line (''{'' @ key ''proto'' @ [q] @ ''udp'' @ [q] @ '','' @ key ''seconds'' @ secs @ '','' @ key ''bytes'' @ num (s_bytes s) @
                 '','' @ key ''packets'' @ num (s_packets s) @ '','' @ key ''gbps'' @ gbps4 @ '','' @ key ''mpps'' @ mpps4 @ ''}'')]
            else
              [Line (''{'' @ key ''proto'' @ [q] @ ''tcp'' @ [q] @ '','' @ key ''seconds'' @ secs @ '','' @ key ''bytes'' @ num (s_bytes s) @
                 '','' @ key ''gbps'' @ gbps4 @ ''}'')])
         else if udp then
           [Rule, Line (''UDP  '' @ secs @ '' s  |  '' @ gbps3 @ '' Gb/s  |  '' @ mpps4 @ '' Mpps  |  '' @ num (s_packets s) @ '' packets''),
            Line ''(loss is reported by the server via sequence gaps)'', Rule]
         else
           [Rule, Line (''TCP  '' @ secs @ '' s  |  '' @ gbps3 @ '' Gb/s  |  '' @ num (s_bytes s) @ '' bytes''), Rule])"

text \<open>The summaries of the AF_XDP engines.\<close>

definition blast_summary :: "string \<Rightarrow> string \<Rightarrow> string \<Rightarrow> string \<Rightarrow> u64 \<Rightarrow> u64 \<Rightarrow> bool \<Rightarrow> out_line list" where
  "blast_summary secs gbps3 gbps4 mpps4 b p json =
     (let q = CHR 0x22; num = (\<lambda>w :: u64. show_nat (unat w)); key = (\<lambda>k. [q] @ k @ [q] @ '':'')
      in if json then
           [Line (''{'' @ key ''proto'' @ [q] @ ''xdp-udp'' @ [q] @ '','' @ key ''seconds'' @ secs @ '','' @ key ''bytes'' @ num b @
              '','' @ key ''packets'' @ num p @ '','' @ key ''gbps'' @ gbps4 @ '','' @ key ''mpps'' @ mpps4 @ ''}'')]
         else
           [Rule, Line (''AF_XDP  '' @ secs @ '' s  |  '' @ gbps3 @ '' Gb/s  |  '' @ mpps4 @ '' Mpps  |  '' @ num p @ '' frames''), Rule])"

definition sink_summary :: "string \<Rightarrow> string \<Rightarrow> u64 \<Rightarrow> out_line list" where
  "sink_summary mpps4 loss3 p =
     [Line (''AF_XDP sink: '' @ show_nat (unat p) @ '' frames | '' @ mpps4 @ '' Mpps | loss '' @ loss3 @ ''%'')]"

text \<open>The exit code: \<open>ok\<close> tells whether the engine returned without an error.\<close>

definition exit_code :: "plan \<Rightarrow> bool \<Rightarrow> nat" where
  "exit_code p ok = (case p of Usage \<Rightarrow> 2 | Version \<Rightarrow> 0 | Fail _ \<Rightarrow> 1 | _ \<Rightarrow> if ok then 0 else 1)"

section \<open>Properties\<close>

text \<open>An option's value is the argument after its first occurrence.\<close>

lemma flag_spec: "flag args name = (case dropWhile (\<lambda>a. a \<noteq> name) args of _ # v # _ \<Rightarrow> Some v | _ \<Rightarrow> None)"
  by (induction args) (auto split: list.splits)

lemma parse_octet_show: "parse_octet (show_nat (unat (b :: u8))) = Some b"
proof -
  define n where "n = unat b"
  have n: "n < 256" unfolding n_def by simp
  have len: "length (show_nat k) = (if k < 10 then 1 else if k < 100 then 2 else 3)" if "k < 1000" for k
    using that by (simp add: show_radix.simps [of 10 k] show_radix.simps [of 10 "k div 10"] show_radix.simps [of 10 "k div 10 div 10"]) linarith
  have hd: "hd (show_nat k) \<noteq> CHR ''0''" if "0 < k" "k < 1000" for k
  proof -
    have "of_char (hd (show_nat k)) \<noteq> (48 :: nat)"
      using that by (simp add: show_radix.simps [of 10 k] show_radix.simps [of 10 "k div 10"] show_radix.simps [of 10 "k div 10 div 10"]
          of_digit_char) linarith
    then show ?thesis by auto
  qed
  have "length (show_nat n) > 1 \<Longrightarrow> hd (show_nat n) \<noteq> CHR ''0''"
    using len [of n] hd [of n] n by (cases "n = 0") auto
  then have "parse_octet (show_nat n) = Some (of_nat n)"
    using len [of n] n digits_value_show_radix [of 10 n] by (auto simp: parse_octet_def)
  then show ?thesis by (simp add: n_def)
qed

lemma parse_port_show: "parse_port (show_nat (unat (p :: u16))) = Some p"
  using digits_value_show_radix [of 10 "unat p"] unat_u16_lt [of p] by (simp add: parse_port_def)

lemma show_nat_no_char: "c \<in> {CHR '':'', CHR ''.''} \<Longrightarrow> c \<notin> set (show_nat n)"
  using show_radix_digits [of 10 c n] is_digit_char_not_punct [of c] by auto

text \<open>An address printed and parsed again.\<close>

lemma parse_sockaddr_v4_show: "parse_sockaddr_v4 (show_ipv4 ip @ '':'' @ show_nat (unat port)) = Some (ip, port)"
proof (cases ip)
  case (Ipv4 x1 x2 x3 x4)
  have "CHR '':'' \<notin> set (show_ipv4 ip)" using show_nat_no_char by (auto simp: Ipv4)
  then have "split_on CHR '':'' (show_ipv4 ip @ CHR '':'' # show_nat (unat port)) = [show_ipv4 ip, show_nat (unat port)]"
    using show_nat_no_char by (simp add: split_on_append split_on_no_sep)
  then show ?thesis
    using split_show_ipv4 [of x1 x2 x3 x4] by (simp add: parse_sockaddr_v4_def Ipv4 parse_octet_show parse_port_show)
qed

lemma main_cpus_not_Nil: "main_cpus h args \<noteq> []"
  by (simp add: main_cpus_def online_cpus_def Let_def)

text \<open>What the UDP client allocates for its packets: the buffers that its threads start with.\<close>

definition udp_buffer_bytes :: "nat \<Rightarrow> nat \<Rightarrow> nat" where
  "udp_buffer_bytes threads len0 = (\<Sum>t \<leftarrow> [0..<threads]. sum_list (map length (uc_bufs (udp_start t (max len0 HDR) 0))))"

lemma udp_buffer_bytes_eq: "udp_buffer_bytes threads len0 = threads * 64 * max len0 16"
  by (simp add: udp_buffer_bytes_def udp_start_def BATCH_def HDR_def sum_list_replicate sum_list_triv)

lemma unat_planned: "unat (planned_bytes True threads n) = (unat threads * 64 * unat n) mod 2 ^ 64"
  by (simp add: planned_bytes_def unat_word_ariths mod_mult_left_eq mod_mult_right_eq)

lemma unat_oom_cap:
  "unat (oom_cap meminfo) = (case mem_available_bytes meminfo of Some m \<Rightarrow> unat m div 4 | None \<Rightarrow> 2 ^ 30)"
  by (simp add: oom_cap_def unat_div_distrib split: option.splits)

lemma oom_guard_udp: "oom_guard meminfo (planned_bytes True threads n) \<longleftrightarrow> (unat threads * 64 * unat n) mod 2 ^ 64 \<le> unat (oom_cap meminfo)"
  by (simp only: oom_guard_def not_less word_le_nat_alt unat_planned)

text \<open>C35. The memory guard of the UDP client.  When the program goes on and the product does not exceed 64 bits, the buffers that the
  client's threads really allocate are at most a quarter of the available memory (1 GiB when that is unknown), plus the
  bytes that the guard does not see: the client pads packets shorter than 16 bytes, the guard counts them as given.  So
  for \<^verbatim>\<open>--len\<close> of at least 16 the limit is kept.\<close>

theorem oom_guard_client:
  assumes "main_plan h args = RunUdpClient connect threads duration n pps cpus json"
    and "unat threads * 64 * unat n < 2 ^ 64"
  shows "let cap = (case mem_available_bytes (ch_meminfo h) of Some m \<Rightarrow> unat m div 4 | None \<Rightarrow> 2 ^ 30);
             alloc = udp_buffer_bytes (unat threads) (unat n)
         in unat threads * 64 * unat n \<le> cap \<and> alloc \<le> cap + unat threads * 64 * (16 - unat n) \<and> (16 \<le> unat n \<longrightarrow> alloc \<le> cap)"
proof -
  have "oom_guard (ch_meminfo h) (planned_bytes True threads n)"
    using assms(1)
    by (auto simp: main_plan_def server_plan_def client_plan_def Let_def split: if_splits option.splits)
  then have cap: "unat threads * 64 * unat n \<le> unat (oom_cap (ch_meminfo h))"
    unfolding oom_guard_udp mod_less [OF assms(2)] .
  have "udp_buffer_bytes (unat threads) (unat n) = unat threads * 64 * unat n + unat threads * 64 * (16 - unat n)"
    by (simp add: udp_buffer_bytes_eq max_def flip: add_mult_distrib2)
  with cap show ?thesis unfolding Let_def unat_oom_cap [symmetric] by auto
qed


lemma demo_client_plan:
  "main_plan h [''client'', ''--connect'', ''a:1'', ''--udp'', ''--threads'', ''4'', ''--len'', ''1400''] =
     (if oom_guard (ch_meminfo h) 358400
      then RunUdpClient ''a:1'' 4 10 1400 0
        (main_cpus h [''client'', ''--connect'', ''a:1'', ''--udp'', ''--threads'', ''4'', ''--len'', ''1400'']) False
      else Fail ''oom'')"
  by (simp add: main_plan_def client_plan_def has_def num_flag_def planned_bytes_def Let_def
      from_str_radix_def to_digit_def)

theorem oom_guard_client_witness:
  "udp_buffer_bytes (unat (4 :: u64)) (unat (1400 :: u64)) \<le> 2 ^ 30"
proof -
  let ?h = "\<lparr>ch_meminfo = None, ch_read_file = \<lambda>_. None, ch_affinity = None, ch_xdp = False\<rparr>"
  have "oom_guard (ch_meminfo ?h) 358400" by (simp add: oom_guard_def oom_cap_def mem_available_bytes_def)
  then have "main_plan ?h [''client'', ''--connect'', ''a:1'', ''--udp'', ''--threads'', ''4'', ''--len'', ''1400''] =
      RunUdpClient ''a:1'' 4 10 1400 0
        (main_cpus ?h [''client'', ''--connect'', ''a:1'', ''--udp'', ''--threads'', ''4'', ''--len'', ''1400'']) False"
    using demo_client_plan [of ?h] by simp
  from oom_guard_client [OF this] show ?thesis by (simp add: mem_available_bytes_def Let_def)
qed

text \<open>C37. Exactly when the guard stops the UDP client, over all its command lines: the planned size is taken modulo \<open>2\<^sup>6\<^sup>4\<close>, and only
  that remainder is compared with the limit.  So a combination of \<^verbatim>\<open>--threads\<close> and \<^verbatim>\<open>--len\<close> whose buffers add up to a
  multiple of \<open>2\<^sup>6\<^sup>4\<close> bytes is let through on every host, however little memory it has, against the promise of the
  guard's comment to stop absurd combinations.\<close>

theorem oom_guard_overflow:
  assumes "args \<noteq> []" "hd args = ''client''" "set args \<inter> {''--version'', ''-V'', ''--help'', ''-h'', ''--xdp''} = {}"
    and "''--udp'' \<in> set args" "flag args ''--connect'' = Some connect"
    and "threads = num_flag args ''--threads'' (of_nat (length (main_cpus h args)))" "n = num_flag args ''--len'' 1400"
    and "go = RunUdpClient connect threads (num_flag args ''--duration'' 10) n (num_flag args ''--target-pps'' 0)
           (main_cpus h args) (has args ''--json'')"
  shows "main_plan h args =
      (if (unat threads * 64 * unat n) mod 2 ^ 64 \<le> unat (oom_cap (ch_meminfo h)) then go else Fail ''oom'') \<and>
    (2 ^ 64 dvd unat threads * 64 * unat n \<longrightarrow> main_plan h args = go)"
proof -
  have "main_plan h args = client_plan h args"
    using assms(1-3) by (auto simp: main_plan_def list_ex_iff)
  moreover have "has args ''--udp''" "\<not> has args ''--xdp''"
    using assms(3,4) by (auto simp: has_def list_ex_iff)
  ultimately have "main_plan h args =
      (if (unat threads * 64 * unat n) mod 2 ^ 64 \<le> unat (oom_cap (ch_meminfo h)) then go else Fail ''oom'')"
    using assms(5) unfolding oom_guard_udp [symmetric] assms(6-8) by (simp add: client_plan_def Let_def)
  then show ?thesis by (simp add: dvd_imp_mod_0)
qed

theorem oom_guard_overflow_witness:
  "\<forall>h. \<exists>cpus. main_plan h [''client'', ''--connect'', ''a:1'', ''--udp'', ''--threads'', ''4294967296'', ''--len'', ''67108864''] =
     RunUdpClient ''a:1'' 4294967296 10 67108864 0 cpus False"
proof
  fix h
  let ?args = "[''client'', ''--connect'', ''a:1'', ''--udp'', ''--threads'', ''4294967296'', ''--len'', ''67108864'']"
  have num: "num_flag ?args ''--threads'' (of_nat (length (main_cpus h ?args))) = 4294967296" "num_flag ?args ''--len'' 1400 = 67108864"
    "num_flag ?args ''--duration'' 10 = 10" "num_flag ?args ''--target-pps'' 0 = 0"
    by (simp_all add: num_flag_def from_str_radix_def to_digit_def)
  have prem: "?args \<noteq> []" "hd ?args = ''client''" "set ?args \<inter> {''--version'', ''-V'', ''--help'', ''-h'', ''--xdp''} = {}"
    "''--udp'' \<in> set ?args" "flag ?args ''--connect'' = Some ''a:1''" by simp_all
  have "(2::nat) ^ 64 dvd unat (4294967296 :: u64) * 64 * unat (67108864 :: u64)" by simp
  then have "main_plan h ?args = RunUdpClient ''a:1'' 4294967296 10 67108864 0 (main_cpus h ?args) (has ?args ''--json'')"
    using conjunct2 [OF oom_guard_overflow [OF prem refl refl refl, of h]] unfolding num by (rule rev_mp)
  moreover have "\<not> has ?args ''--json''" by (simp add: has_def)
  ultimately show "\<exists>cpus. main_plan h ?args = RunUdpClient ''a:1'' 4294967296 10 67108864 0 cpus False" by auto
qed

text \<open>The server's guard looks at one worker's buffers, whatever the number of workers: with 1 MiB available and three CPUs the
  server starts, with 384 KiB of buffers against a limit of 256 KiB.\<close>

definition small_host :: cli_host where
  "small_host = \<lparr>ch_meminfo = Some ''MemAvailable: 1024 kB'', ch_read_file = \<lambda>_. None, ch_affinity = None, ch_xdp = False\<rparr>"

lemma small_host_cap: "oom_cap (ch_meminfo small_host) = 262144"
proof -
  have "lines ''MemAvailable: 1024 kB'' = [''MemAvailable: 1024 kB'']"
    by (simp add: lines_def split_on_def newline_def)
  then show ?thesis
    by (simp add: oom_cap_def mem_available_bytes_def small_host_def strip_prefix_def split_whitespace_def
        is_whitespace_def from_str_radix_def to_digit_def)
qed

lemma server_guard_one_worker:
  "main_plan small_host [''server'', ''--udp'', ''--cpus'', ''0-2''] = RunUdpServer ''0.0.0.0:5201'' 1400 [0, 1, 2] \<and>
   unat (oom_cap (ch_meminfo small_host)) < length [0::nat, 1, 2] * 64 * max 1400 2048"
proof -
  have "main_cpus small_host [''server'', ''--udp'', ''--cpus'', ''0-2''] = [0, 1, 2]"
    by (simp add: main_cpus_def resolve_cpus_def parse_cpulist_def split_on_def cpulist_part_def trim_def trim_start_def
        trim_end_def is_whitespace_def split_once_def from_str_radix_def to_digit_def Let_def upt_rec)
  then show ?thesis
    by (simp add: main_plan_def server_plan_def has_def num_flag_def Let_def oom_guard_def small_host_cap)
qed


end
