(* ===== verification/Build_Script.thy ===== *)
theory Build_Script
  imports Rust_Prelude
begin

text \<open>
  The Cargo build script, \<^verbatim>\<open>build.rs\<close>: with the feature \<^verbatim>\<open>xdp\<close> it compiles the eBPF program with
  clang and tells Cargo where the object file is; \<^verbatim>\<open>loader.rs\<close> embeds that file.  The environment,
  the file system and clang are parameters.  The lemmas say which include directory is chosen, and
  that a build that does not panic exports exactly the path clang was told to write.
\<close>

datatype build_panic =
    OutDirNotSet
  | ClangNotFound
  | ClangFailed

record build_env =
  be_feature_xdp :: bool              \<comment> \<open>\<^verbatim>\<open>CARGO_FEATURE_XDP\<close> is set\<close>
  be_out_dir :: "string option"       \<comment> \<open>\<^verbatim>\<open>OUT_DIR\<close>\<close>
  be_arch :: string                   \<comment> \<open>\<^verbatim>\<open>std::env::consts::ARCH\<close>\<close>
  be_exists :: "string \<Rightarrow> bool"       \<comment> \<open>\<^verbatim>\<open>Path::exists\<close>\<close>
  be_clang :: "string list \<Rightarrow> bool option"  \<comment> \<open>clang with these arguments: \<open>None\<close> when it cannot be started, else \<^verbatim>\<open>status.success()\<close>\<close>

definition multiarch_host :: "string \<Rightarrow> string" where
  "multiarch_host arch =
     (if arch = ''x86_64'' then ''x86_64-linux-gnu''
      else if arch = ''aarch64'' then ''aarch64-linux-gnu''
      else if arch = ''arm'' then ''arm-linux-gnueabihf''
      else '''')"

fun multiarch_scan :: "(string \<Rightarrow> bool) \<Rightarrow> string list \<Rightarrow> string option" where
  "multiarch_scan exs [] = None"
| "multiarch_scan exs (m # ms) =
     (if m = '''' then multiarch_scan exs ms
      else let path = ''/usr/include/'' @ m in
        if exs path then Some path else multiarch_scan exs ms)"

definition arch_include_path :: "build_env \<Rightarrow> string option" where
  "arch_include_path env =
     multiarch_scan (be_exists env) [multiarch_host (be_arch env), ''x86_64-linux-gnu'', ''aarch64-linux-gnu'']"

definition bpf_src :: string where
  "bpf_src = ''ebpf/runperf_xdp.c''"

definition clang_args :: "string \<Rightarrow> string option \<Rightarrow> string list" where
  "clang_args out inc =
     [''-target'', ''bpf'', ''-O2'', ''-g'', ''-c'', bpf_src, ''-o'', out] @
     (case inc of None \<Rightarrow> [] | Some i \<Rightarrow> [''-I'' @ i])"

text \<open>The result is the lines printed for Cargo and how the function ended.\<close>

definition compile_xdp_program :: "build_env \<Rightarrow> string list \<times> (build_panic + unit)" where
  "compile_xdp_program env =
     (case be_out_dir env of
        None \<Rightarrow> ([], Inl OutDirNotSet)
      | Some out_dir \<Rightarrow>
          let out = out_dir @ ''/runperf_xdp.o'';
              rerun = ''cargo:rerun-if-changed='' @ bpf_src
          in case be_clang env (clang_args out (arch_include_path env)) of
               None \<Rightarrow> ([rerun], Inl ClangNotFound)
             | Some ok \<Rightarrow>
                 if \<not> ok then ([rerun], Inl ClangFailed)
                 else ([rerun, ''cargo:rustc-env=XDP_BPF_OBJ='' @ out], Inr ()))"

definition build_main :: "build_env \<Rightarrow> string list \<times> (build_panic + unit)" where
  "build_main env = (if be_feature_xdp env then compile_xdp_program env else ([], Inr ()))"

lemma multiarch_scan_exists: "multiarch_scan exs ms = Some p \<Longrightarrow> exs p"
  by (induction ms) (auto simp: Let_def split: if_splits)

text \<open>The directory of the build host is preferred; whatever is chosen exists.\<close>

lemma arch_include_path_host:
  assumes "multiarch_host (be_arch env) \<noteq> ''''" "be_exists env (''/usr/include/'' @ multiarch_host (be_arch env))"
  shows "arch_include_path env = Some (''/usr/include/'' @ multiarch_host (be_arch env))"
  using assms by (simp add: arch_include_path_def)

lemma arch_include_path_exists: "arch_include_path env = Some p \<Longrightarrow> be_exists env p"
  unfolding arch_include_path_def by (rule multiarch_scan_exists)

lemma arch_include_path_None:
  "arch_include_path env = None \<longleftrightarrow>
     (multiarch_host (be_arch env) = '''' \<or> \<not> be_exists env (''/usr/include/'' @ multiarch_host (be_arch env))) \<and>
     \<not> be_exists env ''/usr/include/x86_64-linux-gnu'' \<and> \<not> be_exists env ''/usr/include/aarch64-linux-gnu''"
  by (auto simp: arch_include_path_def Let_def)

text \<open>A build with the feature that ends well has run clang successfully on the program, and the path it exports
  is the output path given to clang.\<close>

lemma build_main_exports:
  assumes "be_feature_xdp env" "build_main env = (ls, Inr ())"
  obtains out_dir where "be_out_dir env = Some out_dir"
    "be_clang env (clang_args (out_dir @ ''/runperf_xdp.o'') (arch_include_path env)) = Some True"
    "last ls = ''cargo:rustc-env=XDP_BPF_OBJ='' @ out_dir @ ''/runperf_xdp.o''"
  using assms by (auto simp: build_main_def compile_xdp_program_def Let_def split: option.splits if_splits)

lemma build_main_no_feature: "\<not> be_feature_xdp env \<Longrightarrow> build_main env = ([], Inr ())"
  by (simp add: build_main_def)

end
