(* ===== verification/Spec2Isabelle.thy ===== *)
theory Spec2Isabelle
  imports Xdp_Engine Net_Engine Cli Build_Script
begin

text \<open>
  RunPerf is a network benchmark: a client sends TCP or UDP traffic from pinned threads, a server counts what
  arrives and derives loss from gaps in sequence numbers.  Each side has two engines, one on ordinary sockets and one on
  AF_XDP, where the program shares packet memory and rings with the kernel.  This development models the code of
  \<^verbatim>\<open>src/*.rs\<close>, \<^verbatim>\<open>src/xdp/*.rs\<close>, \<^verbatim>\<open>ebpf/runperf_xdp.c\<close> and \<^verbatim>\<open>build.rs\<close>.

  \<^bold>\<open>Theories and sources.\<close>
  \<^item> \<open>Rust_Prelude\<close>, \<open>Rust_Str\<close>: integers, panics, byte encodings, and the string functions of Rust's standard library.
  \<^item> \<open>Os_Model\<close>: system calls.  A record \<open>os\<close> answers each call from the trace of calls so far; open descriptors, live
    mappings, the mappings made and the refused requests for ring offsets are functions of the trace.
  \<^item> \<open>Xdp_Rings\<close>, \<open>Umem\<close> (\<^verbatim>\<open>xdp/umem.rs\<close>), \<open>Xsk_Socket\<close> (\<^verbatim>\<open>xdp/socket.rs\<close>): the rings, the packet memory, the socket.
  \<^item> \<open>Simd\<close> (\<^verbatim>\<open>simd.rs\<close>), \<open>Frame\<close> (\<^verbatim>\<open>xdp/frame.rs\<close>), \<open>Iface\<close> (the discovery functions of \<^verbatim>\<open>xdp/frame.rs\<close> and \<^verbatim>\<open>xdp/socket.rs\<close>).
  \<^item> \<open>Xdp_Prog\<close> (\<^verbatim>\<open>ebpf/runperf_xdp.c\<close>), \<open>Loader\<close> (\<^verbatim>\<open>xdp/loader.rs\<close>).
  \<^item> \<open>Loss\<close>, \<open>Pacing\<close>: the sequence-gap code and the rate cap, each of which occurs twice in the source.
  \<^item> \<open>Tx_Gen\<close> (the transmit loop of \<^verbatim>\<open>xdp/gen.rs\<close>), \<open>Sink\<close> (the receive loop of \<^verbatim>\<open>xdp/sink.rs\<close>), \<open>Xdp_Engine\<close> (the entry
    points \<^verbatim>\<open>xdp_udp_blast\<close> and \<^verbatim>\<open>xdp_udp_sink\<close>).
  \<^item> \<open>Net_Engine\<close> (\<^verbatim>\<open>net.rs\<close>), \<open>Affinity\<close> (\<^verbatim>\<open>affinity.rs\<close>), \<open>Cli\<close> (\<^verbatim>\<open>main.rs\<close>), \<open>Build_Script\<close> (\<^verbatim>\<open>build.rs\<close>).

  \<^bold>\<open>How the code is modelled.\<close>  Structs are records, one definition per function or loop body, composed as in the
  source.  Integers are words with the wrapping arithmetic of the release profile.  A panic is the value \<open>Inl\<close> of
  \<open>may_panic\<close>; the release profile aborts on a panic, so a panic in any thread ends the run (\<open>join_all\<close>).  Errors are values, one
  constructor per message; \<^verbatim>\<open>Drop\<close> on early returns is written out.  A loop runs over a list of turns, each with the clock
  readings and the results of the calls of that turn; a theorem over all such lists covers every run up to any point,
  so no fuel bound is needed.

  \<^bold>\<open>The kernel's side of AF_XDP.\<close>  Between any two accesses of a loop to its rings the kernel may move.  Its moves are
  parameters, constrained by \<open>kernel_tx_step\<close> (take descriptors in order, transmit them in order by reading the
  memory at that moment, complete transmitted frames) and \<open>kernel_rx_step\<close> (take buffers, publish descriptors of
  buffers it holds).  The states carry the kernel's side along (\<open>ts_queue\<close>, \<open>ts_sent\<close>, \<open>ts_out\<close>; \<open>rs_held\<close>, \<open>rs_in\<close>), so that
  ownership is a conservation law: the multiset of all frames, on both sides, never changes.  A frame that the
  program loses breaks the law.  \<open>ts_out\<close> and \<open>rs_in\<close> are the bytes on the wire and the bytes delivered; the
  program never reads these fields.

  \<^bold>\<open>What is proved.\<close>
  \<^item> Rings: each operation is a FIFO operation on the abstract queue for every value of the wrapping indices; contracts as
    locales, interpreted on both rings.
  \<^item> Set-up: the frames handed out are disjoint and inside the area; what every error path of \<^verbatim>\<open>Umem::new\<close>,
    \<^verbatim>\<open>create_xsk_socket\<close>, \<^verbatim>\<open>xdp_udp_sink\<close>, \<^verbatim>\<open>xdp_udp_blast\<close> and the socket servers leaves open or mapped, exactly.
  \<^item> Frames: \<^verbatim>\<open>write_frame\<close> gives the frame of a specification with an independent RFC 1071 checksum, through every SIMD path.
  \<^item> Generator: no panic, conservation of frames, the bytes handed to the kernel, exact counters, sequence numbers, progress,
    rate bound.  Sink: conservation, exact counters and loss.  Both: the end-to-end theorem of this theory.
  \<^item> Sockets: what a UDP client puts on the wire for all results of \<^verbatim>\<open>sendmmsg\<close>, what a server counts for all batchings, the
    two composed; TCP byte counts and the spread of readers over CPUs.
  \<^item> Discovery and command line: longest-prefix match, ARP and CPU-list round trips, what the memory guard bounds and
    what it lets through, a CPU for every worker.
  \<^item> Where code and comments disagree, or a corner case goes wrong, a theorem or lemma states what the code does:
    redirection of all UDP ports, overflow and blind spots of the memory guard, skipped sequence numbers counted as loss,
    reordering counted as loss, leaked descriptors and mappings, the panic on long payloads.

  \<^bold>\<open>Hypotheses on code outside the repository.\<close>  \<open>fresh_addr_rings\<close>, \<open>fresh_desc_rings\<close> (new rings are empty and of the size asked
  for), \<open>kernel_ok\<close>, \<open>rx_kernel_ok\<close> (the kernel's moves above), \<open>redirect_map_ok\<close> (\<^verbatim>\<open>bpf_redirect_map\<close>), \<open>clock_ok\<close>
  (monotonic clock, \<^verbatim>\<open>sleep\<close> sleeps at least as long as asked), \<open>rets_ok\<close> (\<^verbatim>\<open>sendmmsg\<close> sends at most the batch).  Each
  is met by a concrete instance in a witness.  Bounds such as \<open>length tns < 2 ^ 58\<close> keep 64-bit sequence numbers from wrapping;
  at a turn per nanosecond that is nine years.

  \<^bold>\<open>Not modelled.\<close>  Memory ordering (ring accesses are sequentially consistent), floating-point rates, message texts on stderr,
  the usage text, the inside of \<^verbatim>\<open>aya\<close>, clang and the resolver, overflow of \<^verbatim>\<open>Instant\<close> arithmetic for durations of
  billions of years, and the integration tests.
\<close>

section \<open>Every worker has a CPU\<close>

definition plan_cpus :: "plan \<Rightarrow> nat list option" where
  "plan_cpus p =
     (case p of
        RunSink _ _ cpus \<Rightarrow> Some cpus
      | RunUdpServer _ _ cpus \<Rightarrow> Some cpus
      | RunTcpServer _ cpus \<Rightarrow> Some cpus
      | RunBlast _ _ _ _ _ _ cpus _ \<Rightarrow> Some cpus
      | RunUdpClient _ _ _ _ _ cpus _ \<Rightarrow> Some cpus
      | RunTcpClient _ _ _ cpus _ \<Rightarrow> Some cpus
      | _ \<Rightarrow> None)"

lemma plan_cpus_main: "plan_cpus (main_plan h args) = Some cpus \<Longrightarrow> cpus = main_cpus h args"
  by (auto simp: plan_cpus_def main_plan_def server_plan_def client_plan_def Let_def split: if_splits option.splits)

text \<open>C36. Whatever the command line and the host, an engine that \<^verbatim>\<open>main\<close> starts gets at least one CPU, so that the choice of
  a worker's CPU, \<^verbatim>\<open>cpus[w % cpus.len()]\<close>, never divides by zero and never reads outside the list.\<close>

theorem workers_have_cpus:
  "case plan_cpus (main_plan h args) of
     None \<Rightarrow> True
   | Some cpus \<Rightarrow> (\<forall>w. \<exists>c. worker_cpu cpus w = Inr c \<and> c \<in> set (main_cpus h args))"
proof (cases "plan_cpus (main_plan h args)")
  case (Some cpus)
  then show ?thesis
    using plan_cpus_main [OF Some] worker_cpu_in [OF main_cpus_not_Nil, of h args] by fastforce
qed simp

section \<open>From the generator to the sink\<close>

lemma subseq_mapD: "subseq xs (map f ys) \<Longrightarrow> \<exists>zs. subseq zs ys \<and> xs = map f zs"
proof (induction ys arbitrary: xs)
  case (Cons y ys)
  show ?case
  proof (cases xs)
    case (Cons x xs')
    with Cons.prems consider "x = f y" "subseq xs' (map f ys)" | "subseq xs (map f ys)"
      by (auto simp: subseq_Cons2_iff split: if_splits)
    then show ?thesis
    proof cases
      case 1
      from Cons.IH [OF 1(2)] obtain zs where "subseq zs ys" "xs' = map f zs" by blast
      with 1(1) Cons show ?thesis by (intro exI [of _ "y # zs"]) simp
    next
      case 2
      from Cons.IH [OF this] show ?thesis by (blast intro: list_emb_Cons)
    qed
  qed auto
qed auto

lemma subseq_set: "subseq xs ys \<Longrightarrow> x \<in> set xs \<Longrightarrow> x \<in> set ys"
  by (auto dest: list_emb_set)

lemma sorted_wrt_subseq: "subseq xs ys \<Longrightarrow> sorted_wrt P ys \<Longrightarrow> sorted_wrt P xs"
  by (induction rule: list_emb.induct) (auto dest: subseq_set)

text \<open>What the sink reads when a subsequence \<open>ps\<close> of a worker's payloads arrives.\<close>

lemma frames_of_worker:
  assumes "length sm = 6" "length dm = 6" "16 \<le> n"
  shows "List.map_filter frame_ids (map (frame_spec sm dm si di sp dp) (map (stamped worker n) qs)) = map (Pair (of_nat worker)) qs"
proof (induction qs)
  case (Cons q qs)
  have "frame_ids (frame_spec sm dm si di sp dp (stamped worker n q)) = Some (of_nat worker, q)"
    using frame_ids_frame_spec [OF assms(1,2), of "stamped worker n q"] payload_ids_stamped [of worker n q "[]"] assms(3) by simp
  with Cons show ?case by (simp add: List.map_filter_simps)
qed (simp add: List.map_filter_simps)

text \<open>What a worker that started with nothing handed over has sent: frames of a strictly increasing run of sequence numbers, of
  which the kernel has put a first part on the wire.\<close>

lemma fresh_worker_output:
  assumes "worker_setup st sm dm si di sp dp n tns" "length tns < 2 ^ 58" "handed st = []"
    and "tx_loop c st worker n deadline pps now tns = Inr ls"
  obtains qs where "ls_wire ls = map (stamped worker n) qs" "sorted_wrt (<) (map unat qs)"
    "\<And>q. q \<in> set qs \<Longrightarrow> q < ls_seq ls" "unat (ls_seq ls) \<le> length qs + length (executed deadline tns)"
    "prefix (ts_out (ls_st ls)) (map (frame_spec sm dm si di sp dp) (ls_wire ls))"
proof -
  obtain qs where gen: "ls_wire ls = map (stamped worker n) qs" "sorted_wrt (<) (map unat qs)"
    "\<And>q. q \<in> set qs \<Longrightarrow> q < ls_seq ls" "unat (ls_seq ls) \<le> length qs + length (executed deadline tns)"
    "handed (ls_st ls) = handed st @ map (frame_spec sm dm si di sp dp) (ls_wire ls)"
    using tx_loop_wire [OF assms(1,2), of c worker deadline pps now] assms(4) by auto
  have "prefix (ts_out (ls_st ls)) (map (frame_spec sm dm si di sp dp) (ls_wire ls))"
    using gen(5) assms(3) prefixI [OF gen(5) [symmetric, unfolded handed_def]] by (simp add: handed_def)
  with gen(1-4) show thesis by (rule that)
qed

text \<open>What a worker of the sink reports when it has handled the frames of the numbers \<open>qs\<close> of one worker of the generator.\<close>

lemma sink_counts_worker:
  assumes "counted s" "rs_frames s = map (frame_spec sm dm si di sp dp) (map (stamped worker n) qs)"
    and "length sm = 6" "length dm = 6" "16 \<le> n" "sorted_wrt (<) (map unat qs)"
  shows "rs_pkts s = of_nat (length qs)" "rs_bytes s = of_nat (length qs * (42 + n))"
    "rs_seen s = map (Pair (of_nat worker)) qs"
    "rs_drops s = of_nat (if qs = [] then 0 else unat (last qs) - unat (hd qs) + 1 - length qs)"
proof -
  show seen: "rs_seen s = map (Pair (of_nat worker)) qs"
    using frames_of_worker [OF assms(3-5)] assms(1) by (simp add: counted_def assms(2))
  have "map (\<lambda>d. unat (len d)) (rs_taken s) = map length (rs_frames s)" using assms(1) by (simp add: counted_def)
  also have "\<dots> = replicate (length qs) (42 + n)" using assms(3-5) by (simp add: assms(2) map_replicate_const o_def)
  finally have lens: "map (\<lambda>d. unat (len d)) (rs_taken s) = replicate (length qs) (42 + n)" .
  have "length (rs_taken s) = length qs" using arg_cong [OF lens, of length] by simp
  then show "rs_pkts s = of_nat (length qs)" "rs_bytes s = of_nat (length qs * (42 + n))"
    using assms(1) unfolding counted_def lens by (simp_all add: sum_list_replicate)
  have "note_all (rs_seen s) (Map.empty, 0) = (rs_last s, rs_drops s)" using assms(1) unfolding counted_def by blast
  then show "rs_drops s = of_nat (if qs = [] then 0 else unat (last qs) - unat (hd qs) + 1 - length qs)"
    using single_stream_drops [OF assms(6), of "of_nat worker" 0] by (cases "qs = []") (simp_all add: seen note_all_def)
qed

text \<open>C3. The AF_XDP test from end to end.  A worker of the generator that starts with nothing handed over runs against a sink
  that was set up successfully.  What it puts on the wire, the bytes the kernel reads from its memory, are frames of the
  payloads it sends, in order, and every one of them is redirected by the XDP program to the socket of the queue it
  arrives on.  When the kernel delivers some of these bytes, in order, to a worker of the sink, the frames that worker
  has handled are exactly those of some of the sequence numbers \<open>qs\<close>, and the rest still waits in its ring; its counters are
  the number of these frames and of their bytes, every frame is read as the generator's worker and sequence number, and
  the loss it reports is the number of sequence numbers it did not see between the first and the last, at most the
  number of frames that it has not handled plus one per turn of the generator's loop.\<close>

theorem xdp_end_to_end:
  assumes "worker_setup st sm dm si di sp dp n tns" "length tns < 2 ^ 58" "handed st = []"
    and "tx_loop c st worker n deadline pps now tns = Inr ls"
    and "fresh_addr_rings os" "fresh_desc_rings os" "redirect_map_ok rm"
    and "xdp_udp_sink a prog os nti fs iface cpus tr = (tr', Inr (h, socks))" "w < length socks"
    and "\<forall>e \<in> set es. rx_kernel_ok (rn_kernel e)"
    and "s = rx_loop deadline' es (rx_start (socks ! w) m)"
    and "subseq (rs_in s) (ts_out (ls_st ls))"
  shows "prefix (ts_out (ls_st ls)) (map (frame_spec sm dm si di sp dp) (ls_wire ls)) \<and>
    (\<forall>f \<in> set (ts_out (ls_st ls)). dns_xdp_client rm (xsks h) (of_nat w) f = XDP_REDIRECT (xsk_fd (socks ! w))) \<and>
    (\<exists>qs k. rs_in s = map (frame_spec sm dm si di sp dp) (map (stamped worker n) qs) @
         map (read_desc (rs_mem s)) (ring_list (rs_rx s)) \<and>
       sorted_wrt (<) (map unat qs) \<and>
       rs_pkts s = of_nat (length qs) \<and> rs_bytes s = of_nat (length qs * (42 + n)) \<and>
       rs_seen s = map (Pair (of_nat worker)) qs \<and>
       k = (if qs = [] then 0 else unat (last qs) - unat (hd qs) + 1 - length qs) \<and> rs_drops s = of_nat k \<and>
       k \<le> length (ls_wire ls) - length qs + length (executed deadline tns))"
proof -
  let ?frame = "frame_spec sm dm si di sp dp"
  have hdr: "length sm = 6" "length dm = 6" "16 \<le> n" using assms(1) by (simp_all add: worker_setup_def has_header_def)
  obtain qs0 where gen: "ls_wire ls = map (stamped worker n) qs0" "sorted_wrt (<) (map unat qs0)"
    "\<And>q. q \<in> set qs0 \<Longrightarrow> q < ls_seq ls" "unat (ls_seq ls) \<le> length qs0 + length (executed deadline tns)"
    "prefix (ts_out (ls_st ls)) (map ?frame (ls_wire ls))"
    using fresh_worker_output [OF assms(1-4)] by blast
  note sink = sink_redirects [OF assms(7,8) disjI1 [OF frame_spec_udp [OF hdr(1,2)]]]
  have redirect: "\<forall>f \<in> set (ts_out (ls_st ls)). dns_xdp_client rm (xsks h) (of_nat w) f = XDP_REDIRECT (xsk_fd (socks ! w))"
    using sink assms(9) set_mono_prefix [OF gen(5)] by auto
  obtain ifidx zc tr1 tr2 where "create_xsk_socket os ifidx (of_nat w) zc tr1 = (tr2, Inr (socks ! w))"
    using sink assms(9) by blast
  from rx_loop_spec [of "rx_start (socks ! w) m" es deadline'] rx_start_inv [OF assms(5,6) this, of m] assms(10,11)
  have cnt: "counted s" and split: "rs_in s = rs_frames s @ map (read_desc (rs_mem s)) (ring_list (rs_rx s))"
    by (simp_all add: delivered_def)
  have "subseq (rs_frames s) (rs_in s)" unfolding split by (intro prefix_imp_subseq prefixI [OF refl])
  then have "subseq (rs_frames s) (map (?frame \<circ> stamped worker n) qs0)"
    using subseq_order.trans [OF subseq_order.trans [OF _ assms(12)] prefix_imp_subseq [OF gen(5)]] by (simp add: gen(1))
  then obtain qs where qs: "subseq qs qs0" "rs_frames s = map ?frame (map (stamped worker n) qs)"
    by (auto dest!: subseq_mapD)
  have sorted: "sorted_wrt (<) (map unat qs)"
    using sorted_wrt_subseq [OF subseq_map [OF qs(1)] gen(2)] .
  define k where "k = (if qs = [] then 0 else unat (last qs) - unat (hd qs) + 1 - length qs)"
  have "last qs < ls_seq ls" if "qs \<noteq> []" using gen(3) qs(1) that by (blast dest: subseq_set intro: last_in_set)
  then have "k \<le> length (ls_wire ls) - length qs + length (executed deadline tns)"
    using gen(4) list_emb_length [OF qs(1)] by (auto simp: k_def word_less_nat_alt gen(1))
  with sink_counts_worker [OF cnt qs(2) hdr sorted] redirect split sorted gen(5) qs(2) show ?thesis
    by (intro conjI exI [of _ qs] exI [of _ k]) (simp_all add: k_def)
qed

lemma rs_in_receive: "rs_in (rx_turn (receive f) s) = rs_in (receive f 0 s)"
proof -
  have "rs_in (fold rx_frame ds t) = rs_in t" for ds t
    by (induction ds arbitrary: t) (simp_all add: rx_frame_keeps)
  moreover have "receive f 1 t = t" for t by (simp add: receive_def)
  ultimately show ?thesis
    by (simp add: rx_turn_def Let_def set_rx_def set_fill_def split: prod.splits)
qed

theorem xdp_end_to_end_witness:
  "\<exists>ls tr' h socks s. tx_loop demo_cpu (demo_worker [frame_addr 2048]) 0 64 (2 * SECOND) 0 0 demo_turns = Inr ls \<and>
     xdp_udp_sink demo_aya [] good_os (\<lambda>_. 2) demo_fs ''eth0'' [0] [] = (tr', Inr (h, socks)) \<and>
     s = rx_loop 5 [\<lparr>rn_run = True, rn_now = 1, rn_kernel = receive (hd (ts_out (ls_st ls)))\<rparr>] (rx_start (socks ! 0) (\<lambda>_. 0)) \<and>
     rs_in s = [hd (ts_out (ls_st ls))] \<and> rs_pkts s = 1 \<and> rs_bytes s = 106 \<and> rs_drops s = 0"
proof -
  let ?frame = "frame_spec (replicate 6 1) (replicate 6 2) (Ipv4 10 0 0 1) (Ipv4 10 0 0 2) 40000 5201"
  obtain ls where ls: "tx_loop demo_cpu (demo_worker [frame_addr 2048]) 0 64 (2 * SECOND) 0 0 demo_turns = Inr ls"
    using tx_loop_wire [OF demo_setup, of demo_cpu 0 "2 * SECOND" 0 0] by (auto simp: demo_turns_def)
  note ne = demo_out [OF ls]
  have turns: "length demo_turns < 2 ^ 58" by (simp add: demo_turns_def)
  have new: "handed (demo_worker [frame_addr 2048]) = []"
    by (simp add: handed_def pending_def demo_worker_def demo_ring_fresh)
  let ?f = "hd (ts_out (ls_st ls))"
  obtain qs0 where "prefix (ts_out (ls_st ls)) (map ?frame (ls_wire ls))" "ls_wire ls = map (stamped 0 64) qs0"
    using fresh_worker_output [OF demo_setup turns new ls] by blast
  then obtain q where f: "?f = ?frame (stamped 0 64 q)"
    using ne by (auto simp: prefix_def neq_Nil_conv map_eq_Cons_conv)
  have len: "length ?f \<le> 4096" by (simp add: f)
  obtain tr' h socks where sink: "xdp_udp_sink demo_aya [] good_os (\<lambda>_. 2) demo_fs ''eth0'' [0] [] = (tr', Inr (h, socks))"
    using demo_sink by blast
  have u: "udp_over_ipv4 (?frame [])" by (rule frame_spec_udp) simp_all
  have one: "0 < length socks"
    using sink_redirects [OF lookup_redirect_ok sink disjI1 [OF u]] by (simp add: demo_rx_queues worker_count_def)
  obtain ifidx zc tr1 tr2 where sock: "create_xsk_socket good_os ifidx (of_nat 0) zc tr1 = (tr2, Inr (socks ! 0))"
    using sink_redirects [OF lookup_redirect_ok sink disjI1 [OF u]] one by blast
  let ?init = "rx_start (socks ! 0) (\<lambda>_. 0)" and ?es = "[\<lparr>rn_run = True, rn_now = 1, rn_kernel = receive ?f\<rparr>]"
  let ?s = "rx_loop 5 ?es ?init"
  note start = rx_start_inv [OF good_os_fresh sock, of "\<lambda>_. 0"]
  have rings: "ring_list (rs_fill ?init) \<noteq> []" "ring_list (rs_rx ?init) = []"
    using create_xsk_socket_rings [OF good_os_fresh sock] by (auto simp: rx_start_def rx_addrs_def ring_size_le_count)
  have kn: "\<forall>e \<in> set ?es. rx_kernel_ok (rn_kernel e)" using receive_kernel_ok by simp
  have frames: "rs_frames ?s = [?f]"
    using rx_turn_spec [OF _ _ _ receive_kernel_ok, of ?init] start receive_reads [OF _ len rings] by (simp add: rx_start_def)
  have "rs_in ?s = rs_in (receive ?f 0 ?init)" by (simp add: rs_in_receive)
  then have got: "rs_in ?s = [?f]" using receive_reads [OF _ len rings] start by (simp add: rx_start_def)
  have "delivered ?s" using rx_turn_spec [OF _ _ _ receive_kernel_ok, of ?init] start by simp
  then have "map (read_desc (rs_mem ?s)) (ring_list (rs_rx ?s)) = []"
    unfolding delivered_def got frames by simp
  then have rest: "ring_list (rs_rx ?s) = []" by simp
  have "subseq (rs_in ?s) (ts_out (ls_st ls))" using got ne by (simp add: subseq_singleton_left)
  note all = xdp_end_to_end [OF demo_setup turns new ls good_os_fresh lookup_redirect_ok sink one kn refl this]
  obtain qs where qs: "rs_in ?s = map ?frame (map (stamped 0 64) qs) @ map (read_desc (rs_mem ?s)) (ring_list (rs_rx ?s))"
    "rs_pkts ?s = of_nat (length qs)" "rs_bytes ?s = of_nat (length qs * (42 + 64))"
    "rs_drops ?s = of_nat (if qs = [] then 0 else unat (last qs) - unat (hd qs) + 1 - length qs)"
    using all by (elim conjE exE) (rule that, assumption+, simp only:)
  have "length qs = length (map ?frame (map (stamped 0 64) qs) @ map (read_desc (rs_mem ?s)) (ring_list (rs_rx ?s)))"
    unfolding rest by simp
  also have "\<dots> = 1" unfolding qs(1) [symmetric] got by simp
  finally obtain q where q: "qs = [q]" by (auto simp: length_Suc_conv)
  have "rs_pkts ?s = 1" "rs_bytes ?s = 106" "rs_drops ?s = 0" using qs(2-4) unfolding q by simp_all
  with ls sink refl got show ?thesis by (intro exI conjI)
qed

end
